theory Spec2Isabelle
  imports Main "HOL-Library.Word"
begin

unbundle bit_operations_syntax

section \<open>Data model of the descriptor engine (drv\_ethmac\_lib.c)\<close>

text \<open>
  Pointers are 32-bit words, the null pointer is 0. A function that dereferences a null
  pointer, or spins for ever in one of the source's busy-wait loops, does not return:
  its model returns \<open>None\<close>.
\<close>

type_synonym addr = "32 word"

text \<open>
  The descriptor header \<open>hwDcpt.hdr\<close>: a union of the word \<open>w\<close> and bit fields.
  The bit fields are the ones drv\_ethmac\_lib.c reads and writes; their positions in the
  word are declared in drv\_ethmac\_lib.h, which is not among the sources, so the header
  is a record of its fields. Writing the word \<open>w\<close> sets every field at once.
\<close>

record DRV_ETHMAC_DCPT_HDR =
  EOWN :: bool
  NPV :: bool
  sticky :: bool
  kv0 :: bool
  rx_wack :: bool
  rx_nack :: bool
  bCount :: "16 word"
  EOP :: bool
  SOP :: bool

text \<open>\<open>hdr.w = 0\<close>\<close>

definition hdr_w_0 :: DRV_ETHMAC_DCPT_HDR where
  "hdr_w_0 = \<lparr>EOWN = False, NPV = False, sticky = False, kv0 = False, rx_wack = False,
     rx_nack = False, bCount = 0, EOP = False, SOP = False\<rparr>"

text \<open>
  \<open>hdr.w = _SDCPT_HDR_NPV_MASK_ | _SDCPT_HDR_EOWN_MASK_ | (nBytes << _SDCPT_HDR_BCOUNT_POS_)\<close>

  Modelled from the spec: the masks and the position of the byte count are macros of
  drv\_ethmac\_lib.h, which is not among the sources. The byte count is taken as a field
  of its own that holds \<open>nBytes\<close> as it is passed (an \<open>unsigned short\<close>): the write sets
  \<open>NPV\<close>, \<open>EOWN\<close> and the byte count and clears every other field. A byte count too
  large for the field of the device would spill into the neighbouring bits of the word;
  the model does not follow that. The theorems of the claims read \<open>EOWN\<close> of such a
  header, or compare the header of a node before and after a call.
\<close>

definition hdr_w_NPV_EOWN :: "16 word \<Rightarrow> DRV_ETHMAC_DCPT_HDR" where
  "hdr_w_NPV_EOWN nBytes = hdr_w_0\<lparr>EOWN := True, NPV := True, bCount := nBytes\<rparr>"

text \<open>
  A descriptor node: the software link \<open>next\<close> and the hardware descriptor (header,
  buffer address, status block, hardware link \<open>next_ed\<close>).
\<close>

record DRV_ETHMAC_DCPT_NODE =
  "next" :: addr
  hdr :: DRV_ETHMAC_DCPT_HDR
  pEDBuff :: addr
  stat :: "64 word"
  next_ed :: addr

type_synonym heap = "addr \<Rightarrow> DRV_ETHMAC_DCPT_NODE"

record DRV_ETHMAC_DCPT_LIST =
  head :: addr
  tail :: addr

datatype DRV_ETHMAC_RESULT =
    DRV_ETHMAC_RES_OK
  | DRV_ETHMAC_RES_NO_PACKET
  | DRV_ETHMAC_RES_PACKET_QUEUED
  | DRV_ETHMAC_RES_NO_DESCRIPTORS
  | DRV_ETHMAC_RES_USPACE_ERR
  | DRV_ETHMAC_RES_RX_PKT_SPLIT_ERR

datatype DRV_ETHMAC_DCPT_TYPE =
    DRV_ETHMAC_DCPT_TYPE_RX
  | DRV_ETHMAC_DCPT_TYPE_TX
  | DRV_ETHMAC_DCPT_TYPE_ALL


text \<open>
  A packet buffer descriptor of the caller (\<open>DRV_ETHMAC_PKT_DCPT\<close>); a chain of them,
  linked by their \<open>next\<close> field, is a list, and the null chain is the empty list.
\<close>

record DRV_ETHMAC_PKT_DCPT =
  pBuff :: addr
  nBytes :: "16 word"

text \<open>The bits of \<open>DRV_ETHMAC_BUFF_FLAGS\<close> that the receive path tests.\<close>

datatype DRV_ETHMAC_BUFF_FLAGS =
    DRV_ETHMAC_BUFF_FLAG_RX_STICKY
  | DRV_ETHMAC_BUFF_FLAG_RX_UNACK

text \<open>
  The address translation macros (\<open>KVA_TO_PA\<close>, \<open>PA_TO_KVA0\<close>, \<open>PA_TO_KVA1\<close>,
  \<open>IS_KVA0\<close>, \<open>IS_KVA\<close>) come from the toolchain, and the offset of \<open>hwDcpt\<close> in a
  node from drv\_ethmac\_lib.h; neither is among the sources. Every function that uses
  them takes them as the parameter \<open>pf\<close>.
\<close>

record platform =
  KVA_TO_PA :: "addr \<Rightarrow> addr"
  PA_TO_KVA0 :: "addr \<Rightarrow> addr"
  PA_TO_KVA1 :: "addr \<Rightarrow> addr"
  IS_KVA0 :: "addr \<Rightarrow> bool"
  IS_KVA :: "addr \<Rightarrow> bool"
  hwDcpt_off :: addr

text \<open>
  Modelled from the spec: the hardware register facade (section 6; the \<open>DRV_ETH_*\<close>
  functions are not among the sources). The registers the descriptor engine touches:
  the TX and RX head descriptor addresses, the TX request-to-send and RX enable bits,
  and the number of decrements of the pending-buffer counter issued so far.
\<close>

record DRV_ETHERNET_REGISTERS =
  ETHTXST :: addr
  ETHRXST :: addr
  TXRTS :: bool
  RXEN :: bool
  BUFCDEC :: nat

definition DRV_ETH_RxBufferCountDecrement :: "DRV_ETHERNET_REGISTERS \<Rightarrow> DRV_ETHERNET_REGISTERS" where
  "DRV_ETH_RxBufferCountDecrement ethId = ethId\<lparr>BUFCDEC := BUFCDEC ethId + 1\<rparr>"

definition DRV_ETH_RxPacketDescAddrGet :: "DRV_ETHERNET_REGISTERS \<Rightarrow> addr" where
  "DRV_ETH_RxPacketDescAddrGet ethId = ETHRXST ethId"

definition DRV_ETH_RxPacketDescAddrSet :: "DRV_ETHERNET_REGISTERS \<Rightarrow> addr \<Rightarrow> DRV_ETHERNET_REGISTERS" where
  "DRV_ETH_RxPacketDescAddrSet ethId a = ethId\<lparr>ETHRXST := a\<rparr>"

definition DRV_ETH_TxPacketDescAddrGet :: "DRV_ETHERNET_REGISTERS \<Rightarrow> addr" where
  "DRV_ETH_TxPacketDescAddrGet ethId = ETHTXST ethId"

definition DRV_ETH_TxPacketDescAddrSet :: "DRV_ETHERNET_REGISTERS \<Rightarrow> addr \<Rightarrow> DRV_ETHERNET_REGISTERS" where
  "DRV_ETH_TxPacketDescAddrSet ethId a = ethId\<lparr>ETHTXST := a\<rparr>"

definition DRV_ETH_RxEnable :: "DRV_ETHERNET_REGISTERS \<Rightarrow> DRV_ETHERNET_REGISTERS" where
  "DRV_ETH_RxEnable ethId = ethId\<lparr>RXEN := True\<rparr>"

definition DRV_ETH_TxRTSEnable :: "DRV_ETHERNET_REGISTERS \<Rightarrow> DRV_ETHERNET_REGISTERS" where
  "DRV_ETH_TxRTSEnable ethId = ethId\<lparr>TXRTS := True\<rparr>"

text \<open>
  The MAC instance \<open>pMacD->mData\<close>: the four descriptor lists and the registers, together
  with the memory \<open>mem\<close> that holds the descriptor nodes.
\<close>

record DRV_ETHMAC_INSTANCE_DCPT =
  mem :: heap
  EnetTxFreePtr :: DRV_ETHMAC_DCPT_LIST
  EnetTxBusyPtr :: DRV_ETHMAC_DCPT_LIST
  EnetRxFreePtr :: DRV_ETHMAC_DCPT_LIST
  EnetRxBusyPtr :: DRV_ETHMAC_DCPT_LIST
  pEthReg :: DRV_ETHERNET_REGISTERS

section \<open>Descriptor lists\<close>

text \<open>
  Modelled from the spec: the list helpers \<open>DRV_ETHMAC_LIB_List*\<close> are inline functions
  of drv\_ethmac\_lib.h, which is not among the sources. They are the head/tail-tracked
  singly linked list of section 3, written after the generic single-list routines at
  the end of drv\_ethmac\_lib.c (\<open>DRV_ETHMAC_SingleListHeadRemove\<close>,
  \<open>DRV_ETHMAC_SingleListTailAdd\<close>, \<open>DRV_ETHMAC_SingleListAppend\<close>); linking a node after
  the tail also sets the tail's hardware link, so that the hardware sees one chain
  (section 4.2). The count of section 3 is the number of nodes reachable from the head.
\<close>

definition DRV_ETHMAC_LIB_ListInit :: DRV_ETHMAC_DCPT_LIST where
  "DRV_ETHMAC_LIB_ListInit = \<lparr>head = 0, tail = 0\<rparr>"

definition DRV_ETHMAC_LIB_ListIsEmpty :: "DRV_ETHMAC_DCPT_LIST \<Rightarrow> bool" where
  "DRV_ETHMAC_LIB_ListIsEmpty pL = (head pL = 0)"

definition DRV_ETHMAC_LIB_ListRemoveHead ::
  "heap \<Rightarrow> DRV_ETHMAC_DCPT_LIST \<Rightarrow> addr \<times> DRV_ETHMAC_DCPT_LIST" where
  "DRV_ETHMAC_LIB_ListRemoveHead h pL =
     (let pN = head pL in
      if pN \<noteq> 0 then
        (if head pL = tail pL then (pN, pL\<lparr>head := 0, tail := 0\<rparr>)
         else (pN, pL\<lparr>head := next (h pN)\<rparr>))
      else (pN, pL))"

definition DRV_ETHMAC_LIB_ListAddTail ::
  "platform \<Rightarrow> heap \<Rightarrow> DRV_ETHMAC_DCPT_LIST \<Rightarrow> addr \<Rightarrow> (heap \<times> DRV_ETHMAC_DCPT_LIST) option" where
  "DRV_ETHMAC_LIB_ListAddTail pf h pL pN =
     (if pN = 0 then None
      else
        let h1 = h(pN := (h pN)\<lparr>next := 0\<rparr>) in
        if tail pL = 0 then Some (h1, pL\<lparr>head := pN, tail := pN\<rparr>)
        else
          Some (h1(tail pL := (h1 (tail pL))\<lparr>next := pN,
                  next_ed := KVA_TO_PA pf (pN + hwDcpt_off pf)\<rparr>),
                pL\<lparr>tail := pN\<rparr>))"

definition DRV_ETHMAC_LIB_ListAddHead ::
  "platform \<Rightarrow> heap \<Rightarrow> DRV_ETHMAC_DCPT_LIST \<Rightarrow> addr \<Rightarrow> (heap \<times> DRV_ETHMAC_DCPT_LIST) option" where
  "DRV_ETHMAC_LIB_ListAddHead pf h pL pN =
     (if pN = 0 then None
      else
        let h1 = h(pN := (h pN)\<lparr>next := head pL,
                  next_ed := KVA_TO_PA pf (head pL + hwDcpt_off pf)\<rparr>) in
        Some (h1, if tail pL = 0 then pL\<lparr>head := pN, tail := pN\<rparr> else pL\<lparr>head := pN\<rparr>))"

partial_function (option) DRV_ETHMAC_LIB_ListAppendTail ::
  "platform \<Rightarrow> heap \<Rightarrow> DRV_ETHMAC_DCPT_LIST \<Rightarrow> DRV_ETHMAC_DCPT_LIST
     \<Rightarrow> (heap \<times> DRV_ETHMAC_DCPT_LIST \<times> DRV_ETHMAC_DCPT_LIST) option" where
  "DRV_ETHMAC_LIB_ListAppendTail pf h pL pAList =
     (case DRV_ETHMAC_LIB_ListRemoveHead h pAList of
        (pN, pAList') \<Rightarrow>
          if pN = 0 then Some (h, pL, pAList')
          else
            (case DRV_ETHMAC_LIB_ListAddTail pf h pL pN of
               None \<Rightarrow> None
             | Some (h', pL') \<Rightarrow> DRV_ETHMAC_LIB_ListAppendTail pf h' pL' pAList'))"


section \<open>The busy-list append protocol\<close>

text \<open>
  \<open>_EthAppendBusyList\<close>, lines 85--117. The loop of lines 95--102 moves the rest of the
  new list to the tail of the busy list.
\<close>

partial_function (option) EthAppendBusyList_loop ::
  "platform \<Rightarrow> bool \<Rightarrow> heap \<Rightarrow> DRV_ETHERNET_REGISTERS \<Rightarrow> DRV_ETHMAC_DCPT_LIST
     \<Rightarrow> DRV_ETHMAC_DCPT_LIST
     \<Rightarrow> (heap \<times> DRV_ETHERNET_REGISTERS \<times> DRV_ETHMAC_DCPT_LIST \<times> DRV_ETHMAC_DCPT_LIST) option" where
  "EthAppendBusyList_loop pf rxAck h ethId pBusyList pNewList =
     (case DRV_ETHMAC_LIB_ListRemoveHead h pNewList of
        (pN, pNewList') \<Rightarrow>
          if pN = 0 then Some (h, ethId, pBusyList, pNewList')
          else
            (case DRV_ETHMAC_LIB_ListAddTail pf h pBusyList pN of
               None \<Rightarrow> None
             | Some (h', pBusyList') \<Rightarrow>
                 EthAppendBusyList_loop pf rxAck h'
                   (if rxAck \<and> \<not> rx_nack (hdr (h' pN))
                    then DRV_ETH_RxBufferCountDecrement ethId else ethId)
                   pBusyList' pNewList'))"

text \<open>
  Lines 90--110: everything up to and including the new sentinel's insertion. The
  result carries the old tail, whose descriptor now holds the contents of the new
  list's head.
\<close>

definition EthAppendBusyList_link ::
  "platform \<Rightarrow> heap \<Rightarrow> DRV_ETHERNET_REGISTERS \<Rightarrow> DRV_ETHMAC_DCPT_LIST \<Rightarrow> DRV_ETHMAC_DCPT_LIST
     \<Rightarrow> bool
     \<Rightarrow> (heap \<times> DRV_ETHERNET_REGISTERS \<times> DRV_ETHMAC_DCPT_LIST \<times> DRV_ETHMAC_DCPT_LIST \<times> addr) option" where
  "EthAppendBusyList_link pf h ethId pBusyList pNewList rxAck =
     (let tl0 = tail pBusyList in
      case DRV_ETHMAC_LIB_ListRemoveHead h pNewList of
        (hd0, pNewList1) \<Rightarrow>
          if hd0 = 0 then None
          else
            let h1 = h(hd0 := (h hd0)\<lparr>hdr := (hdr (h hd0))\<lparr>EOWN := False\<rparr>\<rparr>) in
            (case EthAppendBusyList_loop pf rxAck h1 ethId pBusyList pNewList1 of
               None \<Rightarrow> None
             | Some (h2, ethId2, pBusyList2, pNewList2) \<Rightarrow>
                 if tl0 = 0 then None
                 else
                   let h3 = h2(hd0 := (h2 hd0)\<lparr>next := next (h2 tl0)\<rparr>);
                       h4 = h3(hd0 := (h3 hd0)\<lparr>next_ed := next_ed (h3 tl0)\<rparr>);
                       h5 = h4(tl0 := h4 hd0);
                       h6 = h5(hd0 := (h5 hd0)\<lparr>hdr := hdr_w_0\<rparr>);
                       h7 = h6(hd0 := (h6 hd0)\<lparr>pEDBuff := 0\<rparr>)
                   in
                   (case DRV_ETHMAC_LIB_ListAddTail pf h7 pBusyList2 hd0 of
                      None \<Rightarrow> None
                    | Some (h8, pBusyList3) \<Rightarrow> Some (h8, ethId2, pBusyList3, pNewList2, tl0))))"

text \<open>Lines 111--115: the old tail goes to the hardware, and is acknowledged.\<close>

definition EthAppendBusyList ::
  "platform \<Rightarrow> heap \<Rightarrow> DRV_ETHERNET_REGISTERS \<Rightarrow> DRV_ETHMAC_DCPT_LIST \<Rightarrow> DRV_ETHMAC_DCPT_LIST
     \<Rightarrow> bool
     \<Rightarrow> (heap \<times> DRV_ETHERNET_REGISTERS \<times> DRV_ETHMAC_DCPT_LIST \<times> DRV_ETHMAC_DCPT_LIST) option" where
  "EthAppendBusyList pf h ethId pBusyList pNewList rxAck =
     (case EthAppendBusyList_link pf h ethId pBusyList pNewList rxAck of
        None \<Rightarrow> None
      | Some (h8, ethId2, pBusyList3, pNewList2, tl0) \<Rightarrow>
          let h9 = h8(tl0 := (h8 tl0)\<lparr>hdr := (hdr (h8 tl0))\<lparr>EOWN := True\<rparr>\<rparr>) in
          Some (h9,
                if rxAck \<and> \<not> rx_nack (hdr (h9 tl0))
                then DRV_ETH_RxBufferCountDecrement ethId2 else ethId2,
                pBusyList3, pNewList2))"

section \<open>The descriptor pool\<close>

text \<open>
  The injected allocator \<open>fAlloc\<close> is a function of its context \<open>fParam\<close>: a call
  returns the pointer (0 when the allocation fails) and the context after the call.
  A null function pointer is \<open>None\<close>. The C \<open>int\<close>s are 32-bit words; the loop
  \<open>while(nDescriptors--)\<close> stops when the word is zero.
\<close>

function DescriptorsPoolAdd_loop ::
  "platform \<Rightarrow> ('a \<Rightarrow> addr \<times> 'a) \<Rightarrow> heap \<Rightarrow> DRV_ETHMAC_DCPT_LIST \<Rightarrow> 'a \<Rightarrow> 32 word \<Rightarrow> 32 word
     \<Rightarrow> (heap \<times> DRV_ETHMAC_DCPT_LIST \<times> 'a \<times> 32 word) option" where
  "DescriptorsPoolAdd_loop pf fAlloc h pFList fParam nCreated nDescriptors =
     (if nDescriptors = 0 then Some (h, pFList, fParam, nCreated)
      else
        (case fAlloc fParam of
           (pDcpt, fParam') \<Rightarrow>
             if pDcpt = 0 then Some (h, pFList, fParam', nCreated)
             else
               (case DRV_ETHMAC_LIB_ListAddTail pf h pFList pDcpt of
                  None \<Rightarrow> None
                | Some (h', pFList') \<Rightarrow>
                    DescriptorsPoolAdd_loop pf fAlloc h' pFList' fParam' (nCreated + 1)
                      (nDescriptors - 1))))"
  by pat_completeness auto
termination
  by (relation "measure (\<lambda>(pf, fAlloc, h, pFList, fParam, nCreated, nDescriptors). unat nDescriptors)")
     (auto simp: unat_minus_one unat_gt_0 intro: diff_less)

text \<open>Lines 294--317, on the free and busy lists that the direction selects.\<close>

definition DescriptorsPoolAdd_lists ::
  "platform \<Rightarrow> ('a \<Rightarrow> addr \<times> 'a) \<Rightarrow> heap \<Rightarrow> DRV_ETHMAC_DCPT_LIST \<Rightarrow> DRV_ETHMAC_DCPT_LIST \<Rightarrow> 'a
     \<Rightarrow> 32 word
     \<Rightarrow> (heap \<times> DRV_ETHMAC_DCPT_LIST \<times> DRV_ETHMAC_DCPT_LIST \<times> 'a \<times> 32 word) option" where
  "DescriptorsPoolAdd_lists pf fAlloc h pFList pBList fParam nDescriptors =
     (if DRV_ETHMAC_LIB_ListIsEmpty pBList then
        (case fAlloc fParam of
           (pDcpt, fParam') \<Rightarrow>
             if pDcpt = 0 then Some (h, pFList, pBList, fParam', 0)
             else
               (case DRV_ETHMAC_LIB_ListAddHead pf h pBList pDcpt of
                  None \<Rightarrow> None
                | Some (h', pBList') \<Rightarrow>
                    (case DescriptorsPoolAdd_loop pf fAlloc h' pFList fParam' 0 nDescriptors of
                       None \<Rightarrow> None
                     | Some (h'', pFList', fParam'', nCreated) \<Rightarrow>
                         Some (h'', pFList', pBList', fParam'', nCreated))))
      else
        (case DescriptorsPoolAdd_loop pf fAlloc h pFList fParam 0 nDescriptors of
           None \<Rightarrow> None
         | Some (h'', pFList', fParam'', nCreated) \<Rightarrow>
             Some (h'', pFList', pBList, fParam'', nCreated)))"

definition DRV_ETHMAC_LibDescriptorsPoolAdd ::
  "platform \<Rightarrow> DRV_ETHMAC_INSTANCE_DCPT \<Rightarrow> 32 word \<Rightarrow> DRV_ETHMAC_DCPT_TYPE
     \<Rightarrow> ('a \<Rightarrow> addr \<times> 'a) option \<Rightarrow> 'a
     \<Rightarrow> (DRV_ETHMAC_INSTANCE_DCPT \<times> 'a \<times> 32 word) option" where
  "DRV_ETHMAC_LibDescriptorsPoolAdd pf pMacD nDescriptors dType fAlloc fParam =
     (case fAlloc of
        None \<Rightarrow> Some (pMacD, fParam, 0)
      | Some alloc \<Rightarrow>
          if dType = DRV_ETHMAC_DCPT_TYPE_TX then
            (case DescriptorsPoolAdd_lists pf alloc (mem pMacD) (EnetTxFreePtr pMacD)
                    (EnetTxBusyPtr pMacD) fParam nDescriptors of
               None \<Rightarrow> None
             | Some (h, pFList, pBList, fParam', nCreated) \<Rightarrow>
                 Some (pMacD\<lparr>mem := h, EnetTxFreePtr := pFList, EnetTxBusyPtr := pBList\<rparr>,
                       fParam', nCreated))
          else if dType = DRV_ETHMAC_DCPT_TYPE_RX then
            (case DescriptorsPoolAdd_lists pf alloc (mem pMacD) (EnetRxFreePtr pMacD)
                    (EnetRxBusyPtr pMacD) fParam nDescriptors of
               None \<Rightarrow> None
             | Some (h, pFList, pBList, fParam', nCreated) \<Rightarrow>
                 Some (pMacD\<lparr>mem := h, EnetRxFreePtr := pFList, EnetRxBusyPtr := pBList\<rparr>,
                       fParam', nCreated))
          else Some (pMacD, fParam, 0))"

text \<open>
  The injected \<open>fFree\<close> acts on its context only; the memory of a freed node is
  left as it is.
\<close>

function DescriptorsPoolRemove_loop ::
  "heap \<Rightarrow> (addr \<Rightarrow> 'a \<Rightarrow> 'a) option \<Rightarrow> DRV_ETHMAC_DCPT_LIST \<Rightarrow> 'a \<Rightarrow> 32 word \<Rightarrow> 32 word
     \<Rightarrow> DRV_ETHMAC_DCPT_LIST \<times> 'a \<times> 32 word" where
  "DescriptorsPoolRemove_loop h fFree pList fParam removed nDescriptors =
     (if nDescriptors = 0 then (pList, fParam, removed)
      else
        (case DRV_ETHMAC_LIB_ListRemoveHead h pList of
           (pN, pList') \<Rightarrow>
             if pN = 0 then (pList', fParam, removed)
             else
               DescriptorsPoolRemove_loop h fFree pList'
                 (case fFree of None \<Rightarrow> fParam | Some free \<Rightarrow> free pN fParam)
                 (removed + 1) (nDescriptors - 1)))"
  by pat_completeness auto
termination
  by (relation "measure (\<lambda>(h, fFree, pList, fParam, removed, nDescriptors). unat nDescriptors)")
     (auto simp: unat_minus_one unat_gt_0 intro: diff_less)

definition DRV_ETHMAC_LibDescriptorsPoolRemove ::
  "DRV_ETHMAC_INSTANCE_DCPT \<Rightarrow> 32 word \<Rightarrow> DRV_ETHMAC_DCPT_TYPE \<Rightarrow> (addr \<Rightarrow> 'a \<Rightarrow> 'a) option \<Rightarrow> 'a
     \<Rightarrow> DRV_ETHMAC_INSTANCE_DCPT \<times> 'a \<times> 32 word" where
  "DRV_ETHMAC_LibDescriptorsPoolRemove pMacD nDescriptors dType fFree fParam =
     (if dType = DRV_ETHMAC_DCPT_TYPE_TX then
        (case DescriptorsPoolRemove_loop (mem pMacD) fFree (EnetTxFreePtr pMacD) fParam 0 nDescriptors of
           (pList, fParam', removed) \<Rightarrow> (pMacD\<lparr>EnetTxFreePtr := pList\<rparr>, fParam', removed))
      else if dType = DRV_ETHMAC_DCPT_TYPE_RX then
        (case DescriptorsPoolRemove_loop (mem pMacD) fFree (EnetRxFreePtr pMacD) fParam 0 nDescriptors of
           (pList, fParam', removed) \<Rightarrow> (pMacD\<lparr>EnetRxFreePtr := pList\<rparr>, fParam', removed))
      else (pMacD, fParam, 0))"


section \<open>Receive buffers: \<open>DRV_ETHMAC_LibRxBuffersAppend\<close>\<close>

text \<open>
  Lines 492--504: the buffer address and the header of the descriptor \<open>pEDcpt\<close> that
  takes the buffer \<open>pBuf\<close>.
\<close>

definition RxBuffersAppend_prepare ::
  "platform \<Rightarrow> DRV_ETHMAC_BUFF_FLAGS set \<Rightarrow> heap \<Rightarrow> addr \<Rightarrow> addr \<Rightarrow> heap" where
  "RxBuffersAppend_prepare pf rxFlags h pEDcpt pBuf =
     (let h1 = h(pEDcpt := (h pEDcpt)\<lparr>pEDBuff := KVA_TO_PA pf pBuf\<rparr>);
          h2 = h1(pEDcpt := (h1 pEDcpt)\<lparr>hdr := hdr_w_NPV_EOWN 0\<rparr>);
          h3 = (if DRV_ETHMAC_BUFF_FLAG_RX_STICKY \<in> rxFlags
                then h2(pEDcpt := (h2 pEDcpt)\<lparr>hdr := (hdr (h2 pEDcpt))\<lparr>sticky := True\<rparr>\<rparr>)
                else h2)
      in
      if DRV_ETHMAC_BUFF_FLAG_RX_UNACK \<in> rxFlags
      then h3(pEDcpt := (h3 pEDcpt)\<lparr>hdr := (hdr (h3 pEDcpt))\<lparr>rx_nack := True\<rparr>\<rparr>)
      else h3)"

text \<open>
  The loop of lines 482--517. The array \<open>ppBuff\<close> is a list of pointers; reading past
  its end yields the null pointer, which is how the caller ends the array. The result
  carries \<open>res\<close>, the instance, the new list, and the values of \<open>pBuff\<close> and \<open>nBuffs\<close>
  at the exit of the loop.
\<close>

fun RxBuffersAppend_loop ::
  "platform \<Rightarrow> DRV_ETHMAC_BUFF_FLAGS set \<Rightarrow> DRV_ETHMAC_INSTANCE_DCPT \<Rightarrow> DRV_ETHMAC_DCPT_LIST
     \<Rightarrow> addr list \<Rightarrow> 32 word
     \<Rightarrow> (DRV_ETHMAC_RESULT \<times> DRV_ETHMAC_INSTANCE_DCPT \<times> DRV_ETHMAC_DCPT_LIST \<times> addr \<times> 32 word) option" where
  "RxBuffersAppend_loop pf rxFlags pMacD pNewList [] nBuffs =
     Some (DRV_ETHMAC_RES_OK, pMacD, pNewList, 0, nBuffs)"
| "RxBuffersAppend_loop pf rxFlags pMacD pNewList (pBuf # ppBuff) nBuffs =
     (if pBuf \<noteq> 0 \<and> nBuffs \<noteq> 0 then
        (case DRV_ETHMAC_LIB_ListRemoveHead (mem pMacD) (EnetRxFreePtr pMacD) of
           (pEDcpt, pFree) \<Rightarrow>
             if pEDcpt = 0 then
               Some (DRV_ETHMAC_RES_NO_DESCRIPTORS, pMacD\<lparr>EnetRxFreePtr := pFree\<rparr>, pNewList,
                     pBuf, nBuffs)
             else
               let h4 = RxBuffersAppend_prepare pf rxFlags (mem pMacD) pEDcpt pBuf in
               if IS_KVA0 pf pBuf then
                 (let h5 = h4(pEDcpt := (h4 pEDcpt)\<lparr>hdr := (hdr (h4 pEDcpt))\<lparr>kv0 := True\<rparr>\<rparr>) in
                  case DRV_ETHMAC_LIB_ListAddTail pf h5 pNewList pEDcpt of
                    None \<Rightarrow> None
                  | Some (h6, pNewList') \<Rightarrow>
                      RxBuffersAppend_loop pf rxFlags (pMacD\<lparr>mem := h6, EnetRxFreePtr := pFree\<rparr>)
                        pNewList' ppBuff (nBuffs - 1))
               else if \<not> IS_KVA pf pBuf then
                 Some (DRV_ETHMAC_RES_USPACE_ERR, pMacD\<lparr>mem := h4, EnetRxFreePtr := pFree\<rparr>,
                       pNewList, pBuf, nBuffs)
               else
                 (case DRV_ETHMAC_LIB_ListAddTail pf h4 pNewList pEDcpt of
                    None \<Rightarrow> None
                  | Some (h6, pNewList') \<Rightarrow>
                      RxBuffersAppend_loop pf rxFlags (pMacD\<lparr>mem := h6, EnetRxFreePtr := pFree\<rparr>)
                        pNewList' ppBuff (nBuffs - 1)))
      else Some (DRV_ETHMAC_RES_OK, pMacD, pNewList, pBuf, nBuffs))"

definition DRV_ETHMAC_LibRxBuffersAppend ::
  "platform \<Rightarrow> DRV_ETHMAC_INSTANCE_DCPT \<Rightarrow> addr list \<Rightarrow> 32 word \<Rightarrow> DRV_ETHMAC_BUFF_FLAGS set
     \<Rightarrow> (DRV_ETHMAC_INSTANCE_DCPT \<times> DRV_ETHMAC_RESULT) option" where
  "DRV_ETHMAC_LibRxBuffersAppend pf pMacD ppBuff nBuffs0 rxFlags =
     (let nBuffs = (if nBuffs0 = 0 then 0x7fffffff else nBuffs0) in
      case RxBuffersAppend_loop pf rxFlags pMacD DRV_ETHMAC_LIB_ListInit ppBuff nBuffs of
        None \<Rightarrow> None
      | Some (res, pMacD1, pNewList, pBuf, nBuffs') \<Rightarrow>
          if pBuf \<noteq> 0 \<and> nBuffs' \<noteq> 0 then
            (case DRV_ETHMAC_LIB_ListAppendTail pf (mem pMacD1) (EnetRxFreePtr pMacD1) pNewList of
               None \<Rightarrow> None
             | Some (h, pFree, pNewList') \<Rightarrow>
                 Some (pMacD1\<lparr>mem := h, EnetRxFreePtr := pFree\<rparr>, res))
          else if \<not> DRV_ETHMAC_LIB_ListIsEmpty pNewList then
            (case EthAppendBusyList pf (mem pMacD1) (pEthReg pMacD1) (EnetRxBusyPtr pMacD1)
                    pNewList True of
               None \<Rightarrow> None
             | Some (h, ethId, pBusy, pNewList') \<Rightarrow>
                 let ethId1 =
                       (if DRV_ETH_RxPacketDescAddrGet ethId = 0
                        then DRV_ETH_RxPacketDescAddrSet ethId
                               (KVA_TO_PA pf (head pBusy + hwDcpt_off pf))
                        else ethId)
                 in Some (pMacD1\<lparr>mem := h, EnetRxBusyPtr := pBusy,
                            pEthReg := DRV_ETH_RxEnable ethId1\<rparr>,
                          DRV_ETHMAC_RES_OK))
          else Some (pMacD1, DRV_ETHMAC_RES_OK))"

section \<open>Transmit: \<open>DRV_ETHMAC_LibTxSendBuffer\<close>, \<open>DRV_ETHMAC_LibTxSendPacket\<close>\<close>

definition EthTxSchedBuffer ::
  "platform \<Rightarrow> DRV_ETHMAC_INSTANCE_DCPT \<Rightarrow> addr \<Rightarrow> 16 word \<Rightarrow> DRV_ETHMAC_DCPT_LIST
     \<Rightarrow> (DRV_ETHMAC_INSTANCE_DCPT \<times> DRV_ETHMAC_DCPT_LIST \<times> DRV_ETHMAC_RESULT) option" where
  "EthTxSchedBuffer pf pMacD pBuf nByt pList =
     (if \<not> IS_KVA pf pBuf then Some (pMacD, pList, DRV_ETHMAC_RES_USPACE_ERR)
      else
        (case DRV_ETHMAC_LIB_ListRemoveHead (mem pMacD) (EnetTxFreePtr pMacD) of
           (pEDcpt, pFree) \<Rightarrow>
             if pEDcpt \<noteq> 0 then
               (let h = mem pMacD;
                    h1 = h(pEDcpt := (h pEDcpt)\<lparr>pEDBuff := KVA_TO_PA pf pBuf\<rparr>);
                    h2 = h1(pEDcpt := (h1 pEDcpt)\<lparr>hdr := hdr_w_NPV_EOWN nByt\<rparr>);
                    h3 = (if IS_KVA0 pf pBuf
                          then h2(pEDcpt := (h2 pEDcpt)\<lparr>hdr := (hdr (h2 pEDcpt))\<lparr>kv0 := True\<rparr>\<rparr>)
                          else h2)
                in
                case DRV_ETHMAC_LIB_ListAddTail pf h3 pList pEDcpt of
                  None \<Rightarrow> None
                | Some (h4, pList') \<Rightarrow>
                    Some (pMacD\<lparr>mem := h4, EnetTxFreePtr := pFree\<rparr>, pList', DRV_ETHMAC_RES_OK))
             else
               Some (pMacD\<lparr>EnetTxFreePtr := pFree\<rparr>, pList, DRV_ETHMAC_RES_NO_DESCRIPTORS)))"

definition EthTxSchedList ::
  "platform \<Rightarrow> DRV_ETHMAC_INSTANCE_DCPT \<Rightarrow> DRV_ETHMAC_DCPT_LIST \<Rightarrow> DRV_ETHMAC_INSTANCE_DCPT option" where
  "EthTxSchedList pf pMacD pList =
     (if \<not> DRV_ETHMAC_LIB_ListIsEmpty pList then
        (if tail pList = 0 then None
         else
           let h = mem pMacD;
               h1 = h(head pList := (h (head pList))\<lparr>hdr := (hdr (h (head pList)))\<lparr>SOP := True\<rparr>\<rparr>);
               h2 = h1(tail pList := (h1 (tail pList))\<lparr>hdr := (hdr (h1 (tail pList)))\<lparr>EOP := True\<rparr>\<rparr>)
           in
           case EthAppendBusyList pf h2 (pEthReg pMacD) (EnetTxBusyPtr pMacD) pList False of
             None \<Rightarrow> None
           | Some (h3, ethId, pBusy, pList') \<Rightarrow>
               let ethId1 =
                     (if DRV_ETH_TxPacketDescAddrGet ethId = 0
                      then DRV_ETH_TxPacketDescAddrSet ethId
                             (KVA_TO_PA pf (head pBusy + hwDcpt_off pf))
                      else ethId)
               in Some (pMacD\<lparr>mem := h3, EnetTxBusyPtr := pBusy,
                          pEthReg := DRV_ETH_TxRTSEnable ethId1\<rparr>))
      else Some pMacD)"

text \<open>Lines 684--693, shared by the two send functions.\<close>

definition TxSend_finish ::
  "platform \<Rightarrow> DRV_ETHMAC_INSTANCE_DCPT \<Rightarrow> DRV_ETHMAC_DCPT_LIST \<Rightarrow> DRV_ETHMAC_RESULT
     \<Rightarrow> (DRV_ETHMAC_INSTANCE_DCPT \<times> DRV_ETHMAC_RESULT) option" where
  "TxSend_finish pf pMacD pNewList res =
     (if res = DRV_ETHMAC_RES_OK then
        (case EthTxSchedList pf pMacD pNewList of
           None \<Rightarrow> None
         | Some pMacD' \<Rightarrow> Some (pMacD', res))
      else if \<not> DRV_ETHMAC_LIB_ListIsEmpty pNewList then
        (case DRV_ETHMAC_LIB_ListAppendTail pf (mem pMacD) (EnetTxFreePtr pMacD) pNewList of
           None \<Rightarrow> None
         | Some (h, pFree, pNewList') \<Rightarrow> Some (pMacD\<lparr>mem := h, EnetTxFreePtr := pFree\<rparr>, res))
      else Some (pMacD, res))"

definition DRV_ETHMAC_LibTxSendBuffer ::
  "platform \<Rightarrow> DRV_ETHMAC_INSTANCE_DCPT \<Rightarrow> addr \<Rightarrow> 16 word
     \<Rightarrow> (DRV_ETHMAC_INSTANCE_DCPT \<times> DRV_ETHMAC_RESULT) option" where
  "DRV_ETHMAC_LibTxSendBuffer pf pMacD pBuf nByt =
     (case EthTxSchedBuffer pf pMacD pBuf nByt DRV_ETHMAC_LIB_ListInit of
        None \<Rightarrow> None
      | Some (pMacD1, pNewList, res) \<Rightarrow> TxSend_finish pf pMacD1 pNewList res)"

text \<open>The loop of lines 676--681 over the caller's packet chain.\<close>

fun TxSendPacket_loop ::
  "platform \<Rightarrow> DRV_ETHMAC_INSTANCE_DCPT \<Rightarrow> DRV_ETHMAC_DCPT_LIST \<Rightarrow> DRV_ETHMAC_RESULT
     \<Rightarrow> DRV_ETHMAC_PKT_DCPT list
     \<Rightarrow> (DRV_ETHMAC_INSTANCE_DCPT \<times> DRV_ETHMAC_DCPT_LIST \<times> DRV_ETHMAC_RESULT) option" where
  "TxSendPacket_loop pf pMacD pNewList res [] = Some (pMacD, pNewList, res)"
| "TxSendPacket_loop pf pMacD pNewList res (pPkt # rest) =
     (if pBuff pPkt \<noteq> 0 \<and> nBytes pPkt \<noteq> 0 \<and> res = DRV_ETHMAC_RES_OK then
        (case EthTxSchedBuffer pf pMacD (pBuff pPkt) (nBytes pPkt) pNewList of
           None \<Rightarrow> None
         | Some (pMacD', pNewList', res') \<Rightarrow> TxSendPacket_loop pf pMacD' pNewList' res' rest)
      else Some (pMacD, pNewList, res))"

definition DRV_ETHMAC_LibTxSendPacket ::
  "platform \<Rightarrow> DRV_ETHMAC_INSTANCE_DCPT \<Rightarrow> DRV_ETHMAC_PKT_DCPT list
     \<Rightarrow> (DRV_ETHMAC_INSTANCE_DCPT \<times> DRV_ETHMAC_RESULT) option" where
  "DRV_ETHMAC_LibTxSendPacket pf pMacD pPkt =
     (case TxSendPacket_loop pf pMacD DRV_ETHMAC_LIB_ListInit DRV_ETHMAC_RES_OK pPkt of
        None \<Rightarrow> None
      | Some (pMacD1, pNewList, res) \<Rightarrow> TxSend_finish pf pMacD1 pNewList res)"


section \<open>Transmit status: \<open>DRV_ETHMAC_LibTxGetBufferStatus\<close>\<close>

text \<open>The loop of \<open>_EnetFindPacket\<close>, lines 759--768, from the node \<open>pEDcpt\<close> on.\<close>

partial_function (option) EnetFindPacket_loop :: "heap \<Rightarrow> addr \<Rightarrow> addr \<Rightarrow> addr option" where
  "EnetFindPacket_loop h pPhysPkt pEDcpt =
     (if pEDcpt = 0 then Some pEDcpt
      else if SOP (hdr (h pEDcpt)) \<and> pPhysPkt = pEDBuff (h pEDcpt) then Some pEDcpt
      else EnetFindPacket_loop h pPhysPkt (next (h pEDcpt)))"

definition EnetFindPacket :: "platform \<Rightarrow> heap \<Rightarrow> addr \<Rightarrow> DRV_ETHMAC_DCPT_LIST \<Rightarrow> addr option" where
  "EnetFindPacket pf h pBuf pList = EnetFindPacket_loop h (KVA_TO_PA pf pBuf) (head pList)"

text \<open>
  \<open>pTxStat\<close> says whether the caller passed a non-null \<open>pTxStat\<close>. The second component
  of the result is what the call stored in \<open>*pTxStat\<close>: \<open>None\<close> when nothing was stored,
  \<open>Some 0\<close> for the null pointer, \<open>Some p\<close> for the status block of the node \<open>p\<close>.
\<close>

definition DRV_ETHMAC_LibTxGetBufferStatus ::
  "platform \<Rightarrow> DRV_ETHMAC_INSTANCE_DCPT \<Rightarrow> addr \<Rightarrow> bool
     \<Rightarrow> (DRV_ETHMAC_INSTANCE_DCPT \<times> addr option \<times> DRV_ETHMAC_RESULT) option" where
  "DRV_ETHMAC_LibTxGetBufferStatus pf pMacD pBuf pTxStat =
     (let out0 = (if pTxStat then Some 0 else None) in
      case EnetFindPacket pf (mem pMacD) pBuf (EnetTxBusyPtr pMacD) of
        None \<Rightarrow> None
      | Some pHead \<Rightarrow>
          if pHead \<noteq> 0 then
            (if EOWN (hdr (mem pMacD pHead)) then Some (pMacD, out0, DRV_ETHMAC_RES_PACKET_QUEUED)
             else Some (pMacD, if pTxStat then Some pHead else out0, DRV_ETHMAC_RES_OK))
          else Some (pMacD, out0, DRV_ETHMAC_RES_NO_PACKET))"

section \<open>Receive acknowledgment: \<open>DRV_ETHMAC_LibRxAcknowledgeBuffer\<close>\<close>

text \<open>
  The do-while loop of \<open>_EthGetAckedPacket\<close>, lines 825--831, entered with \<open>next\<close>
  equal to \<open>nxt\<close>. It does not return when it meets a hardware-owned node (the empty
  loop of line 829) or runs off the end of the list. The result carries the value of
  \<open>next\<close> at the exit.
\<close>

partial_function (option) EthGetAckedPacket_pkt ::
  "platform \<Rightarrow> heap \<Rightarrow> DRV_ETHMAC_DCPT_LIST \<Rightarrow> addr \<Rightarrow> (heap \<times> DRV_ETHMAC_DCPT_LIST \<times> addr) option" where
  "EthGetAckedPacket_pkt pf h pAddList nxt =
     (let pEDcpt = nxt in
      if pEDcpt = 0 then None
      else
        let nxt' = next (h pEDcpt) in
        if EOWN (hdr (h pEDcpt)) then None
        else
          (case DRV_ETHMAC_LIB_ListAddTail pf h pAddList pEDcpt of
             None \<Rightarrow> None
           | Some (h', pAddList') \<Rightarrow>
               if \<not> EOP (hdr (h' pEDcpt)) then EthGetAckedPacket_pkt pf h' pAddList' nxt'
               else Some (h', pAddList', nxt')))"

text \<open>
  The for loop of lines 813--855, from the node \<open>pEDcpt\<close> on. \<open>nAcks\<close> counts the
  detached packets.
\<close>

partial_function (option) EthGetAckedPacket_loop ::
  "platform \<Rightarrow> addr \<Rightarrow> heap \<Rightarrow> DRV_ETHMAC_DCPT_LIST \<Rightarrow> DRV_ETHMAC_DCPT_LIST \<Rightarrow> addr \<Rightarrow> nat \<Rightarrow> bool
     \<Rightarrow> addr
     \<Rightarrow> (heap \<times> DRV_ETHMAC_DCPT_LIST \<times> DRV_ETHMAC_DCPT_LIST \<times> nat \<times> bool) option" where
  "EthGetAckedPacket_loop pf pPkt h pRemList pAddList prev nAcks pktFound pEDcpt =
     (if pEDcpt = 0 then Some (h, pRemList, pAddList, nAcks, pktFound)
      else if SOP (hdr (h pEDcpt)) \<and> (pPkt = 0 \<or> pEDBuff (h pEDcpt) = KVA_TO_PA pf pPkt) then
        (if EOWN (hdr (h pEDcpt)) then Some (h, pRemList, pAddList, nAcks, True)
         else
           (case EthGetAckedPacket_pkt pf h pAddList pEDcpt of
              None \<Rightarrow> None
            | Some (h1, pAddList1, nxt) \<Rightarrow>
                if prev \<noteq> 0 then
                  (let h2 = h1(prev := (h1 prev)\<lparr>next := nxt\<rparr>) in
                   if pPkt \<noteq> 0 then Some (h2, pRemList, pAddList1, nAcks + 1, True)
                   else EthGetAckedPacket_loop pf pPkt h2 pRemList pAddList1 prev (nAcks + 1)
                          True nxt)
                else
                  (let pRemList2 = pRemList\<lparr>head := nxt\<rparr> in
                   if pPkt \<noteq> 0 then Some (h1, pRemList2, pAddList1, nAcks + 1, True)
                   else EthGetAckedPacket_loop pf pPkt h1 pRemList2 pAddList1 prev (nAcks + 1)
                          True nxt)))
      else EthGetAckedPacket_loop pf pPkt h pRemList pAddList pEDcpt nAcks pktFound
             (next (h pEDcpt)))"

definition EthGetAckedPacket ::
  "platform \<Rightarrow> addr \<Rightarrow> heap \<Rightarrow> DRV_ETHMAC_DCPT_LIST \<Rightarrow> DRV_ETHMAC_DCPT_LIST
     \<Rightarrow> (heap \<times> DRV_ETHMAC_DCPT_LIST \<times> DRV_ETHMAC_DCPT_LIST \<times> DRV_ETHMAC_RESULT) option" where
  "EthGetAckedPacket pf pPkt h pRemList pAddList =
     (case EthGetAckedPacket_loop pf pPkt h pRemList pAddList 0 0 False (head pRemList) of
        None \<Rightarrow> None
      | Some (h', pRemList', pAddList', nAcks, pktFound) \<Rightarrow>
          Some (h', pRemList', pAddList',
                if nAcks \<noteq> 0 then DRV_ETHMAC_RES_OK
                else if pktFound then DRV_ETHMAC_RES_PACKET_QUEUED
                else DRV_ETHMAC_RES_NO_PACKET))"

text \<open>The loop of \<open>_EthRxAckBuffer\<close>, lines 901--919.\<close>

partial_function (option) EthRxAckBuffer_loop ::
  "platform \<Rightarrow> heap \<Rightarrow> DRV_ETHERNET_REGISTERS \<Rightarrow> DRV_ETHMAC_DCPT_LIST \<Rightarrow> DRV_ETHMAC_DCPT_LIST
     \<Rightarrow> DRV_ETHMAC_DCPT_LIST
     \<Rightarrow> (heap \<times> DRV_ETHERNET_REGISTERS \<times> DRV_ETHMAC_DCPT_LIST \<times> DRV_ETHMAC_DCPT_LIST) option" where
  "EthRxAckBuffer_loop pf h ethId pRxFree pAckList pStickyList =
     (case DRV_ETHMAC_LIB_ListRemoveHead h pAckList of
        (pEDcpt, pAckList') \<Rightarrow>
          if pEDcpt = 0 then Some (h, ethId, pRxFree, pStickyList)
          else if sticky (hdr (h pEDcpt)) then
            (let h1 = h(pEDcpt := (h pEDcpt)\<lparr>hdr := (hdr (h pEDcpt))\<lparr>SOP := False, EOP := False,
                          rx_wack := False\<rparr>\<rparr>);
                 h2 = h1(pEDcpt := (h1 pEDcpt)\<lparr>hdr := (hdr (h1 pEDcpt))\<lparr>EOWN := True\<rparr>\<rparr>)
             in
             case DRV_ETHMAC_LIB_ListAddTail pf h2 pStickyList pEDcpt of
               None \<Rightarrow> None
             | Some (h3, pStickyList') \<Rightarrow>
                 EthRxAckBuffer_loop pf h3 ethId pRxFree pAckList' pStickyList')
          else
            (case DRV_ETHMAC_LIB_ListAddTail pf h pRxFree pEDcpt of
               None \<Rightarrow> None
             | Some (h1, pRxFree') \<Rightarrow>
                 let h2 = h1(pEDcpt := (h1 pEDcpt)\<lparr>pEDBuff := 0\<rparr>) in
                 EthRxAckBuffer_loop pf h2
                   (if \<not> rx_nack (hdr (h2 pEDcpt))
                    then DRV_ETH_RxBufferCountDecrement ethId else ethId)
                   pRxFree' pAckList' pStickyList))"

definition EthRxAckBuffer ::
  "platform \<Rightarrow> DRV_ETHMAC_INSTANCE_DCPT \<Rightarrow> addr
     \<Rightarrow> (DRV_ETHMAC_INSTANCE_DCPT \<times> DRV_ETHMAC_RESULT) option" where
  "EthRxAckBuffer pf pMacD pBuf =
     (case EthGetAckedPacket pf pBuf (mem pMacD) (EnetRxBusyPtr pMacD) DRV_ETHMAC_LIB_ListInit of
        None \<Rightarrow> None
      | Some (h, pRxBusy, pAckList, res) \<Rightarrow>
          (case EthRxAckBuffer_loop pf h (pEthReg pMacD) (EnetRxFreePtr pMacD) pAckList
                  DRV_ETHMAC_LIB_ListInit of
             None \<Rightarrow> None
           | Some (h1, ethId, pRxFree, pStickyList) \<Rightarrow>
               if \<not> DRV_ETHMAC_LIB_ListIsEmpty pStickyList then
                 (case EthAppendBusyList pf h1 ethId pRxBusy pStickyList True of
                    None \<Rightarrow> None
                  | Some (h2, ethId2, pRxBusy2, pStickyList2) \<Rightarrow>
                      Some (pMacD\<lparr>mem := h2, EnetRxFreePtr := pRxFree, EnetRxBusyPtr := pRxBusy2,
                              pEthReg := ethId2\<rparr>, res))
               else
                 Some (pMacD\<lparr>mem := h1, EnetRxFreePtr := pRxFree, EnetRxBusyPtr := pRxBusy,
                         pEthReg := ethId\<rparr>, res)))"

definition DRV_ETHMAC_LibRxAcknowledgeBuffer ::
  "platform \<Rightarrow> DRV_ETHMAC_INSTANCE_DCPT \<Rightarrow> addr
     \<Rightarrow> (DRV_ETHMAC_INSTANCE_DCPT \<times> DRV_ETHMAC_RESULT) option" where
  "DRV_ETHMAC_LibRxAcknowledgeBuffer pf pMacD pBuf = EthRxAckBuffer pf pMacD pBuf"


section \<open>Receive: \<open>DRV_ETHMAC_LibRxGetPacket\<close>\<close>

text \<open>
  The while loop of lines 1049--1088. The caller's chain is split at \<open>pBuffDcpt\<close>:
  \<open>done\<close> holds the descriptors before it, \<open>rest\<close> the ones from it on, and
  \<open>pBuffDcpt\<close> is null when \<open>rest\<close> is empty. \<open>hasPkt\<close> says that \<open>pPkt\<close> is not null
  and \<open>pnBuffs\<close> that the caller passed a non-null \<open>pnBuffs\<close>. The result carries the
  memory, the caller's chain, the value stored in \<open>*pnBuffs\<close> (\<open>None\<close> when nothing was
  stored) and \<open>res\<close>. The loop does not return when it meets a hardware-owned node
  (line 1060) or runs off the end of the list.
\<close>

partial_function (option) RxGetPacket_pkt ::
  "platform \<Rightarrow> heap \<Rightarrow> addr \<Rightarrow> bool \<Rightarrow> DRV_ETHMAC_PKT_DCPT list \<Rightarrow> DRV_ETHMAC_PKT_DCPT list \<Rightarrow> bool
     \<Rightarrow> nat \<Rightarrow> nat \<Rightarrow> addr
     \<Rightarrow> (heap \<times> DRV_ETHMAC_PKT_DCPT list \<times> nat option \<times> DRV_ETHMAC_RESULT) option" where
  "RxGetPacket_pkt pf h pHead hasPkt done rest pnBuffs nBuffs reportBuffs pEDcpt =
     (if rest \<noteq> [] \<or> pnBuffs then
        (if pEDcpt = 0 then None
         else
           (case (case rest of
                    [] \<Rightarrow> (done, [], reportBuffs)
                  | d # ds \<Rightarrow>
                      (done @ [d\<lparr>pBuff := (if kv0 (hdr (h pEDcpt))
                                          then PA_TO_KVA0 pf (pEDBuff (h pEDcpt))
                                          else PA_TO_KVA1 pf (pEDBuff (h pEDcpt))),
                                 nBytes := bCount (hdr (h pEDcpt))\<rparr>],
                       ds, reportBuffs + 1)) of
              (done1, rest1, reportBuffs1) \<Rightarrow>
                if EOWN (hdr (h pEDcpt)) then None
                else if EOP (hdr (h pEDcpt)) then
                  Some (if hasPkt \<and> reportBuffs1 = nBuffs + 1
                        then h(pHead := (h pHead)\<lparr>hdr := (hdr (h pHead))\<lparr>rx_wack := True\<rparr>\<rparr>)
                        else h,
                        done1 @ (case rest1 of [] \<Rightarrow> [] | d # ds \<Rightarrow> d\<lparr>pBuff := 0, nBytes := 0\<rparr> # ds),
                        if pnBuffs then Some (nBuffs + 1) else None,
                        if hasPkt \<and> reportBuffs1 \<noteq> nBuffs + 1
                        then DRV_ETHMAC_RES_RX_PKT_SPLIT_ERR else DRV_ETHMAC_RES_OK)
                else
                  RxGetPacket_pkt pf h pHead hasPkt done1 rest1 pnBuffs (nBuffs + 1) reportBuffs1
                    (next (h pEDcpt))))
      else Some (h, done @ rest, None, DRV_ETHMAC_RES_OK))"

text \<open>
  The for loop of lines 1027--1092, from the node \<open>pEDcpt\<close> on. The fourth component of
  the result is what the call stored in \<open>*pRxStat\<close>: the node whose status block it
  points to, or \<open>None\<close> when nothing was stored.
\<close>

partial_function (option) RxGetPacket_loop ::
  "platform \<Rightarrow> heap \<Rightarrow> DRV_ETHMAC_PKT_DCPT list \<Rightarrow> bool \<Rightarrow> bool \<Rightarrow> addr
     \<Rightarrow> (heap \<times> DRV_ETHMAC_PKT_DCPT list \<times> nat option \<times> addr option \<times> DRV_ETHMAC_RESULT) option" where
  "RxGetPacket_loop pf h pPkt pnBuffs pRxStat pEDcpt =
     (if pEDcpt = 0 then Some (h, pPkt, None, None, DRV_ETHMAC_RES_NO_PACKET)
      else if EOWN (hdr (h pEDcpt)) then Some (h, pPkt, None, None, DRV_ETHMAC_RES_PACKET_QUEUED)
      else if SOP (hdr (h pEDcpt)) \<and> \<not> rx_wack (hdr (h pEDcpt)) then
        (case RxGetPacket_pkt pf h pEDcpt (pPkt \<noteq> []) [] pPkt pnBuffs 0 0 pEDcpt of
           None \<Rightarrow> None
         | Some (h', pPkt', nOut, res) \<Rightarrow>
             Some (h', pPkt', nOut, if pRxStat then Some pEDcpt else None, res))
      else RxGetPacket_loop pf h pPkt pnBuffs pRxStat (next (h pEDcpt)))"

definition DRV_ETHMAC_LibRxGetPacket ::
  "platform \<Rightarrow> DRV_ETHMAC_INSTANCE_DCPT \<Rightarrow> DRV_ETHMAC_PKT_DCPT list \<Rightarrow> bool \<Rightarrow> bool
     \<Rightarrow> (DRV_ETHMAC_INSTANCE_DCPT \<times> DRV_ETHMAC_PKT_DCPT list \<times> nat option \<times> addr option
          \<times> DRV_ETHMAC_RESULT) option" where
  "DRV_ETHMAC_LibRxGetPacket pf pMacD pPkt pnBuffs pRxStat =
     (let pPkt0 = (case pPkt of [] \<Rightarrow> [] | d # ds \<Rightarrow> d\<lparr>pBuff := 0, nBytes := 0\<rparr> # ds) in
      case RxGetPacket_loop pf (mem pMacD) pPkt0 pnBuffs pRxStat (head (EnetRxBusyPtr pMacD)) of
        None \<Rightarrow> None
      | Some (h, pPkt', nOut, statOut, res) \<Rightarrow> Some (pMacD\<lparr>mem := h\<rparr>, pPkt', nOut, statOut, res))"


section \<open>Well-formed descriptor lists\<close>

text \<open>
  \<open>dcpt_chain h p ps\<close>: following the \<open>next\<close> links from \<open>p\<close> visits exactly the nodes
  \<open>ps\<close>, none of them null, and then reaches the null pointer. \<open>dcpt_list h pL ps\<close>:
  the list \<open>pL\<close> holds the nodes \<open>ps\<close>, each once, and its tail pointer is the last of
  them (null for the empty list).
\<close>

fun dcpt_chain :: "heap \<Rightarrow> addr \<Rightarrow> addr list \<Rightarrow> bool" where
  "dcpt_chain h p [] = (p = 0)"
| "dcpt_chain h p (a # as) = (p = a \<and> a \<noteq> 0 \<and> dcpt_chain h (next (h a)) as)"

definition dcpt_list :: "heap \<Rightarrow> DRV_ETHMAC_DCPT_LIST \<Rightarrow> addr list \<Rightarrow> bool" where
  "dcpt_list h pL ps =
     (dcpt_chain h (head pL) ps \<and> distinct ps \<and> tail pL = (if ps = [] then 0 else last ps))"

text \<open>Two memories that hold the same descriptors, up to the links between the nodes.\<close>

definition same_payload :: "heap \<Rightarrow> heap \<Rightarrow> bool" where
  "same_payload h h' =
     (\<forall>q. hdr (h' q) = hdr (h q) \<and> pEDBuff (h' q) = pEDBuff (h q) \<and> stat (h' q) = stat (h q))"

section \<open>The busy list after an append\<close>

text \<open>
  The busy list after an append, in the words of the specification: the list \<open>pB'\<close>
  holds the old nodes \<open>bs\<close> followed by the nodes of the new list \<open>ns\<close>, the head of
  \<open>ns\<close> last; it is not empty; its tail has no buffer, a zero header word and is owned
  by the software; and every node from the position of the old sentinel (\<open>last bs\<close>)
  to just before the new tail is owned by the hardware.
\<close>

definition busy_sentinel :: "heap \<Rightarrow> DRV_ETHMAC_DCPT_LIST \<Rightarrow> addr list \<Rightarrow> addr list \<Rightarrow> bool" where
  "busy_sentinel h' pB' bs ns =
     (dcpt_list h' pB' (bs @ tl ns @ [hd ns])
      \<and> tail pB' = hd ns \<and> tail pB' \<noteq> 0
      \<and> pEDBuff (h' (tail pB')) = 0 \<and> hdr (h' (tail pB')) = hdr_w_0
      \<and> \<not> EOWN (hdr (h' (tail pB')))
      \<and> (\<forall>q \<in> set (last bs # tl ns). EOWN (hdr (h' q))))"

text \<open>
  The number of entries of a packet chain that the loop of
  \<open>DRV_ETHMAC_LibTxSendPacket\<close> schedules when no entry fails, and the number of buffers
  that the loop of \<open>DRV_ETHMAC_LibRxBuffersAppend\<close> takes when no buffer fails.
\<close>

definition tx_entries :: "DRV_ETHMAC_PKT_DCPT list \<Rightarrow> nat" where
  "tx_entries pPkt = length (takeWhile (\<lambda>d. pBuff d \<noteq> 0 \<and> nBytes d \<noteq> 0) pPkt)"

definition rx_count :: "addr list \<Rightarrow> 32 word \<Rightarrow> nat" where
  "rx_count ppBuff nBuffs = length (takeWhile (\<lambda>b. b \<noteq> 0) (take (unat nBuffs) ppBuff))"

definition rx_entries :: "addr list \<Rightarrow> 32 word \<Rightarrow> nat" where
  "rx_entries ppBuff nBuffs0 = rx_count ppBuff (if nBuffs0 = 0 then 0x7fffffff else nBuffs0)"

section \<open>Concrete instances for the examples\<close>

text \<open>
  The two kernel windows of the PIC32 (MIPS32 kseg0 and kseg1), as an instance of the
  translation parameter; \<open>hwDcpt\<close> follows the \<open>next\<close> pointer in a node.
\<close>

definition kseg :: platform where
  "kseg = \<lparr>KVA_TO_PA = (\<lambda>v. v AND 0x1FFFFFFF), PA_TO_KVA0 = (\<lambda>pa. pa OR 0x80000000),
     PA_TO_KVA1 = (\<lambda>pa. pa OR 0xA0000000), IS_KVA0 = (\<lambda>v. drop_bit 29 v = 4),
     IS_KVA = (\<lambda>v. bit v 31), hwDcpt_off = 4\<rparr>"

definition node0 :: DRV_ETHMAC_DCPT_NODE where
  "node0 = \<lparr>next = 0, hdr = hdr_w_0, pEDBuff = 0, stat = 0, next_ed = 0\<rparr>"

definition regs0 :: DRV_ETHERNET_REGISTERS where
  "regs0 = \<lparr>ETHTXST = 0, ETHRXST = 0, TXRTS = False, RXEN = False, BUFCDEC = 0\<rparr>"

text \<open>The instance after \<open>DRV_ETHMAC_LibInit\<close>: four empty lists.\<close>

definition mac0 :: DRV_ETHMAC_INSTANCE_DCPT where
  "mac0 = \<lparr>mem = (\<lambda>_. node0), EnetTxFreePtr = DRV_ETHMAC_LIB_ListInit,
     EnetTxBusyPtr = DRV_ETHMAC_LIB_ListInit, EnetRxFreePtr = DRV_ETHMAC_LIB_ListInit,
     EnetRxBusyPtr = DRV_ETHMAC_LIB_ListInit, pEthReg = regs0\<rparr>"

text \<open>
  An allocator that hands out the nodes 0x100, 0x120, 0x140, ... and fails from its
  fourth call on; its context counts the calls.
\<close>

definition alloc3 :: "nat \<Rightarrow> addr \<times> nat" where
  "alloc3 n = (if n < 3 then (0x100 + 0x20 * of_nat n, n + 1) else (0, n + 1))"

text \<open>
  A TX-busy list of two one-buffer packets and the sentinel: the first packet is
  completed, the second is still owned by the hardware.
\<close>

definition mac_tx1 :: DRV_ETHMAC_INSTANCE_DCPT where
  "mac_tx1 = mac0\<lparr>
     mem := (\<lambda>_. node0)
       (0x100 := node0\<lparr>next := 0x120, pEDBuff := 0x1000,
                  hdr := hdr_w_0\<lparr>NPV := True, bCount := 64, SOP := True, EOP := True\<rparr>\<rparr>,
        0x120 := node0\<lparr>next := 0x140, pEDBuff := 0x2000,
                  hdr := hdr_w_0\<lparr>EOWN := True, NPV := True, bCount := 64, SOP := True, EOP := True\<rparr>\<rparr>,
        0x140 := node0),
     EnetTxBusyPtr := \<lparr>head = 0x100, tail = 0x140\<rparr>\<rparr>"

text \<open>
  Memory for the append protocol: a busy list that is just the sentinel 0x100, and a
  new list of the two prepared nodes 0x200 and 0x300.
\<close>

definition heap_app :: heap where
  "heap_app = (\<lambda>_. node0)
     (0x200 := node0\<lparr>next := 0x300, pEDBuff := 0x1000, hdr := hdr_w_NPV_EOWN 64\<rparr>,
      0x300 := node0\<lparr>pEDBuff := 0x2000, hdr := (hdr_w_NPV_EOWN 32)\<lparr>rx_nack := True\<rparr>\<rparr>)"


text \<open>A packet of three buffers in the first kernel window.\<close>

definition pkt3 :: "DRV_ETHMAC_PKT_DCPT list" where
  "pkt3 = [\<lparr>pBuff = 0x80001000, nBytes = 64\<rparr>, \<lparr>pBuff = 0x80002000, nBytes = 64\<rparr>,
           \<lparr>pBuff = 0x80003000, nBytes = 64\<rparr>]"

text \<open>
  An instance with both pools: the sentinels 0x100 (TX-busy) and 0x400 (RX-busy), the
  nodes 0x200 and 0x220 in TX-free, the nodes 0x300 and 0x320 in RX-free.
\<close>

definition mac_pools :: DRV_ETHMAC_INSTANCE_DCPT where
  "mac_pools = mac0\<lparr>
     mem := (\<lambda>_. node0)(0x200 := node0\<lparr>next := 0x220\<rparr>, 0x300 := node0\<lparr>next := 0x320\<rparr>),
     EnetTxFreePtr := \<lparr>head = 0x200, tail = 0x220\<rparr>,
     EnetTxBusyPtr := \<lparr>head = 0x100, tail = 0x100\<rparr>,
     EnetRxFreePtr := \<lparr>head = 0x300, tail = 0x320\<rparr>,
     EnetRxBusyPtr := \<lparr>head = 0x400, tail = 0x400\<rparr>\<rparr>"

text \<open>A packet of two buffers in the first kernel window.\<close>

definition pkt2 :: "DRV_ETHMAC_PKT_DCPT list" where
  "pkt2 = [\<lparr>pBuff = 0x80001000, nBytes = 64\<rparr>, \<lparr>pBuff = 0x80002000, nBytes = 64\<rparr>]"

text \<open>
  An instance whose RX-busy list holds a completed one-buffer packet in the sticky
  node 0x400, reported to the caller, and the sentinel 0x420; RX-free holds the node
  0x300.
\<close>

definition mac_ack :: DRV_ETHMAC_INSTANCE_DCPT where
  "mac_ack = mac0\<lparr>
     mem := (\<lambda>_. node0)
       (0x400 := node0\<lparr>next := 0x420, pEDBuff := 0x1000,
                  hdr := hdr_w_0\<lparr>NPV := True, sticky := True, rx_wack := True, bCount := 64,
                                 SOP := True, EOP := True\<rparr>\<rparr>),
     EnetRxFreePtr := \<lparr>head = 0x300, tail = 0x300\<rparr>,
     EnetRxBusyPtr := \<lparr>head = 0x400, tail = 0x420\<rparr>\<rparr>"

section \<open>Sequences of pool calls\<close>

text \<open>
  A client of the pool: a sequence of \<open>DRV_ETHMAC_LibDescriptorsPoolAdd\<close> and
  \<open>DRV_ETHMAC_LibDescriptorsPoolRemove\<close> calls on one direction, with one allocator,
  one release function and one context; the values the calls return are collected.
\<close>

datatype pool_call = PoolAdd "32 word" | PoolRemove "32 word"

fun pool_calls ::
  "platform \<Rightarrow> DRV_ETHMAC_DCPT_TYPE \<Rightarrow> ('a \<Rightarrow> addr \<times> 'a) \<Rightarrow> (addr \<Rightarrow> 'a \<Rightarrow> 'a) option
     \<Rightarrow> DRV_ETHMAC_INSTANCE_DCPT \<Rightarrow> 'a \<Rightarrow> pool_call list
     \<Rightarrow> (DRV_ETHMAC_INSTANCE_DCPT \<times> 'a \<times> 32 word list) option" where
  "pool_calls pf dType fAlloc fFree pMacD fParam [] = Some (pMacD, fParam, [])"
| "pool_calls pf dType fAlloc fFree pMacD fParam (PoolAdd n # cs) =
     (case DRV_ETHMAC_LibDescriptorsPoolAdd pf pMacD n dType (Some fAlloc) fParam of
        None \<Rightarrow> None
      | Some (pMacD', fParam', r) \<Rightarrow>
          (case pool_calls pf dType fAlloc fFree pMacD' fParam' cs of
             None \<Rightarrow> None
           | Some (pMacD'', fParam'', rs) \<Rightarrow> Some (pMacD'', fParam'', r # rs)))"
| "pool_calls pf dType fAlloc fFree pMacD fParam (PoolRemove n # cs) =
     (case DRV_ETHMAC_LibDescriptorsPoolRemove pMacD n dType fFree fParam of
        (pMacD', fParam', r) \<Rightarrow>
          (case pool_calls pf dType fAlloc fFree pMacD' fParam' cs of
             None \<Rightarrow> None
           | Some (pMacD'', fParam'', rs) \<Rightarrow> Some (pMacD'', fParam'', r # rs)))"

text \<open>The free and the busy list that a direction selects (lines 281--293, 341--353).\<close>

definition pool_free :: "DRV_ETHMAC_DCPT_TYPE \<Rightarrow> DRV_ETHMAC_INSTANCE_DCPT \<Rightarrow> DRV_ETHMAC_DCPT_LIST" where
  "pool_free dType pMacD =
     (if dType = DRV_ETHMAC_DCPT_TYPE_TX then EnetTxFreePtr pMacD else EnetRxFreePtr pMacD)"

definition pool_busy :: "DRV_ETHMAC_DCPT_TYPE \<Rightarrow> DRV_ETHMAC_INSTANCE_DCPT \<Rightarrow> DRV_ETHMAC_DCPT_LIST" where
  "pool_busy dType pMacD =
     (if dType = DRV_ETHMAC_DCPT_TYPE_TX then EnetTxBusyPtr pMacD else EnetRxBusyPtr pMacD)"

text \<open>
  The allocator on its own: the nodes that up to \<open>n\<close> calls in a row return, stopping
  at the first call that fails, and the context after the last call made.
\<close>

fun alloc_run :: "('a \<Rightarrow> addr \<times> 'a) \<Rightarrow> 'a \<Rightarrow> nat \<Rightarrow> addr list \<times> 'a" where
  "alloc_run fAlloc fParam 0 = ([], fParam)"
| "alloc_run fAlloc fParam (Suc n) =
     (case fAlloc fParam of
        (a, fParam') \<Rightarrow>
          if a = 0 then ([], fParam')
          else (case alloc_run fAlloc fParam' n of (as, fParam'') \<Rightarrow> (a # as, fParam'')))"

definition free_node :: "(addr \<Rightarrow> 'a \<Rightarrow> 'a) option \<Rightarrow> addr \<Rightarrow> 'a \<Rightarrow> 'a" where
  "free_node fFree a fParam = (case fFree of None \<Rightarrow> fParam | Some free \<Rightarrow> free a fParam)"

text \<open>
  The nodes of the free and of the busy list after a sequence of calls, with the
  context and the returned values, computed on lists of addresses. The result is
  \<open>None\<close> when the allocator hands out a node that is still in one of the two lists;
  it serves as the assumption that the allocator returns fresh nodes.
\<close>

definition pool_add_nodes ::
  "('a \<Rightarrow> addr \<times> 'a) \<Rightarrow> addr list \<Rightarrow> addr list \<Rightarrow> 'a \<Rightarrow> 32 word
     \<Rightarrow> addr list \<times> addr list \<times> 'a \<times> 32 word" where
  "pool_add_nodes fAlloc fs bs fParam n =
     (if bs = [] then
        (case fAlloc fParam of
           (a, fParam1) \<Rightarrow>
             if a = 0 then (fs, bs, fParam1, 0)
             else (case alloc_run fAlloc fParam1 (unat n) of
                     (as, fParam2) \<Rightarrow> (fs @ as, [a], fParam2, of_nat (length as))))
      else (case alloc_run fAlloc fParam (unat n) of
              (as, fParam2) \<Rightarrow> (fs @ as, bs, fParam2, of_nat (length as))))"

fun pool_nodes ::
  "('a \<Rightarrow> addr \<times> 'a) \<Rightarrow> (addr \<Rightarrow> 'a \<Rightarrow> 'a) option \<Rightarrow> addr list \<Rightarrow> addr list \<Rightarrow> 'a
     \<Rightarrow> pool_call list \<Rightarrow> (addr list \<times> addr list \<times> 'a \<times> 32 word list) option" where
  "pool_nodes fAlloc fFree fs bs fParam [] = Some (fs, bs, fParam, [])"
| "pool_nodes fAlloc fFree fs bs fParam (PoolAdd n # cs) =
     (case pool_add_nodes fAlloc fs bs fParam n of
        (fs1, bs1, fParam1, r) \<Rightarrow>
          if distinct (fs1 @ bs1) then
            (case pool_nodes fAlloc fFree fs1 bs1 fParam1 cs of
               None \<Rightarrow> None
             | Some (fs2, bs2, fParam2, rs) \<Rightarrow> Some (fs2, bs2, fParam2, r # rs))
          else None)"
| "pool_nodes fAlloc fFree fs bs fParam (PoolRemove n # cs) =
     (case pool_nodes fAlloc fFree (drop (unat n) fs) bs
             (fold (free_node fFree) (take (unat n) fs) fParam) cs of
        None \<Rightarrow> None
      | Some (fs2, bs2, fParam2, rs) \<Rightarrow>
          Some (fs2, bs2, fParam2, of_nat (min (unat n) (length fs)) # rs))"

text \<open>
  The count of the pool, call after call: a \<open>PoolAdd\<close> adds the value it returned, a
  \<open>PoolRemove\<close> takes the requested number away, stopping at 0 (subtraction on
  \<open>nat\<close>). \<open>pool_created\<close> is the sum of the values that the \<open>PoolAdd\<close> calls returned.
\<close>

fun pool_count :: "nat \<Rightarrow> pool_call list \<Rightarrow> 32 word list \<Rightarrow> nat" where
  "pool_count c (PoolAdd n # cs) (r # rs) = pool_count (c + unat r) cs rs"
| "pool_count c (PoolRemove n # cs) (r # rs) = pool_count (c - unat n) cs rs"
| "pool_count c cs rs = c"

fun pool_created :: "pool_call list \<Rightarrow> 32 word list \<Rightarrow> nat" where
  "pool_created (PoolAdd n # cs) (r # rs) = unat r + pool_created cs rs"
| "pool_created (PoolRemove n # cs) (r # rs) = pool_created cs rs"
| "pool_created cs rs = 0"

text \<open>
  An allocator over a supply of nodes, which is its context: it hands out the first
  node of the supply and fails when the supply is empty; released nodes go back to
  the end of the supply.
\<close>

fun alloc_supply :: "addr list \<Rightarrow> addr \<times> addr list" where
  "alloc_supply [] = (0, [])"
| "alloc_supply (a # as) = (a, as)"

definition free_supply :: "addr \<Rightarrow> addr list \<Rightarrow> addr list" where
  "free_supply a as = as @ [a]"

text \<open>
  An instance whose RX-busy list holds a completed packet of two buffers, in the nodes
  0x400 and 0x420, not yet reported to the caller, and the sentinel 0x440.
\<close>

definition mac_rx2 :: DRV_ETHMAC_INSTANCE_DCPT where
  "mac_rx2 = mac0\<lparr>
     mem := (\<lambda>_. node0)
       (0x400 := node0\<lparr>next := 0x420, pEDBuff := 0x1000,
                  hdr := hdr_w_0\<lparr>NPV := True, kv0 := True, bCount := 64, SOP := True\<rparr>\<rparr>,
        0x420 := node0\<lparr>next := 0x440, pEDBuff := 0x2000,
                  hdr := hdr_w_0\<lparr>NPV := True, kv0 := True, bCount := 32, EOP := True\<rparr>\<rparr>),
     EnetRxBusyPtr := \<lparr>head = 0x400, tail = 0x440\<rparr>\<rparr>"

section \<open>Lists in memory: the helpers on well-formed lists\<close>

lemma dcpt_chain_cong:
  "(\<And>q. q \<in> set ps \<Longrightarrow> next (h' q) = next (h q)) \<Longrightarrow> dcpt_chain h' p ps = dcpt_chain h p ps"
  by (induction ps arbitrary: p) auto

lemma dcpt_chain_not0: "dcpt_chain h p ps \<Longrightarrow> 0 \<notin> set ps"
  by (induction ps arbitrary: p) auto

lemma dcpt_chain_unique: "dcpt_chain h p as \<Longrightarrow> dcpt_chain h p bs \<Longrightarrow> as = bs"
proof (induction as arbitrary: p bs)
  case Nil
  then show ?case by (cases bs) auto
next
  case (Cons a as)
  then show ?case by (cases bs) auto
qed

lemma dcpt_chain_head: "dcpt_chain h p ps \<Longrightarrow> p = (if ps = [] then 0 else hd ps)"
  by (cases ps) auto

lemma dcpt_chain_snoc:
  assumes "dcpt_chain h p ps" and "ps \<noteq> []" and "pN \<notin> set ps" and "pN \<noteq> 0"
    and "next (h' pN) = 0" and "next (h' (last ps)) = pN"
    and "\<And>q. q \<in> set (butlast ps) \<Longrightarrow> next (h' q) = next (h q)"
  shows "dcpt_chain h' p (ps @ [pN])"
  using assms
proof (induction ps arbitrary: p)
  case Nil
  then show ?case by simp
next
  case (Cons a as)
  show ?case
  proof (cases "as = []")
    case True
    with Cons.prems show ?thesis by simp
  next
    case False
    have "dcpt_chain h' (next (h a)) (as @ [pN])"
      using Cons.prems False by (intro Cons.IH) auto
    moreover have "next (h' a) = next (h a)"
      using Cons.prems(7) [of a] False by simp
    ultimately show ?thesis using Cons.prems False by simp
  qed
qed

lemma dcpt_list_cong:
  "dcpt_list h pL ps \<Longrightarrow> (\<And>q. q \<in> set ps \<Longrightarrow> next (h' q) = next (h q)) \<Longrightarrow> dcpt_list h' pL ps"
  unfolding dcpt_list_def using dcpt_chain_cong [of ps h' h] by blast

lemma dcpt_list_not0: "dcpt_list h pL ps \<Longrightarrow> 0 \<notin> set ps"
  unfolding dcpt_list_def by (blast dest: dcpt_chain_not0)

lemma dcpt_list_Nil: "dcpt_list h pL [] = (head pL = 0 \<and> tail pL = 0)"
  by (simp add: dcpt_list_def)

lemma dcpt_list_empty_iff: "dcpt_list h pL ps \<Longrightarrow> (head pL = 0) = (ps = [])"
  by (cases ps) (auto simp: dcpt_list_def)

lemma ListInit_list: "dcpt_list h DRV_ETHMAC_LIB_ListInit []"
  by (simp add: dcpt_list_def DRV_ETHMAC_LIB_ListInit_def)

lemma ListRemoveHead_Nil:
  "dcpt_list h pL [] \<Longrightarrow> DRV_ETHMAC_LIB_ListRemoveHead h pL = (0, pL)"
  by (simp add: dcpt_list_def DRV_ETHMAC_LIB_ListRemoveHead_def)

lemma ListRemoveHead_Cons:
  assumes "dcpt_list h pL (a # as)"
  shows "\<exists>pL'. DRV_ETHMAC_LIB_ListRemoveHead h pL = (a, pL') \<and> dcpt_list h pL' as"
proof (cases "as = []")
  case True
  with assms show ?thesis
    by (auto simp: dcpt_list_def DRV_ETHMAC_LIB_ListRemoveHead_def)
next
  case False
  then have "last as \<in> set as" by simp
  with assms False have "a \<noteq> last as" by (auto simp: dcpt_list_def)
  with assms False show ?thesis
    by (auto simp: dcpt_list_def DRV_ETHMAC_LIB_ListRemoveHead_def)
qed

lemma ListAddTail_spec:
  assumes "dcpt_list h pL ps" and "pN \<noteq> 0" and "pN \<notin> set ps"
  shows "\<exists>h' pL'. DRV_ETHMAC_LIB_ListAddTail pf h pL pN = Some (h', pL')
           \<and> dcpt_list h' pL' (ps @ [pN]) \<and> same_payload h h'
           \<and> (\<forall>q. q \<noteq> pN \<and> q \<noteq> tail pL \<longrightarrow> h' q = h q)"
proof (cases "ps = []")
  case True
  with assms show ?thesis
    by (auto simp: dcpt_list_def DRV_ETHMAC_LIB_ListAddTail_def same_payload_def Let_def)
next
  case False
  let ?h1 = "h(pN := (h pN)\<lparr>next := 0\<rparr>)"
  let ?h' = "?h1(tail pL := (?h1 (tail pL))\<lparr>next := pN, next_ed := KVA_TO_PA pf (pN + hwDcpt_off pf)\<rparr>)"
  have lin: "last ps \<in> set ps" using False by simp
  have "last ps \<noteq> 0" "last ps \<noteq> pN"
    using lin dcpt_list_not0 [OF assms(1)] assms(3) by metis+
  moreover have "tail pL = last ps" using assms(1) False by (simp add: dcpt_list_def)
  ultimately have t: "tail pL = last ps" "tail pL \<noteq> 0" "tail pL \<noteq> pN" by simp_all
  have eq: "DRV_ETHMAC_LIB_ListAddTail pf h pL pN = Some (?h', pL\<lparr>tail := pN\<rparr>)"
    using assms(2) t by (simp add: DRV_ETHMAC_LIB_ListAddTail_def Let_def)
  have "dcpt_chain ?h' (head pL) (ps @ [pN])"
  proof (rule dcpt_chain_snoc [where h = h])
    show "dcpt_chain h (head pL) ps" using assms(1) by (simp add: dcpt_list_def)
    show "next (?h' (last ps)) = pN" using t by simp
    show "next (?h' pN) = 0" using t by simp
    fix q assume "q \<in> set (butlast ps)"
    moreover have "distinct (butlast ps @ [last ps])"
      using assms(1) False by (simp add: dcpt_list_def)
    ultimately have "q \<noteq> last ps" "q \<in> set ps"
      by (auto dest: in_set_butlastD)
    then show "next (?h' q) = next (h q)" using t assms(3) by auto
  qed (use assms False in auto)
  then have "dcpt_list ?h' (pL\<lparr>tail := pN\<rparr>) (ps @ [pN])"
    using assms by (auto simp: dcpt_list_def)
  moreover have "same_payload h ?h'" by (simp add: same_payload_def)
  moreover have "\<forall>q. q \<noteq> pN \<and> q \<noteq> tail pL \<longrightarrow> ?h' q = h q" by simp
  ultimately show ?thesis using eq by blast
qed


lemma same_payload_refl: "same_payload h h"
  by (simp add: same_payload_def)

lemma same_payload_trans: "same_payload h h1 \<Longrightarrow> same_payload h1 h2 \<Longrightarrow> same_payload h h2"
  by (simp add: same_payload_def)

lemma dcpt_list_tail: "dcpt_list h pL ps \<Longrightarrow> tail pL = 0 \<or> tail pL \<in> set ps"
  by (cases "ps = []") (auto simp: dcpt_list_def)

lemma dcpt_list_tail_notin:
  assumes "dcpt_list h pL ps" and "dcpt_list h pA as" and "set ps \<inter> set as = {}"
  shows "tail pL \<notin> set as"
  using dcpt_list_tail [OF assms(1)] dcpt_list_not0 [OF assms(2)] assms(3) by auto

lemma dcpt_list_distinct: "dcpt_list h pL ps \<Longrightarrow> distinct ps"
  by (simp add: dcpt_list_def)

lemma ListInit_eq: "dcpt_list h pL [] \<Longrightarrow> pL = DRV_ETHMAC_LIB_ListInit"
  by (simp add: dcpt_list_def DRV_ETHMAC_LIB_ListInit_def)

lemma ListAppendTail_spec:
  assumes "dcpt_list h pL ps" and "dcpt_list h pA as" and "set ps \<inter> set as = {}"
  shows "\<exists>h' pL'. DRV_ETHMAC_LIB_ListAppendTail pf h pL pA = Some (h', pL', DRV_ETHMAC_LIB_ListInit)
           \<and> dcpt_list h' pL' (ps @ as) \<and> same_payload h h'
           \<and> (\<forall>q. q \<notin> set as \<and> q \<noteq> tail pL \<longrightarrow> h' q = h q)"
  using assms
proof (induction as arbitrary: h pL pA ps)
  case Nil
  then show ?case
    by (subst DRV_ETHMAC_LIB_ListAppendTail.simps)
       (simp add: ListRemoveHead_Nil ListInit_eq same_payload_refl)
next
  case (Cons a as)
  obtain pA' where rm: "DRV_ETHMAC_LIB_ListRemoveHead h pA = (a, pA')" and pA': "dcpt_list h pA' as"
    using ListRemoveHead_Cons [OF Cons.prems(2)] by blast
  have a: "a \<noteq> 0" "a \<notin> set ps" "a \<notin> set as"
    using dcpt_list_not0 [OF Cons.prems(2)] Cons.prems(3) dcpt_list_distinct [OF Cons.prems(2)]
    by auto
  obtain h1 pL1 where add: "DRV_ETHMAC_LIB_ListAddTail pf h pL a = Some (h1, pL1)"
    and pL1: "dcpt_list h1 pL1 (ps @ [a])" and sp1: "same_payload h h1"
    and fr1: "\<forall>q. q \<noteq> a \<and> q \<noteq> tail pL \<longrightarrow> h1 q = h q"
    using ListAddTail_spec [OF Cons.prems(1) a(1) a(2)] by blast
  have tl: "tail pL \<notin> set (a # as)"
    by (rule dcpt_list_tail_notin [OF Cons.prems])
  have pA1: "dcpt_list h1 pA' as"
    by (rule dcpt_list_cong [OF pA']) (use fr1 tl a in auto)
  have t1: "tail pL1 = a" using pL1 by (simp add: dcpt_list_def)
  have "set (ps @ [a]) \<inter> set as = {}" using Cons.prems(3) a by auto
  from Cons.IH [OF pL1 pA1 this]
  obtain h' pL' where
    app: "DRV_ETHMAC_LIB_ListAppendTail pf h1 pL1 pA' = Some (h', pL', DRV_ETHMAC_LIB_ListInit)"
    and pL': "dcpt_list h' pL' ((ps @ [a]) @ as)" and sp: "same_payload h1 h'"
    and fr: "\<forall>q. q \<notin> set as \<and> q \<noteq> tail pL1 \<longrightarrow> h' q = h1 q"
    by blast
  have "DRV_ETHMAC_LIB_ListAppendTail pf h pL pA = Some (h', pL', DRV_ETHMAC_LIB_ListInit)"
    by (subst DRV_ETHMAC_LIB_ListAppendTail.simps) (simp add: rm a add app)
  moreover have "\<forall>q. q \<notin> set (a # as) \<and> q \<noteq> tail pL \<longrightarrow> h' q = h q"
    using fr fr1 t1 by auto
  ultimately show ?case using pL' same_payload_trans [OF sp1 sp] by auto
qed

lemma EthAppendBusyList_loop_spec:
  assumes "dcpt_list h pL ps" and "dcpt_list h pA as" and "set ps \<inter> set as = {}"
  shows "\<exists>h' pL'. EthAppendBusyList_loop pf rxAck h ethId pL pA =
             Some (h', ethId\<lparr>BUFCDEC := BUFCDEC ethId +
                     (if rxAck then length (filter (\<lambda>q. \<not> rx_nack (hdr (h q))) as) else 0)\<rparr>,
                   pL', DRV_ETHMAC_LIB_ListInit)
           \<and> dcpt_list h' pL' (ps @ as) \<and> same_payload h h'
           \<and> (\<forall>q. q \<notin> set as \<and> q \<noteq> tail pL \<longrightarrow> h' q = h q)"
  using assms
proof (induction as arbitrary: h pL pA ps ethId)
  case Nil
  then show ?case
    by (subst EthAppendBusyList_loop.simps)
       (simp add: ListRemoveHead_Nil ListInit_eq same_payload_refl)
next
  case (Cons a as)
  obtain pA' where rm: "DRV_ETHMAC_LIB_ListRemoveHead h pA = (a, pA')" and pA': "dcpt_list h pA' as"
    using ListRemoveHead_Cons [OF Cons.prems(2)] by blast
  have a: "a \<noteq> 0" "a \<notin> set ps" "a \<notin> set as"
    using dcpt_list_not0 [OF Cons.prems(2)] Cons.prems(3) dcpt_list_distinct [OF Cons.prems(2)]
    by auto
  obtain h1 pL1 where add: "DRV_ETHMAC_LIB_ListAddTail pf h pL a = Some (h1, pL1)"
    and pL1: "dcpt_list h1 pL1 (ps @ [a])" and sp1: "same_payload h h1"
    and fr1: "\<forall>q. q \<noteq> a \<and> q \<noteq> tail pL \<longrightarrow> h1 q = h q"
    using ListAddTail_spec [OF Cons.prems(1) a(1) a(2)] by blast
  have tl: "tail pL \<notin> set (a # as)"
    by (rule dcpt_list_tail_notin [OF Cons.prems])
  have pA1: "dcpt_list h1 pA' as"
    by (rule dcpt_list_cong [OF pA']) (use fr1 tl a in auto)
  have t1: "tail pL1 = a" using pL1 by (simp add: dcpt_list_def)
  have disj: "set (ps @ [a]) \<inter> set as = {}" using Cons.prems(3) a by auto
  let ?e1 = "if rxAck \<and> \<not> rx_nack (hdr (h1 a)) then DRV_ETH_RxBufferCountDecrement ethId else ethId"
  from Cons.IH [OF pL1 pA1 disj, of ?e1]
  obtain h' pL' where
    app: "EthAppendBusyList_loop pf rxAck h1 ?e1 pL1 pA' =
            Some (h', ?e1\<lparr>BUFCDEC := BUFCDEC ?e1 +
                    (if rxAck then length (filter (\<lambda>q. \<not> rx_nack (hdr (h1 q))) as) else 0)\<rparr>,
                  pL', DRV_ETHMAC_LIB_ListInit)"
    and pL': "dcpt_list h' pL' ((ps @ [a]) @ as)" and sp: "same_payload h1 h'"
    and fr: "\<forall>q. q \<notin> set as \<and> q \<noteq> tail pL1 \<longrightarrow> h' q = h1 q"
    by blast
  have hdr1: "\<And>q. hdr (h1 q) = hdr (h q)" using sp1 by (simp add: same_payload_def)
  have "EthAppendBusyList_loop pf rxAck h ethId pL pA =
          Some (h', ethId\<lparr>BUFCDEC := BUFCDEC ethId +
                  (if rxAck then length (filter (\<lambda>q. \<not> rx_nack (hdr (h q))) (a # as)) else 0)\<rparr>,
                pL', DRV_ETHMAC_LIB_ListInit)"
    using app
    by (subst EthAppendBusyList_loop.simps)
       (auto simp: rm a add hdr1 DRV_ETH_RxBufferCountDecrement_def)
  moreover have "\<forall>q. q \<notin> set (a # as) \<and> q \<noteq> tail pL \<longrightarrow> h' q = h q"
    using fr fr1 t1 by auto
  ultimately show ?case using pL' same_payload_trans [OF sp1 sp] by auto
qed

section \<open>Rejected pool calls\<close>

text \<open>
  Claim C10. \<open>DRV_ETHMAC_LibDescriptorsPoolAdd\<close> called with a null allocator or with a
  direction that is neither TX nor RX, and \<open>DRV_ETHMAC_LibDescriptorsPoolRemove\<close> called
  with a direction that is neither TX nor RX, return 0 and leave the instance (the four
  lists, the node memory, the registers) and the allocator's context as they were.
\<close>

theorem DescriptorsPool_rejected_unchanged:
  "(fAlloc = None \<or> (dType \<noteq> DRV_ETHMAC_DCPT_TYPE_TX \<and> dType \<noteq> DRV_ETHMAC_DCPT_TYPE_RX) \<longrightarrow>
      DRV_ETHMAC_LibDescriptorsPoolAdd pf pMacD nDescriptors dType fAlloc fParam
        = Some (pMacD, fParam, 0))
   \<and> (dType \<noteq> DRV_ETHMAC_DCPT_TYPE_TX \<and> dType \<noteq> DRV_ETHMAC_DCPT_TYPE_RX \<longrightarrow>
      DRV_ETHMAC_LibDescriptorsPoolRemove pMacD nDescriptors' dType fFree fParam'
        = (pMacD, fParam', 0))"
  by (cases fAlloc)
     (simp_all add: DRV_ETHMAC_LibDescriptorsPoolAdd_def DRV_ETHMAC_LibDescriptorsPoolRemove_def)

theorem DescriptorsPool_rejected_unchanged_witness:
  "DRV_ETHMAC_LibDescriptorsPoolAdd kseg mac0 4 DRV_ETHMAC_DCPT_TYPE_TX None (0::nat)
     = Some (mac0, 0, 0)
   \<and> DRV_ETHMAC_LibDescriptorsPoolAdd kseg mac0 4 DRV_ETHMAC_DCPT_TYPE_ALL (Some alloc3) 0
     = Some (mac0, 0, 0)
   \<and> DRV_ETHMAC_LibDescriptorsPoolRemove mac0 4 DRV_ETHMAC_DCPT_TYPE_ALL
        (Some (\<lambda>pN n. n + 1)) (0::nat)
     = (mac0, 0, 0)"
  using DescriptorsPool_rejected_unchanged
          [of None DRV_ETHMAC_DCPT_TYPE_TX kseg mac0 4 "0::nat" 4 "None :: (addr \<Rightarrow> nat \<Rightarrow> nat) option" 0]
        DescriptorsPool_rejected_unchanged
          [of "Some alloc3" DRV_ETHMAC_DCPT_TYPE_ALL kseg mac0 4 "0::nat" 4 "Some (\<lambda>pN n. n + 1)" "0::nat"]
  by simp

section \<open>Transmit status query\<close>

lemma EnetFindPacket_loop_find:
  "dcpt_chain h p ps \<Longrightarrow>
     EnetFindPacket_loop h pa p =
       Some (case find (\<lambda>q. SOP (hdr (h q)) \<and> pEDBuff (h q) = pa) ps of None \<Rightarrow> 0 | Some q \<Rightarrow> q)"
proof (induction ps arbitrary: p)
  case Nil
  then show ?case by (subst EnetFindPacket_loop.simps) simp
next
  case (Cons a as)
  then show ?case by (subst EnetFindPacket_loop.simps) auto
qed

lemma find_not0: "0 \<notin> set ps \<Longrightarrow> find P ps = Some q \<Longrightarrow> q \<noteq> 0"
  by (induction ps) (auto split: if_splits)

text \<open>
  Claim C7. \<open>DRV_ETHMAC_LibTxGetBufferStatus\<close> returns the instance as it was, and
  its result is decided by the first node of the TX-busy list that has \<open>SOP\<close> set and
  whose buffer address is the physical address of the query buffer: \<open>NO_PACKET\<close> when
  there is none, \<open>PACKET_QUEUED\<close> when that node is owned by the hardware, and
  \<open>OK\<close> with \<open>*pTxStat\<close> pointing to that node's status block otherwise.
\<close>

theorem TxGetBufferStatus_query:
  assumes "dcpt_chain (mem pMacD) (head (EnetTxBusyPtr pMacD)) ps"
  shows "DRV_ETHMAC_LibTxGetBufferStatus pf pMacD pBuf pTxStat =
    Some (pMacD,
      (case find (\<lambda>q. SOP (hdr (mem pMacD q)) \<and> pEDBuff (mem pMacD q) = KVA_TO_PA pf pBuf) ps of
         None \<Rightarrow> (if pTxStat then Some 0 else None, DRV_ETHMAC_RES_NO_PACKET)
       | Some q \<Rightarrow>
           if EOWN (hdr (mem pMacD q))
           then (if pTxStat then Some 0 else None, DRV_ETHMAC_RES_PACKET_QUEUED)
           else (if pTxStat then Some q else None, DRV_ETHMAC_RES_OK)))"
proof -
  let ?P = "\<lambda>q. SOP (hdr (mem pMacD q)) \<and> pEDBuff (mem pMacD q) = KVA_TO_PA pf pBuf"
  have f: "EnetFindPacket pf (mem pMacD) pBuf (EnetTxBusyPtr pMacD) =
             Some (case find ?P ps of None \<Rightarrow> 0 | Some q \<Rightarrow> q)"
    unfolding EnetFindPacket_def by (rule EnetFindPacket_loop_find [OF assms])
  show ?thesis
  proof (cases "find ?P ps")
    case None
    with f show ?thesis by (simp add: DRV_ETHMAC_LibTxGetBufferStatus_def)
  next
    case (Some q)
    then have "q \<noteq> 0" using find_not0 dcpt_chain_not0 [OF assms] by blast
    with f Some show ?thesis by (simp add: DRV_ETHMAC_LibTxGetBufferStatus_def)
  qed
qed

theorem TxGetBufferStatus_query_witness:
  "dcpt_chain (mem mac_tx1) (head (EnetTxBusyPtr mac_tx1)) [0x100, 0x120, 0x140]
   \<and> DRV_ETHMAC_LibTxGetBufferStatus kseg mac_tx1 0x80001000 True
       = Some (mac_tx1, Some 0x100, DRV_ETHMAC_RES_OK)
   \<and> DRV_ETHMAC_LibTxGetBufferStatus kseg mac_tx1 0x80002000 True
       = Some (mac_tx1, Some 0, DRV_ETHMAC_RES_PACKET_QUEUED)
   \<and> DRV_ETHMAC_LibTxGetBufferStatus kseg mac_tx1 0x80003000 True
       = Some (mac_tx1, Some 0, DRV_ETHMAC_RES_NO_PACKET)"
proof -
  have c: "dcpt_chain (mem mac_tx1) (head (EnetTxBusyPtr mac_tx1)) [0x100, 0x120, 0x140]"
    by (simp add: mac_tx1_def mac0_def node0_def)
  show ?thesis
    using c TxGetBufferStatus_query [OF c, of kseg "0x80001000" True]
      TxGetBufferStatus_query [OF c, of kseg "0x80002000" True]
      TxGetBufferStatus_query [OF c, of kseg "0x80003000" True]
    by (simp add: mac_tx1_def mac0_def node0_def hdr_w_0_def kseg_def)
qed

section \<open>The append protocol on well-formed lists\<close>

lemma dcpt_list_last:
  assumes "dcpt_list h pL ps" and "ps \<noteq> []"
  shows "tail pL = last ps \<and> last ps \<noteq> 0 \<and> last ps \<in> set ps"
proof -
  have "last ps \<in> set ps" using assms(2) by simp
  moreover from this have "last ps \<noteq> 0" using dcpt_list_not0 [OF assms(1)] by metis
  moreover have "tail pL = last ps" using assms by (simp add: dcpt_list_def)
  ultimately show ?thesis by simp
qed

lemma EthAppendBusyList_link_spec:
  assumes B: "dcpt_list h pB bs" and Bne: "bs \<noteq> []" and N: "dcpt_list h pN ns" and Nne: "ns \<noteq> []"
    and disj: "set bs \<inter> set ns = {}"
  shows "\<exists>h8 pB'.
      EthAppendBusyList_link pf h ethId pB pN rxAck =
        Some (h8,
              ethId\<lparr>BUFCDEC := BUFCDEC ethId +
                (if rxAck then length (filter (\<lambda>q. \<not> rx_nack (hdr (h q))) (tl ns)) else 0)\<rparr>,
              pB', DRV_ETHMAC_LIB_ListInit, last bs)
    \<and> dcpt_list h8 pB' (bs @ tl ns @ [hd ns])
    \<and> hdr (h8 (last bs)) = (hdr (h (hd ns)))\<lparr>EOWN := False\<rparr>
    \<and> pEDBuff (h8 (last bs)) = pEDBuff (h (hd ns)) \<and> stat (h8 (last bs)) = stat (h (hd ns))
    \<and> hdr (h8 (hd ns)) = hdr_w_0 \<and> pEDBuff (h8 (hd ns)) = 0
    \<and> (\<forall>q. q \<noteq> last bs \<and> q \<noteq> hd ns \<longrightarrow>
          hdr (h8 q) = hdr (h q) \<and> pEDBuff (h8 q) = pEDBuff (h q) \<and> stat (h8 q) = stat (h q))
    \<and> (\<forall>q. q \<notin> set ns \<and> q \<noteq> last bs \<longrightarrow> h8 q = h q)"
proof -
  obtain a ns' where ns: "ns = a # ns'" using Nne by (cases ns) auto
  let ?t = "last bs"
  have t: "tail pB = ?t" "?t \<noteq> 0" "?t \<in> set bs" using dcpt_list_last [OF B Bne] by auto
  have a: "a \<noteq> 0" "a \<notin> set bs" "a \<notin> set ns'" "a \<noteq> ?t"
    using dcpt_list_not0 [OF N] dcpt_list_distinct [OF N] disj t ns by auto
  have tn: "?t \<notin> set ns'" using disj t ns by auto
  obtain pN1 where rm: "DRV_ETHMAC_LIB_ListRemoveHead h pN = (a, pN1)" and N1: "dcpt_list h pN1 ns'"
    using ListRemoveHead_Cons [OF N [unfolded ns]] by blast
  let ?h1 = "h(a := (h a)\<lparr>hdr := (hdr (h a))\<lparr>EOWN := False\<rparr>\<rparr>)"
  define h1 where "h1 = ?h1"
  have B1: "dcpt_list h1 pB bs" by (rule dcpt_list_cong [OF B]) (simp add: h1_def)
  have N1': "dcpt_list h1 pN1 ns'" by (rule dcpt_list_cong [OF N1]) (simp add: h1_def)
  have disj1: "set bs \<inter> set ns' = {}" using disj ns by auto
  obtain h2 pB2 where
    lp: "EthAppendBusyList_loop pf rxAck h1 ethId pB pN1 =
           Some (h2, ethId\<lparr>BUFCDEC := BUFCDEC ethId +
                   (if rxAck then length (filter (\<lambda>q. \<not> rx_nack (hdr (h1 q))) ns') else 0)\<rparr>,
                 pB2, DRV_ETHMAC_LIB_ListInit)"
    and B2: "dcpt_list h2 pB2 (bs @ ns')" and sp2: "same_payload h1 h2"
    and fr2: "\<forall>q. q \<notin> set ns' \<and> q \<noteq> tail pB \<longrightarrow> h2 q = h1 q"
    using EthAppendBusyList_loop_spec [OF B1 N1' disj1, of pf rxAck ethId] by blast
  have cnt: "filter (\<lambda>q. \<not> rx_nack (hdr (h1 q))) ns' = filter (\<lambda>q. \<not> rx_nack (hdr (h q))) ns'"
    by (rule filter_cong) (use a in \<open>auto simp: h1_def\<close>)
  have h2a: "h2 a = h1 a" using fr2 a t by auto
  let ?h3 = "h2(a := (h2 a)\<lparr>next := next (h2 (tail pB))\<rparr>)"
  let ?h4 = "?h3(a := (?h3 a)\<lparr>next_ed := next_ed (?h3 (tail pB))\<rparr>)"
  let ?h5 = "?h4(tail pB := ?h4 a)"
  let ?h6 = "?h5(a := (?h5 a)\<lparr>hdr := hdr_w_0\<rparr>)"
  let ?h7 = "?h6(a := (?h6 a)\<lparr>pEDBuff := 0\<rparr>)"
  define h7 where "h7 = ?h7"
  have h7t: "h7 ?t = (h2 a)\<lparr>next := next (h2 ?t), next_ed := next_ed (h2 ?t)\<rparr>"
    using a t by (simp add: h7_def)
  have h7a: "h7 a = (h2 a)\<lparr>next := next (h2 ?t), next_ed := next_ed (h2 ?t), hdr := hdr_w_0, pEDBuff := 0\<rparr>"
    using a t by (simp add: h7_def)
  have h7o: "\<And>q. q \<noteq> a \<Longrightarrow> q \<noteq> ?t \<Longrightarrow> h7 q = h2 q"
    using t by (simp add: h7_def)
  have B7: "dcpt_list h7 pB2 (bs @ ns')"
  proof (rule dcpt_list_cong [OF B2])
    fix q assume "q \<in> set (bs @ ns')"
    then have "q \<noteq> a" using a by auto
    then show "next (h7 q) = next (h2 q)" using h7t h7o [of q] by (cases "q = ?t") auto
  qed
  have an: "a \<notin> set (bs @ ns')" using a by auto
  obtain h8 pB3 where
    add: "DRV_ETHMAC_LIB_ListAddTail pf h7 pB2 a = Some (h8, pB3)"
    and B3: "dcpt_list h8 pB3 ((bs @ ns') @ [a])" and sp8: "same_payload h7 h8"
    and fr8: "\<forall>q. q \<noteq> a \<and> q \<noteq> tail pB2 \<longrightarrow> h8 q = h7 q"
    using ListAddTail_spec [OF B7 a(1) an, of pf] by blast
  have t2: "tail pB2 \<in> set (bs @ ns')"
    using dcpt_list_last [OF B2] Bne by auto
  have a0: "(a = 0) = False" "(tail pB = 0) = False" using a t by simp_all
  have link0: "EthAppendBusyList_link pf h ethId pB pN rxAck =
        Some (h8,
              ethId\<lparr>BUFCDEC := BUFCDEC ethId +
                (if rxAck then length (filter (\<lambda>q. \<not> rx_nack (hdr (h1 q))) ns') else 0)\<rparr>,
              pB3, DRV_ETHMAC_LIB_ListInit, tail pB)"
    unfolding EthAppendBusyList_link_def Let_def h1_def
    by (simp only: rm prod.case a0 if_False lp [unfolded h1_def] option.case
        add [unfolded h7_def])
  have link: "EthAppendBusyList_link pf h ethId pB pN rxAck =
        Some (h8,
              ethId\<lparr>BUFCDEC := BUFCDEC ethId +
                (if rxAck then length (filter (\<lambda>q. \<not> rx_nack (hdr (h q))) (tl ns)) else 0)\<rparr>,
              pB3, DRV_ETHMAC_LIB_ListInit, last bs)"
    using link0 by (simp add: cnt ns t)
  have p8: "\<And>q. hdr (h8 q) = hdr (h7 q) \<and> pEDBuff (h8 q) = pEDBuff (h7 q) \<and> stat (h8 q) = stat (h7 q)"
    using sp8 by (simp add: same_payload_def)
  have p2: "\<And>q. hdr (h2 q) = hdr (h1 q) \<and> pEDBuff (h2 q) = pEDBuff (h1 q) \<and> stat (h2 q) = stat (h1 q)"
    using sp2 by (simp add: same_payload_def)
  have c1: "hdr (h8 ?t) = (hdr (h (hd ns)))\<lparr>EOWN := False\<rparr>
      \<and> pEDBuff (h8 ?t) = pEDBuff (h (hd ns)) \<and> stat (h8 ?t) = stat (h (hd ns))"
    using p8 [of ?t] h7t p2 [of a] by (simp add: h1_def ns)
  have c2: "hdr (h8 (hd ns)) = hdr_w_0 \<and> pEDBuff (h8 (hd ns)) = 0"
    using p8 [of a] h7a by (simp add: ns)
  have c3: "\<forall>q. q \<noteq> last bs \<and> q \<noteq> hd ns \<longrightarrow>
          hdr (h8 q) = hdr (h q) \<and> pEDBuff (h8 q) = pEDBuff (h q) \<and> stat (h8 q) = stat (h q)"
    using p8 h7o p2 by (simp add: ns h1_def)
  have c4: "\<forall>q. q \<notin> set ns \<and> q \<noteq> last bs \<longrightarrow> h8 q = h q"
  proof (intro allI impI)
    fix q assume q: "q \<notin> set ns \<and> q \<noteq> last bs"
    then have "q \<noteq> a" "q \<notin> set ns'" using ns by auto
    moreover have "q \<noteq> tail pB2"
    proof
      assume e: "q = tail pB2"
      have "tail pB2 = last (bs @ ns')" using dcpt_list_last [OF B2] Bne by simp
      then have "tail pB2 = (if ns' = [] then last bs else last ns')" by simp
      with e q \<open>q \<notin> set ns'\<close> show False by (cases "ns' = []") auto
    qed
    ultimately show "h8 q = h q" using fr8 h7o [of q] fr2 q t by (simp add: h1_def)
  qed
  from link B3 c1 c2 c3 c4 show ?thesis by (auto simp: ns)
qed

lemma EthAppendBusyList_spec:
  assumes B: "dcpt_list h pB bs" and Bne: "bs \<noteq> []" and N: "dcpt_list h pN ns" and Nne: "ns \<noteq> []"
    and disj: "set bs \<inter> set ns = {}"
  shows "\<exists>h' pB'.
      EthAppendBusyList pf h ethId pB pN rxAck =
        Some (h',
              ethId\<lparr>BUFCDEC := BUFCDEC ethId +
                (if rxAck then length (filter (\<lambda>q. \<not> rx_nack (hdr (h q))) ns) else 0)\<rparr>,
              pB', DRV_ETHMAC_LIB_ListInit)
    \<and> dcpt_list h' pB' (bs @ tl ns @ [hd ns])
    \<and> hdr (h' (last bs)) = (hdr (h (hd ns)))\<lparr>EOWN := True\<rparr>
    \<and> pEDBuff (h' (last bs)) = pEDBuff (h (hd ns)) \<and> stat (h' (last bs)) = stat (h (hd ns))
    \<and> hdr (h' (hd ns)) = hdr_w_0 \<and> pEDBuff (h' (hd ns)) = 0
    \<and> (\<forall>q. q \<noteq> last bs \<and> q \<noteq> hd ns \<longrightarrow>
          hdr (h' q) = hdr (h q) \<and> pEDBuff (h' q) = pEDBuff (h q) \<and> stat (h' q) = stat (h q))
    \<and> (\<forall>q. q \<notin> set ns \<and> q \<noteq> last bs \<longrightarrow> h' q = h q)"
proof -
  let ?t = "last bs"
  let ?e2 = "ethId\<lparr>BUFCDEC := BUFCDEC ethId +
                (if rxAck then length (filter (\<lambda>q. \<not> rx_nack (hdr (h q))) (tl ns)) else 0)\<rparr>"
  obtain h8 pB' where
    link: "EthAppendBusyList_link pf h ethId pB pN rxAck =
             Some (h8, ?e2, pB', DRV_ETHMAC_LIB_ListInit, ?t)"
    and B8: "dcpt_list h8 pB' (bs @ tl ns @ [hd ns])"
    and t8: "hdr (h8 ?t) = (hdr (h (hd ns)))\<lparr>EOWN := False\<rparr>"
            "pEDBuff (h8 ?t) = pEDBuff (h (hd ns))" "stat (h8 ?t) = stat (h (hd ns))"
    and a8: "hdr (h8 (hd ns)) = hdr_w_0" "pEDBuff (h8 (hd ns)) = 0"
    and o8: "\<forall>q. q \<noteq> ?t \<and> q \<noteq> hd ns \<longrightarrow>
          hdr (h8 q) = hdr (h q) \<and> pEDBuff (h8 q) = pEDBuff (h q) \<and> stat (h8 q) = stat (h q)"
    and f8: "\<forall>q. q \<notin> set ns \<and> q \<noteq> ?t \<longrightarrow> h8 q = h q"
    using EthAppendBusyList_link_spec [OF B Bne N Nne disj, of pf ethId rxAck] by blast
  define h9 where "h9 = h8(?t := (h8 ?t)\<lparr>hdr := (hdr (h8 ?t))\<lparr>EOWN := True\<rparr>\<rparr>)"
  have tn: "?t \<noteq> hd ns"
    using dcpt_list_last [OF B Bne] disj Nne hd_in_set [OF Nne] by auto
  have cnt: "length (filter (\<lambda>q. \<not> rx_nack (hdr (h q))) ns) =
      (if rx_nack (hdr (h (hd ns))) then 0 else 1) + length (filter (\<lambda>q. \<not> rx_nack (hdr (h q))) (tl ns))"
    using Nne by (cases ns) auto
  have call: "EthAppendBusyList pf h ethId pB pN rxAck =
        Some (h9,
              ethId\<lparr>BUFCDEC := BUFCDEC ethId +
                (if rxAck then length (filter (\<lambda>q. \<not> rx_nack (hdr (h q))) ns) else 0)\<rparr>,
              pB', DRV_ETHMAC_LIB_ListInit)"
    unfolding EthAppendBusyList_def
    by (simp add: link Let_def h9_def [symmetric])
       (simp add: h9_def t8 cnt DRV_ETH_RxBufferCountDecrement_def)
  have B9: "dcpt_list h9 pB' (bs @ tl ns @ [hd ns])"
    by (rule dcpt_list_cong [OF B8]) (simp add: h9_def)
  show ?thesis
    using call B9 t8 a8 o8 f8 tn by (auto simp: h9_def)
qed

section \<open>Claims about the append protocol\<close>

text \<open>
  Claim C4. An RX append (\<open>rxAck\<close> true) of a new list \<open>ns\<close> to a non-empty busy
  list issues \<open>DRV_ETH_RxBufferCountDecrement\<close> as many times as \<open>ns\<close> has nodes
  whose \<open>rx_nack\<close> flag is clear: once for each such node, the head of \<open>ns\<close> (whose
  contents replace the former sentinel) included, and not for the new sentinel. No
  other register changes.
\<close>

theorem EthAppendBusyList_rx_decrements:
  assumes "dcpt_list h pB bs" and "bs \<noteq> []" and "dcpt_list h pN ns" and "ns \<noteq> []"
    and "set bs \<inter> set ns = {}"
  shows "\<exists>h' pB' pN'.
      EthAppendBusyList pf h ethId pB pN True =
        Some (h', ethId\<lparr>BUFCDEC := BUFCDEC ethId +
                    length (filter (\<lambda>q. \<not> rx_nack (hdr (h q))) ns)\<rparr>, pB', pN')"
  using EthAppendBusyList_spec [OF assms, of pf ethId True] by auto

theorem EthAppendBusyList_rx_decrements_witness:
  "dcpt_list heap_app \<lparr>head = 0x100, tail = 0x100\<rparr> [0x100]
   \<and> dcpt_list heap_app \<lparr>head = 0x200, tail = 0x300\<rparr> [0x200, 0x300]
   \<and> map (\<lambda>q. rx_nack (hdr (heap_app q))) [0x200, 0x300] = [False, True]
   \<and> map_option (\<lambda>(h', e', pB', pN'). e')
        (EthAppendBusyList kseg heap_app regs0 \<lparr>head = 0x100, tail = 0x100\<rparr>
           \<lparr>head = 0x200, tail = 0x300\<rparr> True)
       = Some (regs0\<lparr>BUFCDEC := 1\<rparr>)"
proof -
  have B: "dcpt_list heap_app \<lparr>head = 0x100, tail = 0x100\<rparr> [0x100]"
    by (simp add: dcpt_list_def heap_app_def node0_def)
  have N: "dcpt_list heap_app \<lparr>head = 0x200, tail = 0x300\<rparr> [0x200, 0x300]"
    by (simp add: dcpt_list_def heap_app_def node0_def)
  have f: "map (\<lambda>q. rx_nack (hdr (heap_app q))) [0x200, 0x300] = [False, True]"
    by (simp add: heap_app_def node0_def hdr_w_NPV_EOWN_def hdr_w_0_def)
  from EthAppendBusyList_rx_decrements [OF B _ N, of kseg regs0] f
  show ?thesis using B N by (auto simp: regs0_def)
qed






section \<open>Scheduling on well-formed lists\<close>

lemma EthTxSchedBuffer_spec:
  assumes F: "dcpt_list (mem s) (EnetTxFreePtr s) fs" and L: "dcpt_list (mem s) pList ps"
    and d: "set fs \<inter> set ps = {}"
  shows "\<exists>s' pList' res. EthTxSchedBuffer pf s pBuf nByt pList = Some (s', pList', res)
     \<and> s' = s\<lparr>mem := mem s', EnetTxFreePtr := EnetTxFreePtr s'\<rparr>
     \<and> (res = DRV_ETHMAC_RES_OK \<longrightarrow>
           fs \<noteq> [] \<and> dcpt_list (mem s') (EnetTxFreePtr s') (tl fs)
           \<and> dcpt_list (mem s') pList' (ps @ [hd fs])
           \<and> pEDBuff (mem s' (hd fs)) = KVA_TO_PA pf pBuf
           \<and> hdr (mem s' (hd fs)) = (hdr_w_NPV_EOWN nByt)\<lparr>kv0 := IS_KVA0 pf pBuf\<rparr>
           \<and> (\<forall>q. q \<noteq> hd fs \<and> q \<notin> set ps \<longrightarrow> mem s' q = mem s q))
     \<and> (res \<noteq> DRV_ETHMAC_RES_OK \<longrightarrow> s' = s \<and> pList' = pList
           \<and> (res = DRV_ETHMAC_RES_NO_DESCRIPTORS \<and> fs = [] \<or> res = DRV_ETHMAC_RES_USPACE_ERR))"
proof (cases "IS_KVA pf pBuf")
  case False
  then show ?thesis by (simp add: EthTxSchedBuffer_def)
next
  case kva: True
  show ?thesis
  proof (cases fs)
    case Nil
    then have "DRV_ETHMAC_LIB_ListRemoveHead (mem s) (EnetTxFreePtr s) = (0, EnetTxFreePtr s)"
      using F ListRemoveHead_Nil by simp
    with kva Nil show ?thesis by (simp add: EthTxSchedBuffer_def)
  next
    case (Cons a fs')
    obtain pF where rm: "DRV_ETHMAC_LIB_ListRemoveHead (mem s) (EnetTxFreePtr s) = (a, pF)"
      and F': "dcpt_list (mem s) pF fs'"
      using ListRemoveHead_Cons [OF F [unfolded Cons]] by blast
    have a: "a \<noteq> 0" "a \<notin> set ps" "a \<notin> set fs'"
      using dcpt_list_not0 [OF F] dcpt_list_distinct [OF F] d Cons by auto
    let ?h = "mem s"
    let ?h1 = "?h(a := (?h a)\<lparr>pEDBuff := KVA_TO_PA pf pBuf\<rparr>)"
    let ?h2 = "?h1(a := (?h1 a)\<lparr>hdr := hdr_w_NPV_EOWN nByt\<rparr>)"
    let ?h3 = "(if IS_KVA0 pf pBuf
                then ?h2(a := (?h2 a)\<lparr>hdr := (hdr (?h2 a))\<lparr>kv0 := True\<rparr>\<rparr>) else ?h2)"
    define h3 where "h3 = ?h3"
    have h3a: "pEDBuff (h3 a) = KVA_TO_PA pf pBuf"
      "hdr (h3 a) = (hdr_w_NPV_EOWN nByt)\<lparr>kv0 := IS_KVA0 pf pBuf\<rparr>"
      by (simp_all add: h3_def hdr_w_NPV_EOWN_def hdr_w_0_def)
    have h3n: "\<And>q. next (h3 q) = next (?h q)" by (simp add: h3_def)
    have h3o: "\<And>q. q \<noteq> a \<Longrightarrow> h3 q = ?h q" by (simp add: h3_def)
    have L3: "dcpt_list h3 pList ps" by (rule dcpt_list_cong [OF L]) (simp add: h3n)
    have F3: "dcpt_list h3 pF fs'" by (rule dcpt_list_cong [OF F']) (simp add: h3n)
    obtain h4 pList' where add: "DRV_ETHMAC_LIB_ListAddTail pf h3 pList a = Some (h4, pList')"
      and L4: "dcpt_list h4 pList' (ps @ [a])" and sp: "same_payload h3 h4"
      and fr: "\<forall>q. q \<noteq> a \<and> q \<noteq> tail pList \<longrightarrow> h4 q = h3 q"
      using ListAddTail_spec [OF L3 a(1) a(2), of pf] by blast
    have tl: "tail pList = 0 \<or> tail pList \<in> set ps" by (rule dcpt_list_tail [OF L])
    have t0: "tail pList = 0 \<Longrightarrow> h4 = h3(a := (h3 a)\<lparr>next := 0\<rparr>)"
      using add a by (simp add: DRV_ETHMAC_LIB_ListAddTail_def Let_def)
    have fr': "\<forall>q. q \<noteq> a \<and> q \<notin> set ps \<longrightarrow> h4 q = ?h q"
    proof (intro allI impI)
      fix q assume q: "q \<noteq> a \<and> q \<notin> set ps"
      show "h4 q = ?h q"
      proof (cases "tail pList = 0")
        case True
        then show ?thesis using t0 q h3o by simp
      next
        case False
        then have "q \<noteq> tail pList" using tl q by auto
        then show ?thesis using fr q h3o by simp
      qed
    qed
    have F4: "dcpt_list h4 pF fs'"
    proof (rule dcpt_list_cong [OF F3])
      fix q assume "q \<in> set fs'"
      then have "q \<noteq> a" "q \<notin> set ps" using a d Cons by auto
      then show "next (h4 q) = next (h3 q)" using fr' h3o by simp
    qed
    have res: "EthTxSchedBuffer pf s pBuf nByt pList =
            Some (s\<lparr>mem := h4, EnetTxFreePtr := pF\<rparr>, pList', DRV_ETHMAC_RES_OK)"
      unfolding EthTxSchedBuffer_def Let_def
      using kva a rm add [unfolded h3_def] by simp
    have p4: "pEDBuff (h4 a) = pEDBuff (h3 a)" "hdr (h4 a) = hdr (h3 a)"
      using sp by (simp_all add: same_payload_def)
    show ?thesis using res F4 L4 p4 h3a fr' Cons by simp
  qed
qed


lemma TxSendPacket_loop_spec:
  assumes F: "dcpt_list (mem s) (EnetTxFreePtr s) fs" and L: "dcpt_list (mem s) pList ps"
    and d: "set fs \<inter> set ps = {}"
  shows "\<exists>s1 pL1 res1 k. TxSendPacket_loop pf s pList res pPkt = Some (s1, pL1, res1)
     \<and> k \<le> length fs
     \<and> s1 = s\<lparr>mem := mem s1, EnetTxFreePtr := EnetTxFreePtr s1\<rparr>
     \<and> dcpt_list (mem s1) (EnetTxFreePtr s1) (drop k fs)
     \<and> dcpt_list (mem s1) pL1 (ps @ take k fs)
     \<and> (\<forall>q. q \<notin> set fs \<and> q \<notin> set ps \<longrightarrow> mem s1 q = mem s q)
     \<and> (res = DRV_ETHMAC_RES_OK \<and> res1 = DRV_ETHMAC_RES_NO_DESCRIPTORS \<longrightarrow> k = length fs)"
  using assms
proof (induction pPkt arbitrary: s pList res ps fs)
  case Nil
  show ?case
    using Nil.prems
    by (intro exI [of _ s] exI [of _ pList] exI [of _ res] exI [of _ "0::nat"]) auto
next
  case (Cons d pPkt)
  show ?case
  proof (cases "pBuff d \<noteq> 0 \<and> nBytes d \<noteq> 0 \<and> res = DRV_ETHMAC_RES_OK")
    case False
    then have "TxSendPacket_loop pf s pList res (d # pPkt) = Some (s, pList, res)" by auto
    then show ?thesis
      using Cons.prems
      by (intro exI [of _ s] exI [of _ pList] exI [of _ res] exI [of _ "0::nat"]) auto
  next
    case go: True
    obtain s' pList' r where
      sb: "EthTxSchedBuffer pf s (pBuff d) (nBytes d) pList = Some (s', pList', r)"
      and st: "s' = s\<lparr>mem := mem s', EnetTxFreePtr := EnetTxFreePtr s'\<rparr>"
      and ok: "r = DRV_ETHMAC_RES_OK \<longrightarrow>
           fs \<noteq> [] \<and> dcpt_list (mem s') (EnetTxFreePtr s') (tl fs)
           \<and> dcpt_list (mem s') pList' (ps @ [hd fs])
           \<and> (\<forall>q. q \<noteq> hd fs \<and> q \<notin> set ps \<longrightarrow> mem s' q = mem s q)"
      and ko: "r \<noteq> DRV_ETHMAC_RES_OK \<longrightarrow> s' = s \<and> pList' = pList
           \<and> (r = DRV_ETHMAC_RES_NO_DESCRIPTORS \<and> fs = [] \<or> r = DRV_ETHMAC_RES_USPACE_ERR)"
      using EthTxSchedBuffer_spec [OF Cons.prems, of pf "pBuff d" "nBytes d"] by blast
    have step: "TxSendPacket_loop pf s pList res (d # pPkt) = TxSendPacket_loop pf s' pList' r pPkt"
      using go sb by simp
    show ?thesis
    proof (cases "r = DRV_ETHMAC_RES_OK")
      case True
      with ok have fne: "fs \<noteq> []" and F': "dcpt_list (mem s') (EnetTxFreePtr s') (tl fs)"
        and L': "dcpt_list (mem s') pList' (ps @ [hd fs])"
        and fr: "\<forall>q. q \<noteq> hd fs \<and> q \<notin> set ps \<longrightarrow> mem s' q = mem s q" by simp_all
      have dd: "distinct fs" by (rule dcpt_list_distinct [OF Cons.prems(1)])
      have d': "set (tl fs) \<inter> set (ps @ [hd fs]) = {}"
        using Cons.prems(3) dd fne by (cases fs) auto
      from Cons.IH [OF F' L' d', of r]
      obtain s1 pL1 res1 k where
        lp: "TxSendPacket_loop pf s' pList' r pPkt = Some (s1, pL1, res1)"
        and k: "k \<le> length (tl fs)"
        and st1: "s1 = s'\<lparr>mem := mem s1, EnetTxFreePtr := EnetTxFreePtr s1\<rparr>"
        and F1: "dcpt_list (mem s1) (EnetTxFreePtr s1) (drop k (tl fs))"
        and L1: "dcpt_list (mem s1) pL1 ((ps @ [hd fs]) @ take k (tl fs))"
        and fr1: "\<forall>q. q \<notin> set (tl fs) \<and> q \<notin> set (ps @ [hd fs]) \<longrightarrow> mem s1 q = mem s' q"
        and nd: "r = DRV_ETHMAC_RES_OK \<and> res1 = DRV_ETHMAC_RES_NO_DESCRIPTORS \<longrightarrow> k = length (tl fs)"
        by blast
      have e1: "drop (Suc k) fs = drop k (tl fs)" "ps @ take (Suc k) fs = (ps @ [hd fs]) @ take k (tl fs)"
        using fne by (cases fs; simp)+
      have "s1 = s\<lparr>mem := mem s1, EnetTxFreePtr := EnetTxFreePtr s1\<rparr>"
        using st st1 by (metis DRV_ETHMAC_INSTANCE_DCPT.update_convs(1,2) DRV_ETHMAC_INSTANCE_DCPT.surjective
            DRV_ETHMAC_INSTANCE_DCPT.select_convs)
      moreover have "\<forall>q. q \<notin> set fs \<and> q \<notin> set ps \<longrightarrow> mem s1 q = mem s q"
        using fr fr1 fne by (cases fs) auto
      moreover have "Suc k \<le> length fs" using k fne by (cases fs) auto
      moreover have "res1 = DRV_ETHMAC_RES_NO_DESCRIPTORS \<longrightarrow> Suc k = length fs"
        using nd True fne by (cases fs) auto
      ultimately show ?thesis
        using step lp F1 L1 e1
        by (intro exI [of _ s1] exI [of _ pL1] exI [of _ res1] exI [of _ "Suc k"]) simp
    next
      case False
      with ko have same: "s' = s" "pList' = pList"
        and why: "r = DRV_ETHMAC_RES_NO_DESCRIPTORS \<and> fs = [] \<or> r = DRV_ETHMAC_RES_USPACE_ERR"
        by simp_all
      have "TxSendPacket_loop pf s pList r pPkt = Some (s, pList, r)"
        using False by (cases pPkt) auto
      then have "TxSendPacket_loop pf s pList res (d # pPkt) = Some (s, pList, r)"
        using step same by simp
      then show ?thesis
        using Cons.prems why
        by (intro exI [of _ s] exI [of _ pList] exI [of _ r] exI [of _ "0::nat"]) auto
    qed
  qed
qed


lemma RxBuffersAppend_prepare_facts:
  "next (RxBuffersAppend_prepare pf rxFlags h a pBuf q) = next (h q)"
  "q \<noteq> a \<Longrightarrow> RxBuffersAppend_prepare pf rxFlags h a pBuf q = h q"
  "pEDBuff (RxBuffersAppend_prepare pf rxFlags h a pBuf a) = KVA_TO_PA pf pBuf"
  "hdr (RxBuffersAppend_prepare pf rxFlags h a pBuf a) =
     (hdr_w_NPV_EOWN 0)\<lparr>sticky := DRV_ETHMAC_BUFF_FLAG_RX_STICKY \<in> rxFlags,
                         rx_nack := DRV_ETHMAC_BUFF_FLAG_RX_UNACK \<in> rxFlags\<rparr>"
  by (simp_all add: RxBuffersAppend_prepare_def Let_def hdr_w_NPV_EOWN_def hdr_w_0_def)

lemma inst_upd_eq:
  "s' = s\<lparr>mem := mem s', EnetRxFreePtr := EnetRxFreePtr s'\<rparr> \<Longrightarrow>
   s1 = s'\<lparr>mem := mem s1, EnetRxFreePtr := EnetRxFreePtr s1\<rparr> \<Longrightarrow>
   s1 = s\<lparr>mem := mem s1, EnetRxFreePtr := EnetRxFreePtr s1\<rparr>"
  by (cases s, cases s', cases s1) simp

lemma RxBuffersAppend_loop_spec:
  assumes F: "dcpt_list (mem s) (EnetRxFreePtr s) fs" and L: "dcpt_list (mem s) pNew ps"
    and d: "set fs \<inter> set ps = {}"
  shows "\<exists>res s1 pN1 pB nB k.
       RxBuffersAppend_loop pf rxFlags s pNew ppBuff nBuffs = Some (res, s1, pN1, pB, nB)
     \<and> k \<le> length fs
     \<and> s1 = s\<lparr>mem := mem s1, EnetRxFreePtr := EnetRxFreePtr s1\<rparr>
     \<and> dcpt_list (mem s1) pN1 (ps @ take k fs)
     \<and> (\<forall>q. q \<notin> set fs \<and> q \<notin> set ps \<longrightarrow> mem s1 q = mem s q)
     \<and> (res = DRV_ETHMAC_RES_OK \<longrightarrow>
           (pB = 0 \<or> nB = 0) \<and> dcpt_list (mem s1) (EnetRxFreePtr s1) (drop k fs))
     \<and> (res = DRV_ETHMAC_RES_NO_DESCRIPTORS \<longrightarrow>
           pB \<noteq> 0 \<and> nB \<noteq> 0 \<and> k = length fs \<and> dcpt_list (mem s1) (EnetRxFreePtr s1) [])
     \<and> (res = DRV_ETHMAC_RES_USPACE_ERR \<longrightarrow>
           pB \<noteq> 0 \<and> nB \<noteq> 0 \<and> k < length fs
           \<and> dcpt_list (mem s1) (EnetRxFreePtr s1) (drop (Suc k) fs))
     \<and> (res = DRV_ETHMAC_RES_OK \<or> res = DRV_ETHMAC_RES_NO_DESCRIPTORS
          \<or> res = DRV_ETHMAC_RES_USPACE_ERR)"
  using assms
proof (induction ppBuff arbitrary: s pNew ps fs nBuffs)
  case Nil
  show ?case
    using Nil.prems
    by (intro exI [of _ DRV_ETHMAC_RES_OK] exI [of _ s] exI [of _ pNew] exI [of _ "0::addr"]
        exI [of _ nBuffs] exI [of _ "0::nat"]) auto
next
  case (Cons pBuf ppBuff)
  show ?case
  proof (cases "pBuf \<noteq> 0 \<and> nBuffs \<noteq> 0")
    case False
    then have "RxBuffersAppend_loop pf rxFlags s pNew (pBuf # ppBuff) nBuffs =
                 Some (DRV_ETHMAC_RES_OK, s, pNew, pBuf, nBuffs)" by auto
    then show ?thesis
      using Cons.prems False
      by (intro exI [of _ DRV_ETHMAC_RES_OK] exI [of _ s] exI [of _ pNew] exI [of _ pBuf]
          exI [of _ nBuffs] exI [of _ "0::nat"]) auto
  next
    case go: True
    show ?thesis
    proof (cases fs)
      case Nil
      then have "DRV_ETHMAC_LIB_ListRemoveHead (mem s) (EnetRxFreePtr s) = (0, EnetRxFreePtr s)"
        using Cons.prems(1) ListRemoveHead_Nil by simp
      then have "RxBuffersAppend_loop pf rxFlags s pNew (pBuf # ppBuff) nBuffs =
                 Some (DRV_ETHMAC_RES_NO_DESCRIPTORS, s, pNew, pBuf, nBuffs)"
        using go by simp
      then show ?thesis
        using Cons.prems go Nil
        by (intro exI [of _ DRV_ETHMAC_RES_NO_DESCRIPTORS] exI [of _ s] exI [of _ pNew]
            exI [of _ pBuf] exI [of _ nBuffs] exI [of _ "0::nat"]) auto
    next
      case fs: (Cons a fs')
      obtain pF where rm: "DRV_ETHMAC_LIB_ListRemoveHead (mem s) (EnetRxFreePtr s) = (a, pF)"
        and F': "dcpt_list (mem s) pF fs'"
        using ListRemoveHead_Cons [OF Cons.prems(1) [unfolded fs]] by blast
      have a: "a \<noteq> 0" "a \<notin> set ps" "a \<notin> set fs'"
        using dcpt_list_not0 [OF Cons.prems(1)] dcpt_list_distinct [OF Cons.prems(1)]
          Cons.prems(3) fs by auto
      define h4 where "h4 = RxBuffersAppend_prepare pf rxFlags (mem s) a pBuf"
      have h4n: "\<And>q. next (h4 q) = next (mem s q)" and h4o: "\<And>q. q \<noteq> a \<Longrightarrow> h4 q = mem s q"
        by (simp_all add: h4_def RxBuffersAppend_prepare_facts)
      show ?thesis
      proof (cases "\<not> IS_KVA0 pf pBuf \<and> \<not> IS_KVA pf pBuf")
        case True
        then have eq: "RxBuffersAppend_loop pf rxFlags s pNew (pBuf # ppBuff) nBuffs =
            Some (DRV_ETHMAC_RES_USPACE_ERR, s\<lparr>mem := h4, EnetRxFreePtr := pF\<rparr>, pNew, pBuf, nBuffs)"
          using go rm a by (simp add: h4_def Let_def)
        have "dcpt_list h4 pNew ps" by (rule dcpt_list_cong [OF Cons.prems(2)]) (simp add: h4n)
        moreover have "dcpt_list h4 pF fs'" by (rule dcpt_list_cong [OF F']) (simp add: h4n)
        ultimately show ?thesis
          using eq go fs h4o
          by (intro exI [of _ DRV_ETHMAC_RES_USPACE_ERR] exI [of _ "s\<lparr>mem := h4, EnetRxFreePtr := pF\<rparr>"]
              exI [of _ pNew] exI [of _ pBuf] exI [of _ nBuffs] exI [of _ "0::nat"]) auto
      next
        case valid: False
        define hX where "hX = (if IS_KVA0 pf pBuf
            then h4(a := (h4 a)\<lparr>hdr := (hdr (h4 a))\<lparr>kv0 := True\<rparr>\<rparr>) else h4)"
        have hXn: "\<And>q. next (hX q) = next (mem s q)" and hXo: "\<And>q. q \<noteq> a \<Longrightarrow> hX q = mem s q"
          by (simp_all add: hX_def h4n h4o)
        have LX: "dcpt_list hX pNew ps" by (rule dcpt_list_cong [OF Cons.prems(2)]) (simp add: hXn)
        have FX: "dcpt_list hX pF fs'" by (rule dcpt_list_cong [OF F']) (simp add: hXn)
        obtain h6 pNew' where add: "DRV_ETHMAC_LIB_ListAddTail pf hX pNew a = Some (h6, pNew')"
          and L6: "dcpt_list h6 pNew' (ps @ [a])"
          and fr: "\<forall>q. q \<noteq> a \<and> q \<noteq> tail pNew \<longrightarrow> h6 q = hX q"
          using ListAddTail_spec [OF LX a(1) a(2), of pf] by blast
        have tl: "tail pNew = 0 \<or> tail pNew \<in> set ps" by (rule dcpt_list_tail [OF Cons.prems(2)])
        have t0: "tail pNew = 0 \<Longrightarrow> h6 = hX(a := (hX a)\<lparr>next := 0\<rparr>)"
          using add a by (simp add: DRV_ETHMAC_LIB_ListAddTail_def Let_def)
        have fr': "\<forall>q. q \<noteq> a \<and> q \<notin> set ps \<longrightarrow> h6 q = mem s q"
        proof (intro allI impI)
          fix q assume q: "q \<noteq> a \<and> q \<notin> set ps"
          show "h6 q = mem s q"
          proof (cases "tail pNew = 0")
            case True
            then show ?thesis using t0 q hXo by simp
          next
            case False
            then have "q \<noteq> tail pNew" using tl q by auto
            then show ?thesis using fr q hXo by simp
          qed
        qed
        have F6: "dcpt_list h6 pF fs'"
        proof (rule dcpt_list_cong [OF FX])
          fix q assume "q \<in> set fs'"
          then have "q \<noteq> a" "q \<notin> set ps" using a Cons.prems(3) fs by auto
          then show "next (h6 q) = next (hX q)" using fr' hXo by simp
        qed
        let ?s' = "s\<lparr>mem := h6, EnetRxFreePtr := pF\<rparr>"
        have step: "RxBuffersAppend_loop pf rxFlags s pNew (pBuf # ppBuff) nBuffs =
            RxBuffersAppend_loop pf rxFlags ?s' pNew' ppBuff (nBuffs - 1)"
          using go rm a valid add by (auto simp: hX_def h4_def Let_def)
        have F6': "dcpt_list (mem ?s') (EnetRxFreePtr ?s') fs'" using F6 by simp
        have L6': "dcpt_list (mem ?s') pNew' (ps @ [a])" using L6 by simp
        have d': "set fs' \<inter> set (ps @ [a]) = {}" using Cons.prems(3) a fs by auto
        from Cons.IH [OF F6' L6' d', of "nBuffs - 1"]
        obtain res s1 pN1 pB nB k where
          lp: "RxBuffersAppend_loop pf rxFlags ?s' pNew' ppBuff (nBuffs - 1) = Some (res, s1, pN1, pB, nB)"
          and k: "k \<le> length fs'"
          and st1: "s1 = ?s'\<lparr>mem := mem s1, EnetRxFreePtr := EnetRxFreePtr s1\<rparr>"
          and L1: "dcpt_list (mem s1) pN1 ((ps @ [a]) @ take k fs')"
          and fr1: "\<forall>q. q \<notin> set fs' \<and> q \<notin> set (ps @ [a]) \<longrightarrow> mem s1 q = mem ?s' q"
          and ok: "res = DRV_ETHMAC_RES_OK \<longrightarrow>
                (pB = 0 \<or> nB = 0) \<and> dcpt_list (mem s1) (EnetRxFreePtr s1) (drop k fs')"
          and nd: "res = DRV_ETHMAC_RES_NO_DESCRIPTORS \<longrightarrow>
                pB \<noteq> 0 \<and> nB \<noteq> 0 \<and> k = length fs' \<and> dcpt_list (mem s1) (EnetRxFreePtr s1) []"
          and us: "res = DRV_ETHMAC_RES_USPACE_ERR \<longrightarrow>
                pB \<noteq> 0 \<and> nB \<noteq> 0 \<and> k < length fs'
                \<and> dcpt_list (mem s1) (EnetRxFreePtr s1) (drop (Suc k) fs')"
          and alt: "res = DRV_ETHMAC_RES_OK \<or> res = DRV_ETHMAC_RES_NO_DESCRIPTORS
                \<or> res = DRV_ETHMAC_RES_USPACE_ERR"
          by blast
        have st: "s1 = s\<lparr>mem := mem s1, EnetRxFreePtr := EnetRxFreePtr s1\<rparr>"
          using st1 by (cases s, cases s1) simp
        have frs: "\<forall>q. q \<notin> set fs \<and> q \<notin> set ps \<longrightarrow> mem s1 q = mem s q"
          using fr1 fr' fs by auto
        show ?thesis
          using step lp k st L1 frs ok nd us alt fs
          by (intro exI [of _ res] exI [of _ s1] exI [of _ pN1] exI [of _ pB] exI [of _ nB]
              exI [of _ "Suc k"]) auto
      qed
    qed
  qed
qed


lemma EthTxSchedList_returns:
  assumes B: "dcpt_list (mem s) (EnetTxBusyPtr s) bs" and Bne: "bs \<noteq> []"
    and N: "dcpt_list (mem s) pList ns" and d: "set bs \<inter> set ns = {}"
  shows "\<exists>s'. EthTxSchedList pf s pList = Some s'"
proof (cases "ns = []")
  case True
  then have "head pList = 0" using N by (simp add: dcpt_list_def)
  then show ?thesis by (simp add: EthTxSchedList_def DRV_ETHMAC_LIB_ListIsEmpty_def)
next
  case False
  then have hd: "head pList \<noteq> 0" using dcpt_list_empty_iff [OF N] by simp
  have tl: "tail pList \<noteq> 0" using dcpt_list_last [OF N False] by simp
  let ?h = "mem s"
  let ?h1 = "?h(head pList := (?h (head pList))\<lparr>hdr := (hdr (?h (head pList)))\<lparr>SOP := True\<rparr>\<rparr>)"
  let ?h2 = "?h1(tail pList := (?h1 (tail pList))\<lparr>hdr := (hdr (?h1 (tail pList)))\<lparr>EOP := True\<rparr>\<rparr>)"
  have n2: "\<And>q. next (?h2 q) = next (?h q)" by simp
  have B2: "dcpt_list ?h2 (EnetTxBusyPtr s) bs" by (rule dcpt_list_cong [OF B]) (simp only: n2)
  have N2: "dcpt_list ?h2 pList ns" by (rule dcpt_list_cong [OF N]) (simp only: n2)
  obtain h' e' pB' pN' where
    "EthAppendBusyList pf ?h2 (pEthReg s) (EnetTxBusyPtr s) pList False = Some (h', e', pB', pN')"
    using EthAppendBusyList_spec [OF B2 Bne N2 False d, of pf "pEthReg s" False] by blast
  then show ?thesis
    using hd tl by (simp add: EthTxSchedList_def DRV_ETHMAC_LIB_ListIsEmpty_def Let_def)
qed

lemma TxSend_finish_spec:
  assumes F1: "dcpt_list (mem s1) (EnetTxFreePtr s1) xs" and L1: "dcpt_list (mem s1) pL1 ys"
    and dxy: "set xs \<inter> set ys = {}"
    and B: "dcpt_list (mem s1) (EnetTxBusyPtr s1) bs" and Bne: "bs \<noteq> []"
    and dby: "set bs \<inter> set ys = {}"
  shows "\<exists>s'. TxSend_finish pf s1 pL1 res = Some (s', res)
     \<and> (res \<noteq> DRV_ETHMAC_RES_OK \<longrightarrow>
           dcpt_list (mem s') (EnetTxFreePtr s') (xs @ ys)
           \<and> s' = s1\<lparr>mem := mem s', EnetTxFreePtr := EnetTxFreePtr s'\<rparr>
           \<and> (\<forall>q. q \<notin> set xs \<and> q \<notin> set ys \<and> q \<noteq> 0 \<longrightarrow> mem s' q = mem s1 q))"
proof (cases "res = DRV_ETHMAC_RES_OK")
  case True
  then show ?thesis
    using EthTxSchedList_returns [OF B Bne L1 dby, of pf] by (auto simp: TxSend_finish_def)
next
  case False
  show ?thesis
  proof (cases "ys = []")
    case True
    then have "head pL1 = 0" using L1 by (simp add: dcpt_list_def)
    then show ?thesis
      using False True F1 by (simp add: TxSend_finish_def DRV_ETHMAC_LIB_ListIsEmpty_def)
  next
    case ne: False
    then have hd: "head pL1 \<noteq> 0" using dcpt_list_empty_iff [OF L1] by simp
    obtain h' pL' where
      app: "DRV_ETHMAC_LIB_ListAppendTail pf (mem s1) (EnetTxFreePtr s1) pL1 =
              Some (h', pL', DRV_ETHMAC_LIB_ListInit)"
      and F': "dcpt_list h' pL' (xs @ ys)"
      and fr: "\<forall>q. q \<notin> set ys \<and> q \<noteq> tail (EnetTxFreePtr s1) \<longrightarrow> h' q = mem s1 q"
      using ListAppendTail_spec [OF F1 L1 dxy, of pf] by blast
    have tl: "tail (EnetTxFreePtr s1) = 0 \<or> tail (EnetTxFreePtr s1) \<in> set xs"
      by (rule dcpt_list_tail [OF F1])
    have "\<forall>q. q \<notin> set xs \<and> q \<notin> set ys \<and> q \<noteq> 0 \<longrightarrow> h' q = mem s1 q"
      using fr tl by auto
    then show ?thesis
      using False hd app F' by (simp add: TxSend_finish_def DRV_ETHMAC_LIB_ListIsEmpty_def)
  qed
qed

lemma take_drop_disjoint: "distinct fs \<Longrightarrow> set (drop k fs) \<inter> set (take k fs) = {}"
  using set_take_disj_set_drop_if_distinct [of fs k k] by auto

lemma RxBuffersAppend_finish_spec:
  assumes F: "dcpt_list (mem s) (EnetRxFreePtr s) fs" 
    and B: "dcpt_list (mem s) (EnetRxBusyPtr s) bs" and Bne: "bs \<noteq> []"
    and d: "set fs \<inter> set bs = {}"
  shows "\<exists>s' res. DRV_ETHMAC_LibRxBuffersAppend pf s ppBuff nBuffs rxFlags = Some (s', res)
     \<and> (res = DRV_ETHMAC_RES_NO_DESCRIPTORS \<longrightarrow>
           dcpt_list (mem s') (EnetRxFreePtr s') fs
           \<and> s' = s\<lparr>mem := mem s', EnetRxFreePtr := EnetRxFreePtr s'\<rparr>
           \<and> (\<forall>q. q \<notin> set fs \<and> q \<noteq> 0 \<longrightarrow> mem s' q = mem s q))"
proof -
  let ?n = "if nBuffs = 0 then 0x7fffffff else nBuffs"
  have L0: "dcpt_list (mem s) DRV_ETHMAC_LIB_ListInit []" by (rule ListInit_list)
  from RxBuffersAppend_loop_spec [OF F L0, of pf rxFlags ppBuff ?n]
  obtain res s1 pN1 pB nB k where
    lp: "RxBuffersAppend_loop pf rxFlags s DRV_ETHMAC_LIB_ListInit ppBuff ?n = Some (res, s1, pN1, pB, nB)"
    and k: "k \<le> length fs"
    and st: "s1 = s\<lparr>mem := mem s1, EnetRxFreePtr := EnetRxFreePtr s1\<rparr>"
    and L1: "dcpt_list (mem s1) pN1 (take k fs)"
    and fr: "\<forall>q. q \<notin> set fs \<longrightarrow> mem s1 q = mem s q"
    and ok: "res = DRV_ETHMAC_RES_OK \<longrightarrow>
          (pB = 0 \<or> nB = 0) \<and> dcpt_list (mem s1) (EnetRxFreePtr s1) (drop k fs)"
    and nd: "res = DRV_ETHMAC_RES_NO_DESCRIPTORS \<longrightarrow>
          pB \<noteq> 0 \<and> nB \<noteq> 0 \<and> k = length fs \<and> dcpt_list (mem s1) (EnetRxFreePtr s1) []"
    and us: "res = DRV_ETHMAC_RES_USPACE_ERR \<longrightarrow>
          pB \<noteq> 0 \<and> nB \<noteq> 0 \<and> k < length fs
          \<and> dcpt_list (mem s1) (EnetRxFreePtr s1) (drop (Suc k) fs)"
    and alt: "res = DRV_ETHMAC_RES_OK \<or> res = DRV_ETHMAC_RES_NO_DESCRIPTORS
          \<or> res = DRV_ETHMAC_RES_USPACE_ERR"
    by auto
  have dfs: "distinct fs" by (rule dcpt_list_distinct [OF F])
  have busy1: "EnetRxBusyPtr s1 = EnetRxBusyPtr s" "pEthReg s1 = pEthReg s"
    using st by (cases s, cases s1, simp)+
  have B1: "dcpt_list (mem s1) (EnetRxBusyPtr s1) bs"
    unfolding busy1 by (rule dcpt_list_cong [OF B]) (use fr d in auto)
  consider (OK) "res = DRV_ETHMAC_RES_OK" | (ND) "res = DRV_ETHMAC_RES_NO_DESCRIPTORS"
    | (US) "res = DRV_ETHMAC_RES_USPACE_ERR" using alt by blast
  then show ?thesis
  proof cases
    case OK
    with ok have ex: "pB = 0 \<or> nB = 0" by simp
    show ?thesis
    proof (cases "take k fs = []")
      case True
      then have "head pN1 = 0" using dcpt_list_empty_iff [OF L1] by blast
      then show ?thesis
        using lp ex OK
        by (auto simp: DRV_ETHMAC_LibRxBuffersAppend_def DRV_ETHMAC_LIB_ListIsEmpty_def)
    next
      case False
      then have hd: "head pN1 \<noteq> 0" using dcpt_list_empty_iff [OF L1] by simp
      have "set bs \<inter> set (take k fs) = {}" using d by (auto dest: in_set_takeD)
      from EthAppendBusyList_spec [OF B1 Bne L1 False this, of pf "pEthReg s1" True]
      obtain h' e' pB' pN' where
        "EthAppendBusyList pf (mem s1) (pEthReg s1) (EnetRxBusyPtr s1) pN1 True = Some (h', e', pB', pN')"
        by blast
      then show ?thesis
        using lp ex OK hd
        by (auto simp: DRV_ETHMAC_LibRxBuffersAppend_def DRV_ETHMAC_LIB_ListIsEmpty_def Let_def)
    qed
  next
    case ND
    with nd have ex: "pB \<noteq> 0" "nB \<noteq> 0" and kl: "k = length fs"
      and F1: "dcpt_list (mem s1) (EnetRxFreePtr s1) []" by simp_all
    have L1': "dcpt_list (mem s1) pN1 fs" using L1 kl by simp
    obtain h' pL' where
      app: "DRV_ETHMAC_LIB_ListAppendTail pf (mem s1) (EnetRxFreePtr s1) pN1 =
              Some (h', pL', DRV_ETHMAC_LIB_ListInit)"
      and F': "dcpt_list h' pL' ([] @ fs)"
      and fr2: "\<forall>q. q \<notin> set fs \<and> q \<noteq> tail (EnetRxFreePtr s1) \<longrightarrow> h' q = mem s1 q"
      using ListAppendTail_spec [OF F1 L1', of pf] by auto
    have "tail (EnetRxFreePtr s1) = 0" using F1 by (simp add: dcpt_list_def)
    then have frs: "\<forall>q. q \<notin> set fs \<and> q \<noteq> 0 \<longrightarrow> h' q = mem s q" using fr fr2 by auto
    have "DRV_ETHMAC_LibRxBuffersAppend pf s ppBuff nBuffs rxFlags =
            Some (s1\<lparr>mem := h', EnetRxFreePtr := pL'\<rparr>, DRV_ETHMAC_RES_NO_DESCRIPTORS)"
      using lp ex ND app by (simp add: DRV_ETHMAC_LibRxBuffersAppend_def)
    moreover have "s1\<lparr>mem := h', EnetRxFreePtr := pL'\<rparr> = s\<lparr>mem := h', EnetRxFreePtr := pL'\<rparr>"
      using st by (cases s, cases s1) simp
    ultimately show ?thesis using F' frs by simp
  next
    case US
    with us have ex: "pB \<noteq> 0" "nB \<noteq> 0" and kl: "k < length fs"
      and F1: "dcpt_list (mem s1) (EnetRxFreePtr s1) (drop (Suc k) fs)" by simp_all
    have "set (drop (Suc k) fs) \<inter> set (take k fs) = {}"
      using set_take_disj_set_drop_if_distinct [OF dfs, of k "Suc k"] by auto
    from ListAppendTail_spec [OF F1 L1 this, of pf]
    obtain h' pL' where
      "DRV_ETHMAC_LIB_ListAppendTail pf (mem s1) (EnetRxFreePtr s1) pN1 =
              Some (h', pL', DRV_ETHMAC_LIB_ListInit)" by blast
    then show ?thesis
      using lp ex US by (simp add: DRV_ETHMAC_LibRxBuffersAppend_def)
  qed
qed

lemma TxSendPacket_spec:
  assumes F: "dcpt_list (mem s) (EnetTxFreePtr s) tfs"
    and B: "dcpt_list (mem s) (EnetTxBusyPtr s) tbs" and Bne: "tbs \<noteq> []"
    and d: "set tfs \<inter> set tbs = {}"
  shows "\<exists>s' res. DRV_ETHMAC_LibTxSendPacket pf s pPkt = Some (s', res)
     \<and> (res = DRV_ETHMAC_RES_NO_DESCRIPTORS \<longrightarrow>
           dcpt_list (mem s') (EnetTxFreePtr s') tfs
           \<and> s' = s\<lparr>mem := mem s', EnetTxFreePtr := EnetTxFreePtr s'\<rparr>
           \<and> (\<forall>q. q \<notin> set tfs \<and> q \<noteq> 0 \<longrightarrow> mem s' q = mem s q))"
proof -
  have L0: "dcpt_list (mem s) DRV_ETHMAC_LIB_ListInit []" by (rule ListInit_list)
  from TxSendPacket_loop_spec [OF F L0, of pf DRV_ETHMAC_RES_OK pPkt]
  obtain s1 pL1 res1 k where
    lp: "TxSendPacket_loop pf s DRV_ETHMAC_LIB_ListInit DRV_ETHMAC_RES_OK pPkt = Some (s1, pL1, res1)"
    and k: "k \<le> length tfs"
    and st: "s1 = s\<lparr>mem := mem s1, EnetTxFreePtr := EnetTxFreePtr s1\<rparr>"
    and F1: "dcpt_list (mem s1) (EnetTxFreePtr s1) (drop k tfs)"
    and L1: "dcpt_list (mem s1) pL1 (take k tfs)"
    and fr: "\<forall>q. q \<notin> set tfs \<longrightarrow> mem s1 q = mem s q"
    and nd: "res1 = DRV_ETHMAC_RES_NO_DESCRIPTORS \<longrightarrow> k = length tfs"
    by auto
  have dfs: "distinct tfs" by (rule dcpt_list_distinct [OF F])
  have busy1: "EnetTxBusyPtr s1 = EnetTxBusyPtr s" using st by (cases s, cases s1, simp)
  have B1: "dcpt_list (mem s1) (EnetTxBusyPtr s1) tbs"
    unfolding busy1 by (rule dcpt_list_cong [OF B]) (use fr d in auto)
  have dby: "set tbs \<inter> set (take k tfs) = {}" using d by (auto dest: in_set_takeD)
  from TxSend_finish_spec [OF F1 L1 take_drop_disjoint [OF dfs] B1 Bne dby, of pf res1]
  obtain s' where
    fin: "TxSend_finish pf s1 pL1 res1 = Some (s', res1)"
    and ko: "res1 \<noteq> DRV_ETHMAC_RES_OK \<longrightarrow>
           dcpt_list (mem s') (EnetTxFreePtr s') (drop k tfs @ take k tfs)
           \<and> s' = s1\<lparr>mem := mem s', EnetTxFreePtr := EnetTxFreePtr s'\<rparr>
           \<and> (\<forall>q. q \<notin> set (drop k tfs) \<and> q \<notin> set (take k tfs) \<and> q \<noteq> 0 \<longrightarrow> mem s' q = mem s1 q)"
    by blast
  have call: "DRV_ETHMAC_LibTxSendPacket pf s pPkt = Some (s', res1)"
    by (simp add: DRV_ETHMAC_LibTxSendPacket_def lp fin)
  have "res1 = DRV_ETHMAC_RES_NO_DESCRIPTORS \<longrightarrow>
           dcpt_list (mem s') (EnetTxFreePtr s') tfs
           \<and> s' = s\<lparr>mem := mem s', EnetTxFreePtr := EnetTxFreePtr s'\<rparr>
           \<and> (\<forall>q. q \<notin> set tfs \<and> q \<noteq> 0 \<longrightarrow> mem s' q = mem s q)"
  proof
    assume r: "res1 = DRV_ETHMAC_RES_NO_DESCRIPTORS"
    then have kl: "k = length tfs" using nd by simp
    from r ko have a: "dcpt_list (mem s') (EnetTxFreePtr s') tfs"
      and b: "s' = s1\<lparr>mem := mem s', EnetTxFreePtr := EnetTxFreePtr s'\<rparr>"
      and c: "\<forall>q. q \<notin> set tfs \<and> q \<noteq> 0 \<longrightarrow> mem s' q = mem s1 q"
      using kl by simp_all
    have "s' = s\<lparr>mem := mem s', EnetTxFreePtr := EnetTxFreePtr s'\<rparr>"
      using st b by (cases s, cases s1, cases s') simp
    then show "dcpt_list (mem s') (EnetTxFreePtr s') tfs
           \<and> s' = s\<lparr>mem := mem s', EnetTxFreePtr := EnetTxFreePtr s'\<rparr>
           \<and> (\<forall>q. q \<notin> set tfs \<and> q \<noteq> 0 \<longrightarrow> mem s' q = mem s q)"
      using a c fr by simp
  qed
  with call show ?thesis by blast
qed

lemma TxSendBuffer_spec:
  assumes F: "dcpt_list (mem s) (EnetTxFreePtr s) tfs"
    and B: "dcpt_list (mem s) (EnetTxBusyPtr s) tbs" and Bne: "tbs \<noteq> []"
    and d: "set tfs \<inter> set tbs = {}"
  shows "\<exists>s' res. DRV_ETHMAC_LibTxSendBuffer pf s pBuf nByt = Some (s', res)
     \<and> (res = DRV_ETHMAC_RES_NO_DESCRIPTORS \<longrightarrow>
           dcpt_list (mem s') (EnetTxFreePtr s') tfs
           \<and> s' = s\<lparr>mem := mem s', EnetTxFreePtr := EnetTxFreePtr s'\<rparr>
           \<and> (\<forall>q. q \<notin> set tfs \<and> q \<noteq> 0 \<longrightarrow> mem s' q = mem s q))"
proof -
  have L0: "dcpt_list (mem s) DRV_ETHMAC_LIB_ListInit []" by (rule ListInit_list)
  from EthTxSchedBuffer_spec [OF F L0, of pf pBuf nByt]
  obtain s1 pL1 r where
    sb: "EthTxSchedBuffer pf s pBuf nByt DRV_ETHMAC_LIB_ListInit = Some (s1, pL1, r)"
    and st: "s1 = s\<lparr>mem := mem s1, EnetTxFreePtr := EnetTxFreePtr s1\<rparr>"
    and ok: "r = DRV_ETHMAC_RES_OK \<longrightarrow>
           tfs \<noteq> [] \<and> dcpt_list (mem s1) (EnetTxFreePtr s1) (tl tfs)
           \<and> dcpt_list (mem s1) pL1 [hd tfs]
           \<and> (\<forall>q. q \<noteq> hd tfs \<longrightarrow> mem s1 q = mem s q)"
    and ko: "r \<noteq> DRV_ETHMAC_RES_OK \<longrightarrow> s1 = s \<and> pL1 = DRV_ETHMAC_LIB_ListInit
           \<and> (r = DRV_ETHMAC_RES_NO_DESCRIPTORS \<and> tfs = [] \<or> r = DRV_ETHMAC_RES_USPACE_ERR)"
    by auto
  show ?thesis
  proof (cases "r = DRV_ETHMAC_RES_OK")
    case True
    with ok have ne: "tfs \<noteq> []" and F1: "dcpt_list (mem s1) (EnetTxFreePtr s1) (tl tfs)"
      and L1: "dcpt_list (mem s1) pL1 [hd tfs]"
      and fr: "\<forall>q. q \<noteq> hd tfs \<longrightarrow> mem s1 q = mem s q" by simp_all
    have hdin: "hd tfs \<in> set tfs" using ne by simp
    have busy1: "EnetTxBusyPtr s1 = EnetTxBusyPtr s" using st by (cases s, cases s1, simp)
    have "\<And>q. q \<in> set tbs \<Longrightarrow> q \<noteq> hd tfs" using d hdin by auto
    then have B1: "dcpt_list (mem s1) (EnetTxBusyPtr s1) tbs"
      unfolding busy1 using fr by (intro dcpt_list_cong [OF B]) simp
    have d1: "set (tl tfs) \<inter> set [hd tfs] = {}"
      using dcpt_list_distinct [OF F] ne by (cases tfs) auto
    have d2: "set tbs \<inter> set [hd tfs] = {}" using d hdin by auto
    from TxSend_finish_spec [OF F1 L1 d1 B1 Bne d2, of pf r]
    obtain s' where "TxSend_finish pf s1 pL1 r = Some (s', r)" by blast
    then show ?thesis using sb True by (simp add: DRV_ETHMAC_LibTxSendBuffer_def)
  next
    case False
    with ko have same: "s1 = s" "pL1 = DRV_ETHMAC_LIB_ListInit" by simp_all
    have "TxSend_finish pf s DRV_ETHMAC_LIB_ListInit r = Some (s, r)"
      using False
      by (simp add: TxSend_finish_def DRV_ETHMAC_LIB_ListIsEmpty_def DRV_ETHMAC_LIB_ListInit_def)
    then have "DRV_ETHMAC_LibTxSendBuffer pf s pBuf nByt = Some (s, r)"
      using sb same by (simp add: DRV_ETHMAC_LibTxSendBuffer_def)
    then show ?thesis using F by auto
  qed
qed

lemma mac_pools_wf:
  "dcpt_list (mem mac_pools) (EnetTxFreePtr mac_pools) [0x200, 0x220]"
  "dcpt_list (mem mac_pools) (EnetTxBusyPtr mac_pools) [0x100]"
  "dcpt_list (mem mac_pools) (EnetRxFreePtr mac_pools) [0x300, 0x320]"
  "dcpt_list (mem mac_pools) (EnetRxBusyPtr mac_pools) [0x400]"
  by (simp_all add: dcpt_list_def mac_pools_def mac0_def node0_def)

lemma pkt3_loop:
  "(case TxSendPacket_loop kseg mac_pools DRV_ETHMAC_LIB_ListInit DRV_ETHMAC_RES_OK pkt3 of
      None \<Rightarrow> False
    | Some (s1, pL1, r) \<Rightarrow>
        r = DRV_ETHMAC_RES_NO_DESCRIPTORS \<and> pL1 = \<lparr>head = 0x200, tail = 0x220\<rparr>
        \<and> EnetTxFreePtr s1 = DRV_ETHMAC_LIB_ListInit
        \<and> dcpt_list (mem s1) pL1 [0x200, 0x220]
        \<and> pEDBuff (mem s1 0x200) = 0x1000 \<and> EOWN (hdr (mem s1 0x200)))"
  by (simp add: pkt3_def EthTxSchedBuffer_def DRV_ETHMAC_LIB_ListRemoveHead_def
      DRV_ETHMAC_LIB_ListAddTail_def DRV_ETHMAC_LIB_ListInit_def Let_def mac_pools_def mac0_def
      kseg_def node0_def dcpt_list_def hdr_w_NPV_EOWN_def)


lemma pkt3_send:
  "\<exists>s'. DRV_ETHMAC_LibTxSendPacket kseg mac_pools pkt3 = Some (s', DRV_ETHMAC_RES_NO_DESCRIPTORS)
     \<and> pEDBuff (mem s' 0x200) = 0x1000 \<and> EOWN (hdr (mem s' 0x200))"
proof -
  obtain s1 pL1 r where
    lp: "TxSendPacket_loop kseg mac_pools DRV_ETHMAC_LIB_ListInit DRV_ETHMAC_RES_OK pkt3 = Some (s1, pL1, r)"
    using pkt3_loop
    by (cases "TxSendPacket_loop kseg mac_pools DRV_ETHMAC_LIB_ListInit DRV_ETHMAC_RES_OK pkt3") auto
  with pkt3_loop have r: "r = DRV_ETHMAC_RES_NO_DESCRIPTORS" and pL1: "pL1 = \<lparr>head = 0x200, tail = 0x220\<rparr>"
    and F1: "EnetTxFreePtr s1 = DRV_ETHMAC_LIB_ListInit"
    and L1: "dcpt_list (mem s1) pL1 [0x200, 0x220]"
    and c: "pEDBuff (mem s1 0x200) = 0x1000" "EOWN (hdr (mem s1 0x200))"
    by auto
  have F1': "dcpt_list (mem s1) (EnetTxFreePtr s1) []" unfolding F1 by (rule ListInit_list)
  from ListAppendTail_spec [OF F1' L1, of kseg]
  obtain h' pL' where
    app: "DRV_ETHMAC_LIB_ListAppendTail kseg (mem s1) (EnetTxFreePtr s1) pL1 =
            Some (h', pL', DRV_ETHMAC_LIB_ListInit)"
    and sp: "same_payload (mem s1) h'" by auto
  have "DRV_ETHMAC_LibTxSendPacket kseg mac_pools pkt3 =
          Some (s1\<lparr>mem := h', EnetTxFreePtr := pL'\<rparr>, DRV_ETHMAC_RES_NO_DESCRIPTORS)"
    using lp r app pL1
    by (simp add: DRV_ETHMAC_LibTxSendPacket_def TxSend_finish_def DRV_ETHMAC_LIB_ListIsEmpty_def)
  moreover have "pEDBuff (h' 0x200) = 0x1000" "EOWN (hdr (h' 0x200))"
    using sp c by (simp_all add: same_payload_def)
  ultimately show ?thesis by simp
qed

lemma rx3_loop:
  "(case RxBuffersAppend_loop kseg {} mac_pools DRV_ETHMAC_LIB_ListInit
           [0x80001000, 0x80002000, 0x80003000] 0x7fffffff of
      None \<Rightarrow> False
    | Some (r, s1, pL1, pB, nB) \<Rightarrow> r = DRV_ETHMAC_RES_NO_DESCRIPTORS \<and> pB \<noteq> 0 \<and> nB \<noteq> 0)"
  by (simp add: RxBuffersAppend_prepare_def DRV_ETHMAC_LIB_ListRemoveHead_def
      DRV_ETHMAC_LIB_ListAddTail_def DRV_ETHMAC_LIB_ListInit_def Let_def mac_pools_def mac0_def
      kseg_def node0_def)

lemma rx_uspace_loop:
  "(case RxBuffersAppend_loop kseg {} mac_pools DRV_ETHMAC_LIB_ListInit [0x80001000, 0x2000] 2 of
      None \<Rightarrow> False
    | Some (r, s1, pL1, pB, nB) \<Rightarrow>
        r = DRV_ETHMAC_RES_USPACE_ERR \<and> pB \<noteq> 0 \<and> nB \<noteq> 0
        \<and> pL1 = \<lparr>head = 0x300, tail = 0x300\<rparr> \<and> dcpt_list (mem s1) pL1 [0x300]
        \<and> EnetRxFreePtr s1 = DRV_ETHMAC_LIB_ListInit
        \<and> EnetRxBusyPtr s1 = \<lparr>head = 0x400, tail = 0x400\<rparr>
        \<and> dcpt_list (mem s1) (EnetRxBusyPtr s1) [0x400])"
  by (simp add: RxBuffersAppend_prepare_def DRV_ETHMAC_LIB_ListRemoveHead_def
      DRV_ETHMAC_LIB_ListAddTail_def DRV_ETHMAC_LIB_ListInit_def Let_def mac_pools_def mac0_def
      kseg_def node0_def dcpt_list_def)

lemma RxBuffersAppend_USPACE_ERR_leaks_node:
  "dcpt_list (mem mac_pools) (EnetRxFreePtr mac_pools) [0x300, 0x320]
   \<and> dcpt_list (mem mac_pools) (EnetRxBusyPtr mac_pools) [0x400]
   \<and> (\<exists>s'. DRV_ETHMAC_LibRxBuffersAppend kseg mac_pools [0x80001000, 0x2000] 2 {}
               = Some (s', DRV_ETHMAC_RES_USPACE_ERR)
         \<and> dcpt_list (mem s') (EnetRxFreePtr s') [0x300]
         \<and> dcpt_list (mem s') (EnetRxBusyPtr s') [0x400])"
proof -
  obtain r s1 pL1 pB nB where
    lp: "RxBuffersAppend_loop kseg {} mac_pools DRV_ETHMAC_LIB_ListInit [0x80001000, 0x2000] 2
           = Some (r, s1, pL1, pB, nB)"
    using rx_uspace_loop
    by (cases "RxBuffersAppend_loop kseg {} mac_pools DRV_ETHMAC_LIB_ListInit [0x80001000, 0x2000] 2")
       auto
  with rx_uspace_loop have r: "r = DRV_ETHMAC_RES_USPACE_ERR" "pB \<noteq> 0" "nB \<noteq> 0"
    and L1: "dcpt_list (mem s1) pL1 [0x300]"
    and F1: "EnetRxFreePtr s1 = DRV_ETHMAC_LIB_ListInit"
    and B1: "dcpt_list (mem s1) (EnetRxBusyPtr s1) [0x400]"
    by auto
  have F1': "dcpt_list (mem s1) (EnetRxFreePtr s1) []" unfolding F1 by (rule ListInit_list)
  from ListAppendTail_spec [OF F1' L1, of kseg]
  obtain h' pL' where
    app: "DRV_ETHMAC_LIB_ListAppendTail kseg (mem s1) (EnetRxFreePtr s1) pL1 =
            Some (h', pL', DRV_ETHMAC_LIB_ListInit)"
    and F': "dcpt_list h' pL' [0x300]"
    and fr: "\<forall>q. q \<notin> set [0x300] \<and> q \<noteq> tail (EnetRxFreePtr s1) \<longrightarrow> h' q = mem s1 q"
    by auto
  have "h' 0x400 = mem s1 0x400" using fr F1 by (simp add: DRV_ETHMAC_LIB_ListInit_def)
  then have B': "dcpt_list h' (EnetRxBusyPtr s1) [0x400]"
    by (intro dcpt_list_cong [OF B1]) simp
  have "DRV_ETHMAC_LibRxBuffersAppend kseg mac_pools [0x80001000, 0x2000] 2 {}
          = Some (s1\<lparr>mem := h', EnetRxFreePtr := pL'\<rparr>, DRV_ETHMAC_RES_USPACE_ERR)"
    unfolding DRV_ETHMAC_LibRxBuffersAppend_def
    using r app by (simp add: lp del: RxBuffersAppend_loop.simps)
  then show ?thesis using F' B' mac_pools_wf by simp
qed

section \<open>Failed scheduling calls\<close>

text \<open>
  What the \<open>NO_DESCRIPTORS\<close> paths do restore: on well-formed pools each of the three
  scheduling calls returns, and when it returns \<open>NO_DESCRIPTORS\<close> the free list of its
  direction holds the nodes it held before the call, in the same order. The contents
  of the restored nodes are not part of this statement.
\<close>

lemma scheduling_NO_DESCRIPTORS_restores:
  assumes "dcpt_list (mem s) (EnetTxFreePtr s) tfs"
    and "dcpt_list (mem s) (EnetTxBusyPtr s) tbs" and "tbs \<noteq> []" and "set tfs \<inter> set tbs = {}"
    and "dcpt_list (mem s) (EnetRxFreePtr s) rfs"
    and "dcpt_list (mem s) (EnetRxBusyPtr s) rbs" and "rbs \<noteq> []" and "set rfs \<inter> set rbs = {}"
  shows "(\<exists>s' res. DRV_ETHMAC_LibTxSendPacket pf s pPkt = Some (s', res)
           \<and> (res = DRV_ETHMAC_RES_NO_DESCRIPTORS \<longrightarrow>
                 dcpt_list (mem s') (EnetTxFreePtr s') tfs
                 \<and> s' = s\<lparr>mem := mem s', EnetTxFreePtr := EnetTxFreePtr s'\<rparr>
                 \<and> (\<forall>q. q \<notin> set tfs \<and> q \<noteq> 0 \<longrightarrow> mem s' q = mem s q)))
       \<and> (\<exists>s' res. DRV_ETHMAC_LibTxSendBuffer pf s pBuf nByt = Some (s', res)
           \<and> (res = DRV_ETHMAC_RES_NO_DESCRIPTORS \<longrightarrow>
                 dcpt_list (mem s') (EnetTxFreePtr s') tfs
                 \<and> s' = s\<lparr>mem := mem s', EnetTxFreePtr := EnetTxFreePtr s'\<rparr>
                 \<and> (\<forall>q. q \<notin> set tfs \<and> q \<noteq> 0 \<longrightarrow> mem s' q = mem s q)))
       \<and> (\<exists>s' res. DRV_ETHMAC_LibRxBuffersAppend pf s ppBuff nBuffs rxFlags = Some (s', res)
           \<and> (res = DRV_ETHMAC_RES_NO_DESCRIPTORS \<longrightarrow>
                 dcpt_list (mem s') (EnetRxFreePtr s') rfs
                 \<and> s' = s\<lparr>mem := mem s', EnetRxFreePtr := EnetRxFreePtr s'\<rparr>
                 \<and> (\<forall>q. q \<notin> set rfs \<and> q \<noteq> 0 \<longrightarrow> mem s' q = mem s q)))"
  using TxSendPacket_spec [OF assms(1-4), of pf pPkt]
    TxSendBuffer_spec [OF assms(1-4), of pf pBuf nByt]
    RxBuffersAppend_finish_spec [OF assms(5-8), of pf ppBuff nBuffs rxFlags]
  by blast

text \<open>
  Claim C1 does not hold of the code. On the pools of \<open>mac_pools\<close>:

  \<^item> \<open>DRV_ETHMAC_LibRxBuffersAppend\<close> with a first buffer in a kernel window and a second
    buffer outside both windows returns \<open>USPACE_ERR\<close>. The node 0x320, taken from RX-free
    for the second buffer (line 484), is on no list when the new list is put back
    (line 521): the loop is left at line 513, before line 516 adds the node to the new
    list. RX-free holds 0x300 only and RX-busy is unchanged.

  \<^item> \<open>DRV_ETHMAC_LibTxSendPacket\<close> with a packet of three buffers on a TX-free list of two
    nodes returns \<open>NO_DESCRIPTORS\<close>, and the node 0x200, which had no buffer and \<open>EOWN\<close>
    clear before the call, is back in TX-free with the address of the first buffer and
    \<open>EOWN\<close> set. The acknowledge paths clear \<open>pEDBuff\<close> when they return a node to a free
    list (lines 913 and 975).
\<close>

theorem scheduling_failure_leak_and_stale_buffer:
  "dcpt_list (mem mac_pools) (EnetRxFreePtr mac_pools) [0x300, 0x320]
   \<and> dcpt_list (mem mac_pools) (EnetRxBusyPtr mac_pools) [0x400]
   \<and> (case DRV_ETHMAC_LibRxBuffersAppend kseg mac_pools [0x80001000, 0x2000] 2 {} of
         None \<Rightarrow> False
       | Some (s', res) \<Rightarrow>
           res = DRV_ETHMAC_RES_USPACE_ERR
           \<and> dcpt_list (mem s') (EnetRxFreePtr s') [0x300]
           \<and> dcpt_list (mem s') (EnetRxBusyPtr s') [0x400])
   \<and> dcpt_list (mem mac_pools) (EnetTxFreePtr mac_pools) [0x200, 0x220]
   \<and> pEDBuff (mem mac_pools 0x200) = 0 \<and> \<not> EOWN (hdr (mem mac_pools 0x200))
   \<and> (case DRV_ETHMAC_LibTxSendPacket kseg mac_pools pkt3 of
         None \<Rightarrow> False
       | Some (s', res) \<Rightarrow>
           res = DRV_ETHMAC_RES_NO_DESCRIPTORS
           \<and> dcpt_list (mem s') (EnetTxFreePtr s') [0x200, 0x220]
           \<and> pEDBuff (mem s' 0x200) = 0x1000 \<and> EOWN (hdr (mem s' 0x200)))"
proof -
  have a: "pEDBuff (mem mac_pools 0x200) = 0" "\<not> EOWN (hdr (mem mac_pools 0x200))"
    by (simp_all add: mac_pools_def mac0_def node0_def hdr_w_0_def)
  from RxBuffersAppend_USPACE_ERR_leaks_node
  obtain s1 where
    c1: "DRV_ETHMAC_LibRxBuffersAppend kseg mac_pools [0x80001000, 0x2000] 2 {}
           = Some (s1, DRV_ETHMAC_RES_USPACE_ERR)"
    and f1: "dcpt_list (mem s1) (EnetRxFreePtr s1) [0x300]"
    and b1: "dcpt_list (mem s1) (EnetRxBusyPtr s1) [0x400]"
    by (elim conjE exE)
  from pkt3_send
  obtain s2 where
    c2: "DRV_ETHMAC_LibTxSendPacket kseg mac_pools pkt3 = Some (s2, DRV_ETHMAC_RES_NO_DESCRIPTORS)"
    and e2: "pEDBuff (mem s2 0x200) = 0x1000" "EOWN (hdr (mem s2 0x200))"
    by (elim conjE exE)
  from TxSendPacket_spec [OF mac_pools_wf(1) mac_pools_wf(2), of kseg pkt3] c2
  have f2: "dcpt_list (mem s2) (EnetTxFreePtr s2) [0x200, 0x220]" by auto
  have r: "case DRV_ETHMAC_LibRxBuffersAppend kseg mac_pools [0x80001000, 0x2000] 2 {} of
         None \<Rightarrow> False
       | Some (s', res) \<Rightarrow>
           res = DRV_ETHMAC_RES_USPACE_ERR
           \<and> dcpt_list (mem s') (EnetRxFreePtr s') [0x300]
           \<and> dcpt_list (mem s') (EnetRxBusyPtr s') [0x400]"
    unfolding c1 using f1 b1 by simp
  have t: "case DRV_ETHMAC_LibTxSendPacket kseg mac_pools pkt3 of
         None \<Rightarrow> False
       | Some (s', res) \<Rightarrow>
           res = DRV_ETHMAC_RES_NO_DESCRIPTORS
           \<and> dcpt_list (mem s') (EnetTxFreePtr s') [0x200, 0x220]
           \<and> pEDBuff (mem s' 0x200) = 0x1000 \<and> EOWN (hdr (mem s' 0x200))"
    unfolding c2 using f2 e2 by simp
  show ?thesis
    by (intro conjI mac_pools_wf(1) mac_pools_wf(3) mac_pools_wf(4) a r t)
qed

section \<open>Receive append without a limit\<close>

lemma RxBuffersAppend_loop_all:
  assumes F: "dcpt_list (mem s) (EnetRxFreePtr s) fs" and L: "dcpt_list (mem s) pNew ps"
    and d: "set fs \<inter> set ps = {}"
    and v: "\<forall>b \<in> set (takeWhile (\<lambda>b. b \<noteq> 0) ppBuff). IS_KVA0 pf b \<or> IS_KVA pf b"
    and nf: "length (takeWhile (\<lambda>b. b \<noteq> 0) ppBuff) \<le> length fs"
    and nn: "length (takeWhile (\<lambda>b. b \<noteq> 0) ppBuff) \<le> unat nBuffs"
  shows "\<exists>s1 pN1 pB nB.
       RxBuffersAppend_loop pf rxFlags s pNew ppBuff nBuffs = Some (DRV_ETHMAC_RES_OK, s1, pN1, pB, nB)
     \<and> (pB = 0 \<or> nB = 0)
     \<and> s1 = s\<lparr>mem := mem s1, EnetRxFreePtr := EnetRxFreePtr s1\<rparr>
     \<and> dcpt_list (mem s1) (EnetRxFreePtr s1) (drop (length (takeWhile (\<lambda>b. b \<noteq> 0) ppBuff)) fs)
     \<and> dcpt_list (mem s1) pN1 (ps @ take (length (takeWhile (\<lambda>b. b \<noteq> 0) ppBuff)) fs)
     \<and> (\<forall>q. q \<notin> set fs \<and> q \<notin> set ps \<longrightarrow> mem s1 q = mem s q)
     \<and> (\<forall>q. q \<notin> set fs \<longrightarrow> pEDBuff (mem s1 q) = pEDBuff (mem s q))
     \<and> map (\<lambda>q. pEDBuff (mem s1 q)) (take (length (takeWhile (\<lambda>b. b \<noteq> 0) ppBuff)) fs)
         = map (KVA_TO_PA pf) (takeWhile (\<lambda>b. b \<noteq> 0) ppBuff)"
  using assms
proof (induction ppBuff arbitrary: s pNew ps fs nBuffs)
  case Nil
  show ?case
    by (rule exI [of _ s], rule exI [of _ pNew], rule exI [of _ "0::addr"],
        rule exI [of _ nBuffs]) (use Nil.prems in auto)
next
  case (Cons pBuf ppBuff)
  show ?case
  proof (cases "pBuf = 0")
    case True
    then have e: "RxBuffersAppend_loop pf rxFlags s pNew (pBuf # ppBuff) nBuffs =
                 Some (DRV_ETHMAC_RES_OK, s, pNew, pBuf, nBuffs)" by auto
    show ?thesis
      by (rule exI [of _ s], rule exI [of _ pNew], rule exI [of _ pBuf],
          rule exI [of _ nBuffs])
         (use Cons.prems True in auto)
  next
    case nz: False
    let ?bufs = "takeWhile (\<lambda>b. b \<noteq> 0) ppBuff"
    have tw: "takeWhile (\<lambda>b. b \<noteq> 0) (pBuf # ppBuff) = pBuf # ?bufs" using nz by simp
    have valid: "IS_KVA0 pf pBuf \<or> IS_KVA pf pBuf" using Cons.prems(4) nz by simp
    have n1: "Suc (length ?bufs) \<le> unat nBuffs" using Cons.prems(6) nz by simp
    then have nb: "nBuffs \<noteq> 0" by (auto simp: unat_eq_0)
    have n2: "length ?bufs \<le> unat (nBuffs - 1)" using n1 nb by (simp add: unat_minus_one)
    have "Suc (length ?bufs) \<le> length fs" using Cons.prems(5) nz by simp
    then obtain a fs' where fs: "fs = a # fs'" and nf': "length ?bufs \<le> length fs'"
      by (cases fs) auto
    obtain pF where rm: "DRV_ETHMAC_LIB_ListRemoveHead (mem s) (EnetRxFreePtr s) = (a, pF)"
      and F': "dcpt_list (mem s) pF fs'"
      using ListRemoveHead_Cons [OF Cons.prems(1) [unfolded fs]] by blast
    have a: "a \<noteq> 0" "a \<notin> set ps" "a \<notin> set fs'"
      using dcpt_list_not0 [OF Cons.prems(1)] dcpt_list_distinct [OF Cons.prems(1)]
        Cons.prems(3) fs by auto
    define h4 where "h4 = RxBuffersAppend_prepare pf rxFlags (mem s) a pBuf"
    define hX where "hX = (if IS_KVA0 pf pBuf
        then h4(a := (h4 a)\<lparr>hdr := (hdr (h4 a))\<lparr>kv0 := True\<rparr>\<rparr>) else h4)"
    have hXn: "\<And>q. next (hX q) = next (mem s q)" and hXo: "\<And>q. q \<noteq> a \<Longrightarrow> hX q = mem s q"
      and hXa: "pEDBuff (hX a) = KVA_TO_PA pf pBuf"
      by (simp_all add: hX_def h4_def RxBuffersAppend_prepare_facts)
    have LX: "dcpt_list hX pNew ps" by (rule dcpt_list_cong [OF Cons.prems(2)]) (simp add: hXn)
    have FX: "dcpt_list hX pF fs'" by (rule dcpt_list_cong [OF F']) (simp add: hXn)
    obtain h6 pNew' where add: "DRV_ETHMAC_LIB_ListAddTail pf hX pNew a = Some (h6, pNew')"
      and L6: "dcpt_list h6 pNew' (ps @ [a])" and sp: "same_payload hX h6"
      and fr: "\<forall>q. q \<noteq> a \<and> q \<noteq> tail pNew \<longrightarrow> h6 q = hX q"
      using ListAddTail_spec [OF LX a(1) a(2), of pf] by blast
    have tl: "tail pNew = 0 \<or> tail pNew \<in> set ps" by (rule dcpt_list_tail [OF Cons.prems(2)])
    have t0: "tail pNew = 0 \<Longrightarrow> h6 = hX(a := (hX a)\<lparr>next := 0\<rparr>)"
      using add a by (simp add: DRV_ETHMAC_LIB_ListAddTail_def Let_def)
    have fr': "\<forall>q. q \<noteq> a \<and> q \<notin> set ps \<longrightarrow> h6 q = mem s q"
    proof (intro allI impI)
      fix q assume q: "q \<noteq> a \<and> q \<notin> set ps"
      show "h6 q = mem s q"
      proof (cases "tail pNew = 0")
        case True
        then show ?thesis using t0 q hXo by simp
      next
        case False
        then have "q \<noteq> tail pNew" using tl q by auto
        then show ?thesis using fr q hXo by simp
      qed
    qed
    have p6: "\<And>q. pEDBuff (h6 q) = pEDBuff (hX q)" using sp by (simp add: same_payload_def)
    have F6: "dcpt_list h6 pF fs'"
    proof (rule dcpt_list_cong [OF FX])
      fix q assume "q \<in> set fs'"
      then have "q \<noteq> a" "q \<notin> set ps" using a Cons.prems(3) fs by auto
      then show "next (h6 q) = next (hX q)" using fr' hXo by simp
    qed
    let ?s' = "s\<lparr>mem := h6, EnetRxFreePtr := pF\<rparr>"
    have step: "RxBuffersAppend_loop pf rxFlags s pNew (pBuf # ppBuff) nBuffs =
        RxBuffersAppend_loop pf rxFlags ?s' pNew' ppBuff (nBuffs - 1)"
      using nz nb rm a valid add by (auto simp: hX_def h4_def Let_def)
    have F6': "dcpt_list (mem ?s') (EnetRxFreePtr ?s') fs'" using F6 by simp
    have L6': "dcpt_list (mem ?s') pNew' (ps @ [a])" using L6 by simp
    have d': "set fs' \<inter> set (ps @ [a]) = {}" using Cons.prems(3) a fs by auto
    have v': "\<forall>b \<in> set ?bufs. IS_KVA0 pf b \<or> IS_KVA pf b" using Cons.prems(4) nz by simp
    from Cons.IH [OF F6' L6' d' v' nf' n2]
    obtain s1 pN1 pB nB where
      lp: "RxBuffersAppend_loop pf rxFlags ?s' pNew' ppBuff (nBuffs - 1)
             = Some (DRV_ETHMAC_RES_OK, s1, pN1, pB, nB)"
      and ex: "pB = 0 \<or> nB = 0"
      and st1: "s1 = ?s'\<lparr>mem := mem s1, EnetRxFreePtr := EnetRxFreePtr s1\<rparr>"
      and F1: "dcpt_list (mem s1) (EnetRxFreePtr s1) (drop (length ?bufs) fs')"
      and L1: "dcpt_list (mem s1) pN1 ((ps @ [a]) @ take (length ?bufs) fs')"
      and fr1: "\<forall>q. q \<notin> set fs' \<and> q \<notin> set (ps @ [a]) \<longrightarrow> mem s1 q = mem ?s' q"
      and pe1: "\<forall>q. q \<notin> set fs' \<longrightarrow> pEDBuff (mem s1 q) = pEDBuff (mem ?s' q)"
      and mp1: "map (\<lambda>q. pEDBuff (mem s1 q)) (take (length ?bufs) fs') = map (KVA_TO_PA pf) ?bufs"
      by blast
    have st: "s1 = s\<lparr>mem := mem s1, EnetRxFreePtr := EnetRxFreePtr s1\<rparr>"
      using st1 by (cases s, cases s1) simp
    have frs: "\<forall>q. q \<notin> set fs \<and> q \<notin> set ps \<longrightarrow> mem s1 q = mem s q"
      using fr1 fr' fs by auto
    have pes: "\<forall>q. q \<notin> set fs \<longrightarrow> pEDBuff (mem s1 q) = pEDBuff (mem s q)"
      using pe1 p6 hXo fs by auto
    have pa: "pEDBuff (mem s1 a) = KVA_TO_PA pf pBuf" using pe1 a p6 hXa by simp
    have call: "RxBuffersAppend_loop pf rxFlags s pNew (pBuf # ppBuff) nBuffs
             = Some (DRV_ETHMAC_RES_OK, s1, pN1, pB, nB)"
      by (simp only: step lp)
    show ?thesis
      by (rule exI [of _ s1], rule exI [of _ pN1], rule exI [of _ pB],
          rule exI [of _ nB])
         (use ex st F1 L1 frs pes pa mp1 in
           \<open>simp add: call nz fs del: RxBuffersAppend_loop.simps\<close>)
  qed
qed

text \<open>
  Claim C9 (amended). Calling \<open>DRV_ETHMAC_LibRxBuffersAppend\<close> with \<open>nBuffs = 0\<close> is the
  call with \<open>nBuffs = 0x7fffffff\<close>: the count sets no limit. On well-formed RX lists,
  when RX-free holds at least as many descriptors as there are buffers before the first
  null pointer and each of these buffers lies in a kernel window, every buffer of the
  array up to the first null pointer is appended: the call returns \<open>DRV_ETHMAC_RES_OK\<close>,
  as many nodes as there are such buffers leave RX-free for RX-busy, and the
  descriptors from the old sentinel on carry the physical addresses of exactly these
  buffers, in order.
\<close>

theorem RxBuffersAppend_nBuffs_0_no_limit:
  "DRV_ETHMAC_LibRxBuffersAppend pf s ppBuff 0 rxFlags
     = DRV_ETHMAC_LibRxBuffersAppend pf s ppBuff 0x7fffffff rxFlags
   \<and> (dcpt_list (mem s) (EnetRxFreePtr s) rfs \<and> dcpt_list (mem s) (EnetRxBusyPtr s) rbs
        \<and> rbs \<noteq> [] \<and> set rfs \<inter> set rbs = {}
        \<and> bufs = takeWhile (\<lambda>b. b \<noteq> 0) ppBuff \<and> bufs \<noteq> []
        \<and> (\<forall>b \<in> set bufs. IS_KVA0 pf b \<or> IS_KVA pf b)
        \<and> length bufs \<le> length rfs \<and> length bufs \<le> 0x7fffffff
        \<and> ns = take (length bufs) rfs \<longrightarrow>
        (\<exists>s'. DRV_ETHMAC_LibRxBuffersAppend pf s ppBuff 0 rxFlags = Some (s', DRV_ETHMAC_RES_OK)
           \<and> dcpt_list (mem s') (EnetRxBusyPtr s') (rbs @ tl ns @ [hd ns])
           \<and> dcpt_list (mem s') (EnetRxFreePtr s') (drop (length bufs) rfs)
           \<and> map (\<lambda>q. pEDBuff (mem s' q)) (last rbs # tl ns) = map (KVA_TO_PA pf) bufs))"
proof (intro conjI impI)
  show "DRV_ETHMAC_LibRxBuffersAppend pf s ppBuff 0 rxFlags
     = DRV_ETHMAC_LibRxBuffersAppend pf s ppBuff 0x7fffffff rxFlags"
    by (simp add: DRV_ETHMAC_LibRxBuffersAppend_def)
next
  assume asm: "dcpt_list (mem s) (EnetRxFreePtr s) rfs \<and> dcpt_list (mem s) (EnetRxBusyPtr s) rbs
        \<and> rbs \<noteq> [] \<and> set rfs \<inter> set rbs = {}
        \<and> bufs = takeWhile (\<lambda>b. b \<noteq> 0) ppBuff \<and> bufs \<noteq> []
        \<and> (\<forall>b \<in> set bufs. IS_KVA0 pf b \<or> IS_KVA pf b)
        \<and> length bufs \<le> length rfs \<and> length bufs \<le> 0x7fffffff
        \<and> ns = take (length bufs) rfs"
  then have F: "dcpt_list (mem s) (EnetRxFreePtr s) rfs"
    and B: "dcpt_list (mem s) (EnetRxBusyPtr s) rbs" and Bne: "rbs \<noteq> []"
    and d: "set rfs \<inter> set rbs = {}"
    and bufs: "bufs = takeWhile (\<lambda>b. b \<noteq> 0) ppBuff" and bne: "bufs \<noteq> []"
    and v0: "\<forall>b \<in> set bufs. IS_KVA0 pf b \<or> IS_KVA pf b"
    and nf0: "length bufs \<le> length rfs" and nn0: "length bufs \<le> 0x7fffffff"
    and ns: "ns = take (length bufs) rfs"
    by blast+
  have v: "\<forall>b \<in> set (takeWhile (\<lambda>b. b \<noteq> 0) ppBuff). IS_KVA0 pf b \<or> IS_KVA pf b"
    using v0 unfolding bufs .
  have nf: "length (takeWhile (\<lambda>b. b \<noteq> 0) ppBuff) \<le> length rfs"
    using nf0 unfolding bufs .
  have nn: "length (takeWhile (\<lambda>b. b \<noteq> 0) ppBuff) \<le> unat (0x7fffffff :: 32 word)"
    using nn0 unfolding bufs by simp
  have L0: "dcpt_list (mem s) DRV_ETHMAC_LIB_ListInit []" by (rule ListInit_list)
  from RxBuffersAppend_loop_all [OF F L0 _ v nf nn, of rxFlags]
  obtain s1 pN1 pB nB where
    lp: "RxBuffersAppend_loop pf rxFlags s DRV_ETHMAC_LIB_ListInit ppBuff 0x7fffffff
           = Some (DRV_ETHMAC_RES_OK, s1, pN1, pB, nB)"
    and ex: "pB = 0 \<or> nB = 0"
    and st: "s1 = s\<lparr>mem := mem s1, EnetRxFreePtr := EnetRxFreePtr s1\<rparr>"
    and F1: "dcpt_list (mem s1) (EnetRxFreePtr s1) (drop (length bufs) rfs)"
    and L1: "dcpt_list (mem s1) pN1 ns"
    and fr: "\<forall>q. q \<notin> set rfs \<longrightarrow> mem s1 q = mem s q"
    and mp: "map (\<lambda>q. pEDBuff (mem s1 q)) ns = map (KVA_TO_PA pf) bufs"
    unfolding bufs ns by auto
  have nsne: "ns \<noteq> []" using bne nf ns bufs by (cases rfs) auto
  then have hd: "head pN1 \<noteq> 0" using dcpt_list_empty_iff [OF L1] by simp
  have busy1: "EnetRxBusyPtr s1 = EnetRxBusyPtr s" using st by (cases s, cases s1, simp)
  have B1: "dcpt_list (mem s1) (EnetRxBusyPtr s1) rbs"
    unfolding busy1 by (rule dcpt_list_cong [OF B]) (use fr d in auto)
  have db: "set rbs \<inter> set ns = {}" using d ns by (auto dest: in_set_takeD)
  from EthAppendBusyList_spec [OF B1 Bne L1 nsne db, of pf "pEthReg s1" True]
  obtain h' e' pB' where
    app: "EthAppendBusyList pf (mem s1) (pEthReg s1) (EnetRxBusyPtr s1) pN1 True
            = Some (h', e', pB', DRV_ETHMAC_LIB_ListInit)"
    and B': "dcpt_list h' pB' (rbs @ tl ns @ [hd ns])"
    and t': "pEDBuff (h' (last rbs)) = pEDBuff (mem s1 (hd ns))"
    and o': "\<forall>q. q \<noteq> last rbs \<and> q \<noteq> hd ns \<longrightarrow>
          hdr (h' q) = hdr (mem s1 q) \<and> pEDBuff (h' q) = pEDBuff (mem s1 q)
          \<and> stat (h' q) = stat (mem s1 q)"
    and f': "\<forall>q. q \<notin> set ns \<and> q \<noteq> last rbs \<longrightarrow> h' q = mem s1 q"
    by blast
  let ?e1 = "if DRV_ETH_RxPacketDescAddrGet e' = 0
             then DRV_ETH_RxPacketDescAddrSet e' (KVA_TO_PA pf (head pB' + hwDcpt_off pf)) else e'"
  let ?s' = "s1\<lparr>mem := h', EnetRxBusyPtr := pB', pEthReg := DRV_ETH_RxEnable ?e1\<rparr>"
  have call: "DRV_ETHMAC_LibRxBuffersAppend pf s ppBuff 0 rxFlags = Some (?s', DRV_ETHMAC_RES_OK)"
    unfolding DRV_ETHMAC_LibRxBuffersAppend_def
    using ex hd app lp
    by (auto simp: DRV_ETHMAC_LIB_ListIsEmpty_def Let_def)
  have lastb: "last rbs \<in> set rbs" using Bne by simp
  have dns: "distinct ns" by (rule dcpt_list_distinct [OF L1])
  have F': "dcpt_list h' (EnetRxFreePtr s1) (drop (length bufs) rfs)"
  proof (rule dcpt_list_cong [OF F1])
    fix q assume q: "q \<in> set (drop (length bufs) rfs)"
    have "set (drop (length bufs) rfs) \<inter> set (take (length bufs) rfs) = {}"
      by (rule take_drop_disjoint [OF dcpt_list_distinct [OF F]])
    then have "q \<notin> set ns" using q ns by auto
    moreover have "q \<in> set rfs" using q by (auto dest: in_set_dropD)
    then have "q \<noteq> last rbs" using d lastb by auto
    ultimately show "next (h' q) = next (mem s1 q)" using f' by simp
  qed
  have tlmap: "map (\<lambda>q. pEDBuff (h' q)) (tl ns) = map (\<lambda>q. pEDBuff (mem s1 q)) (tl ns)"
  proof (rule map_cong [OF refl])
    fix q assume q: "q \<in> set (tl ns)"
    then have "q \<in> set ns" using nsne by (cases ns) auto
    then have "q \<noteq> last rbs" using db lastb by auto
    moreover have "q \<noteq> hd ns" using q dns nsne by (cases ns) auto
    ultimately show "pEDBuff (h' q) = pEDBuff (mem s1 q)" using o' by simp
  qed
  have "map (\<lambda>q. pEDBuff (h' q)) (last rbs # tl ns) = map (\<lambda>q. pEDBuff (mem s1 q)) (hd ns # tl ns)"
    using t' tlmap by simp
  also have "\<dots> = map (KVA_TO_PA pf) bufs" using mp nsne by simp
  finally have m: "map (\<lambda>q. pEDBuff (h' q)) (last rbs # tl ns) = map (KVA_TO_PA pf) bufs" .
  show "\<exists>s'. DRV_ETHMAC_LibRxBuffersAppend pf s ppBuff 0 rxFlags = Some (s', DRV_ETHMAC_RES_OK)
           \<and> dcpt_list (mem s') (EnetRxBusyPtr s') (rbs @ tl ns @ [hd ns])
           \<and> dcpt_list (mem s') (EnetRxFreePtr s') (drop (length bufs) rfs)
           \<and> map (\<lambda>q. pEDBuff (mem s' q)) (last rbs # tl ns) = map (KVA_TO_PA pf) bufs"
    using call B' F' m by (intro exI [of _ ?s']) simp
qed

theorem RxBuffersAppend_nBuffs_0_no_limit_witness:
  "dcpt_list (mem mac_pools) (EnetRxFreePtr mac_pools) [0x300, 0x320]
   \<and> dcpt_list (mem mac_pools) (EnetRxBusyPtr mac_pools) [0x400]
   \<and> takeWhile (\<lambda>b. b \<noteq> 0) [0x80001000, 0xA0002000, 0, 0x80003000] = [0x80001000, 0xA0002000 :: addr]
   \<and> IS_KVA0 kseg 0x80001000 \<and> IS_KVA kseg 0xA0002000
   \<and> DRV_ETHMAC_LibRxBuffersAppend kseg mac_pools [0x80001000, 0xA0002000, 0, 0x80003000] 0 {}
       = DRV_ETHMAC_LibRxBuffersAppend kseg mac_pools [0x80001000, 0xA0002000, 0, 0x80003000]
           0x7fffffff {}
   \<and> (\<exists>s'. DRV_ETHMAC_LibRxBuffersAppend kseg mac_pools [0x80001000, 0xA0002000, 0, 0x80003000] 0 {}
               = Some (s', DRV_ETHMAC_RES_OK)
         \<and> dcpt_list (mem s') (EnetRxBusyPtr s') [0x400, 0x320, 0x300]
         \<and> dcpt_list (mem s') (EnetRxFreePtr s') []
         \<and> map (\<lambda>q. pEDBuff (mem s' q)) [0x400, 0x320] = [0x1000, 0x2000])"
proof -
  have k: "IS_KVA0 kseg 0x80001000" "IS_KVA kseg 0xA0002000"
    "KVA_TO_PA kseg 0x80001000 = 0x1000" "KVA_TO_PA kseg 0xA0002000 = 0x2000"
    by (simp_all add: kseg_def)
  note T = RxBuffersAppend_nBuffs_0_no_limit
         [of kseg mac_pools "[0x80001000, 0xA0002000, 0, 0x80003000]" "{}"
             "[0x300, 0x320]" "[0x400]" "[0x80001000, 0xA0002000]" "[0x300, 0x320]"]
  have eq: "DRV_ETHMAC_LibRxBuffersAppend kseg mac_pools [0x80001000, 0xA0002000, 0, 0x80003000] 0 {}
       = DRV_ETHMAC_LibRxBuffersAppend kseg mac_pools [0x80001000, 0xA0002000, 0, 0x80003000]
           0x7fffffff {}"
    by (rule conjunct1 [OF T])
  have "\<exists>s'. DRV_ETHMAC_LibRxBuffersAppend kseg mac_pools [0x80001000, 0xA0002000, 0, 0x80003000] 0 {}
               = Some (s', DRV_ETHMAC_RES_OK)
         \<and> dcpt_list (mem s') (EnetRxBusyPtr s') ([0x400] @ tl [0x300, 0x320] @ [hd [0x300, 0x320]])
         \<and> dcpt_list (mem s') (EnetRxFreePtr s')
              (drop (length [0x80001000, 0xA0002000 :: addr]) [0x300, 0x320])
         \<and> map (\<lambda>q. pEDBuff (mem s' q)) (last [0x400] # tl [0x300, 0x320])
             = map (KVA_TO_PA kseg) [0x80001000, 0xA0002000]"
    by (rule mp [OF conjunct2 [OF T]]) (simp add: mac_pools_wf k)
  then obtain s' where
    c: "DRV_ETHMAC_LibRxBuffersAppend kseg mac_pools [0x80001000, 0xA0002000, 0, 0x80003000] 0 {}
               = Some (s', DRV_ETHMAC_RES_OK)"
    and b: "dcpt_list (mem s') (EnetRxBusyPtr s') [0x400, 0x320, 0x300]"
    and f: "dcpt_list (mem s') (EnetRxFreePtr s') []"
    and m: "map (\<lambda>q. pEDBuff (mem s' q)) [0x400, 0x320] = [0x1000, 0x2000]"
    by (auto simp: k)
  show ?thesis
  proof (intro conjI)
    show "\<exists>s'. DRV_ETHMAC_LibRxBuffersAppend kseg mac_pools [0x80001000, 0xA0002000, 0, 0x80003000] 0 {}
               = Some (s', DRV_ETHMAC_RES_OK)
         \<and> dcpt_list (mem s') (EnetRxBusyPtr s') [0x400, 0x320, 0x300]
         \<and> dcpt_list (mem s') (EnetRxFreePtr s') []
         \<and> map (\<lambda>q. pEDBuff (mem s' q)) [0x400, 0x320] = [0x1000, 0x2000]"
      by (rule exI [of _ s']) (intro conjI c b f m)
    show "takeWhile (\<lambda>b. b \<noteq> 0) [0x80001000, 0xA0002000, 0, 0x80003000]
      = [0x80001000, 0xA0002000 :: addr]" by simp
  qed (rule eq mac_pools_wf k)+
qed

lemma rx3_null_loop:
  "(case RxBuffersAppend_loop kseg {} mac_pools DRV_ETHMAC_LIB_ListInit
           [0x80001000, 0x80002000, 0x80003000, 0] 0x7fffffff of
      None \<Rightarrow> False
    | Some (r, s1, pL1, pB, nB) \<Rightarrow>
        r = DRV_ETHMAC_RES_NO_DESCRIPTORS \<and> pB \<noteq> 0 \<and> nB \<noteq> 0
        \<and> pL1 = \<lparr>head = 0x300, tail = 0x320\<rparr> \<and> dcpt_list (mem s1) pL1 [0x300, 0x320]
        \<and> EnetRxFreePtr s1 = DRV_ETHMAC_LIB_ListInit
        \<and> EnetRxBusyPtr s1 = \<lparr>head = 0x400, tail = 0x400\<rparr>
        \<and> dcpt_list (mem s1) (EnetRxBusyPtr s1) [0x400])"
  by (simp add: RxBuffersAppend_prepare_def DRV_ETHMAC_LIB_ListRemoveHead_def
      DRV_ETHMAC_LIB_ListAddTail_def DRV_ETHMAC_LIB_ListInit_def Let_def mac_pools_def mac0_def
      kseg_def node0_def dcpt_list_def)

text \<open>
  Claim C9 as stated fails: with \<open>nBuffs = 0\<close>, an array of three buffers in the first
  kernel window, ended by a null pointer, and two descriptors in RX-free, the call
  returns \<open>NO_DESCRIPTORS\<close> and appends none of the buffers: RX-busy still holds the
  sentinel alone and the two descriptors are back in RX-free.
\<close>

theorem RxBuffersAppend_nBuffs_0_NO_DESCRIPTORS_counterexample:
  "dcpt_list (mem mac_pools) (EnetRxFreePtr mac_pools) [0x300, 0x320]
   \<and> dcpt_list (mem mac_pools) (EnetRxBusyPtr mac_pools) [0x400]
   \<and> (case DRV_ETHMAC_LibRxBuffersAppend kseg mac_pools
             [0x80001000, 0x80002000, 0x80003000, 0] 0 {} of
         None \<Rightarrow> False
       | Some (s', res) \<Rightarrow>
           res = DRV_ETHMAC_RES_NO_DESCRIPTORS
           \<and> dcpt_list (mem s') (EnetRxBusyPtr s') [0x400]
           \<and> dcpt_list (mem s') (EnetRxFreePtr s') [0x300, 0x320])"
proof -
  obtain r s1 pL1 pB nB where
    lp: "RxBuffersAppend_loop kseg {} mac_pools DRV_ETHMAC_LIB_ListInit
           [0x80001000, 0x80002000, 0x80003000, 0] 0x7fffffff = Some (r, s1, pL1, pB, nB)"
    using rx3_null_loop
    by (cases "RxBuffersAppend_loop kseg {} mac_pools DRV_ETHMAC_LIB_ListInit
           [0x80001000, 0x80002000, 0x80003000, 0] 0x7fffffff") auto
  with rx3_null_loop have r: "r = DRV_ETHMAC_RES_NO_DESCRIPTORS" "pB \<noteq> 0" "nB \<noteq> 0"
    and L1: "dcpt_list (mem s1) pL1 [0x300, 0x320]"
    and F1: "EnetRxFreePtr s1 = DRV_ETHMAC_LIB_ListInit"
    and B1: "dcpt_list (mem s1) (EnetRxBusyPtr s1) [0x400]"
    by auto
  have F1': "dcpt_list (mem s1) (EnetRxFreePtr s1) []" unfolding F1 by (rule ListInit_list)
  from ListAppendTail_spec [OF F1' L1, of kseg]
  obtain h' pL' where
    app: "DRV_ETHMAC_LIB_ListAppendTail kseg (mem s1) (EnetRxFreePtr s1) pL1 =
            Some (h', pL', DRV_ETHMAC_LIB_ListInit)"
    and F': "dcpt_list h' pL' [0x300, 0x320]"
    and fr: "\<forall>q. q \<notin> set [0x300, 0x320] \<and> q \<noteq> tail (EnetRxFreePtr s1) \<longrightarrow> h' q = mem s1 q"
    by auto
  have "h' 0x400 = mem s1 0x400" using fr F1 by (simp add: DRV_ETHMAC_LIB_ListInit_def)
  then have B': "dcpt_list h' (EnetRxBusyPtr s1) [0x400]"
    by (intro dcpt_list_cong [OF B1]) simp
  have c: "DRV_ETHMAC_LibRxBuffersAppend kseg mac_pools [0x80001000, 0x80002000, 0x80003000, 0] 0 {}
          = Some (s1\<lparr>mem := h', EnetRxFreePtr := pL'\<rparr>, DRV_ETHMAC_RES_NO_DESCRIPTORS)"
    unfolding DRV_ETHMAC_LibRxBuffersAppend_def
    using r app by (simp add: lp del: RxBuffersAppend_loop.simps)
  have t: "case DRV_ETHMAC_LibRxBuffersAppend kseg mac_pools
             [0x80001000, 0x80002000, 0x80003000, 0] 0 {} of
         None \<Rightarrow> False
       | Some (s', res) \<Rightarrow>
           res = DRV_ETHMAC_RES_NO_DESCRIPTORS
           \<and> dcpt_list (mem s') (EnetRxBusyPtr s') [0x400]
           \<and> dcpt_list (mem s') (EnetRxFreePtr s') [0x300, 0x320]"
    unfolding c using F' B' by simp
  show ?thesis by (intro conjI mac_pools_wf(3) mac_pools_wf(4) t)
qed

section \<open>The append protocol at its call sites\<close>

lemma EthAppendBusyList_own:
  assumes "dcpt_list h pB bs" and "bs \<noteq> []" and "dcpt_list h pN ns" and "ns \<noteq> []"
    and "set bs \<inter> set ns = {}"
    and own: "\<forall>q \<in> set (tl ns). EOWN (hdr (h q))"
  shows "\<exists>h' e' pB' pN'.
      EthAppendBusyList pf h ethId pB pN rxAck = Some (h', e', pB', pN')
    \<and> busy_sentinel h' pB' bs ns
    \<and> (\<forall>q. q \<notin> set ns \<and> q \<noteq> last bs \<longrightarrow> h' q = h q)"
proof -
  obtain h' pB' where
    call: "EthAppendBusyList pf h ethId pB pN rxAck =
        Some (h',
              ethId\<lparr>BUFCDEC := BUFCDEC ethId +
                (if rxAck then length (filter (\<lambda>q. \<not> rx_nack (hdr (h q))) ns) else 0)\<rparr>,
              pB', DRV_ETHMAC_LIB_ListInit)"
    and B': "dcpt_list h' pB' (bs @ tl ns @ [hd ns])"
    and t: "hdr (h' (last bs)) = (hdr (h (hd ns)))\<lparr>EOWN := True\<rparr>"
    and a: "hdr (h' (hd ns)) = hdr_w_0" "pEDBuff (h' (hd ns)) = 0"
    and o: "\<forall>q. q \<noteq> last bs \<and> q \<noteq> hd ns \<longrightarrow>
          hdr (h' q) = hdr (h q) \<and> pEDBuff (h' q) = pEDBuff (h q) \<and> stat (h' q) = stat (h q)"
    and fr: "\<forall>q. q \<notin> set ns \<and> q \<noteq> last bs \<longrightarrow> h' q = h q"
    using EthAppendBusyList_spec [OF assms(1-5), of pf ethId rxAck] by blast
  have tl: "tail pB' = hd ns" "hd ns \<noteq> 0"
    using dcpt_list_last [OF B'] by auto
  have d: "distinct ns" by (rule dcpt_list_distinct [OF assms(3)])
  have mid: "\<forall>q \<in> set (tl ns). EOWN (hdr (h' q))"
  proof
    fix q assume q: "q \<in> set (tl ns)"
    then have "q \<in> set ns" using assms(4) by (cases ns) auto
    moreover have "last bs \<in> set bs" using assms(2) by simp
    ultimately have "q \<noteq> last bs" using assms(5) by auto
    moreover have "q \<noteq> hd ns" using q d assms(4) by (cases ns) auto
    ultimately show "EOWN (hdr (h' q))" using o own q by simp
  qed
  have "busy_sentinel h' pB' bs ns"
    unfolding busy_sentinel_def using B' tl a t mid by (simp add: hdr_w_0_def)
  with call fr show ?thesis by simp
qed

lemma EthTxSchedBuffer_hdr:
  assumes "EthTxSchedBuffer pf s pBuf nByt pList = Some (s', pList', res)"
    and "q \<noteq> head (EnetTxFreePtr s)"
  shows "hdr (mem s' q) = hdr (mem s q)"
  using assms
  by (auto simp: EthTxSchedBuffer_def DRV_ETHMAC_LIB_ListRemoveHead_def
      DRV_ETHMAC_LIB_ListAddTail_def Let_def
      split: if_splits)

lemma TxSendPacket_loop_stop:
  "res \<noteq> DRV_ETHMAC_RES_OK \<Longrightarrow> TxSendPacket_loop pf s pList res pPkt = Some (s, pList, res)"
  by (cases pPkt) auto

lemma TxSendPacket_loop_own:
  assumes F: "dcpt_list (mem s) (EnetTxFreePtr s) fs" and L: "dcpt_list (mem s) pList ps"
    and d: "set fs \<inter> set ps = {}"
    and own: "\<forall>q \<in> set ps. EOWN (hdr (mem s q))"
    and lp: "TxSendPacket_loop pf s pList DRV_ETHMAC_RES_OK pPkt = Some (s1, pL1, DRV_ETHMAC_RES_OK)"
  shows "tx_entries pPkt \<le> length fs
     \<and> s1 = s\<lparr>mem := mem s1, EnetTxFreePtr := EnetTxFreePtr s1\<rparr>
     \<and> dcpt_list (mem s1) (EnetTxFreePtr s1) (drop (tx_entries pPkt) fs)
     \<and> dcpt_list (mem s1) pL1 (ps @ take (tx_entries pPkt) fs)
     \<and> (\<forall>q \<in> set (ps @ take (tx_entries pPkt) fs). EOWN (hdr (mem s1 q)))
     \<and> (\<forall>q. q \<notin> set fs \<and> q \<notin> set ps \<longrightarrow> mem s1 q = mem s q)"
  using assms
proof (induction pPkt arbitrary: s pList ps fs)
  case Nil
  then show ?case by (auto simp: tx_entries_def)
next
  case (Cons d pPkt)
  show ?case
  proof (cases "pBuff d \<noteq> 0 \<and> nBytes d \<noteq> 0")
    case False
    then have "TxSendPacket_loop pf s pList DRV_ETHMAC_RES_OK (d # pPkt)
        = Some (s, pList, DRV_ETHMAC_RES_OK)" by auto
    with Cons.prems(5) have "s1 = s" "pL1 = pList" by simp_all
    moreover have "tx_entries (d # pPkt) = 0" using False by (auto simp: tx_entries_def)
    ultimately show ?thesis using Cons.prems by simp
  next
    case go: True
    obtain s' pList' r where
      sb: "EthTxSchedBuffer pf s (pBuff d) (nBytes d) pList = Some (s', pList', r)"
      and st: "s' = s\<lparr>mem := mem s', EnetTxFreePtr := EnetTxFreePtr s'\<rparr>"
      and ok: "r = DRV_ETHMAC_RES_OK \<longrightarrow>
           fs \<noteq> [] \<and> dcpt_list (mem s') (EnetTxFreePtr s') (tl fs)
           \<and> dcpt_list (mem s') pList' (ps @ [hd fs])
           \<and> hdr (mem s' (hd fs)) = (hdr_w_NPV_EOWN (nBytes d))\<lparr>kv0 := IS_KVA0 pf (pBuff d)\<rparr>
           \<and> (\<forall>q. q \<noteq> hd fs \<and> q \<notin> set ps \<longrightarrow> mem s' q = mem s q)"
      using EthTxSchedBuffer_spec [OF Cons.prems(1,2,3), of pf "pBuff d" "nBytes d"] by blast
    have step: "TxSendPacket_loop pf s pList DRV_ETHMAC_RES_OK (d # pPkt)
        = TxSendPacket_loop pf s' pList' r pPkt"
      using go sb by simp
    have r: "r = DRV_ETHMAC_RES_OK"
    proof (rule ccontr)
      assume nr: "r \<noteq> DRV_ETHMAC_RES_OK"
      have "TxSendPacket_loop pf s' pList' r pPkt = Some (s', pList', r)"
        by (rule TxSendPacket_loop_stop [OF nr])
      then have "Some (s', pList', r) = Some (s1, pL1, DRV_ETHMAC_RES_OK)"
        using step Cons.prems(5) by (simp only:)
      then show False using nr by simp
    qed
    with ok have fne: "fs \<noteq> []" and F': "dcpt_list (mem s') (EnetTxFreePtr s') (tl fs)"
      and L': "dcpt_list (mem s') pList' (ps @ [hd fs])"
      and hh: "hdr (mem s' (hd fs)) = (hdr_w_NPV_EOWN (nBytes d))\<lparr>kv0 := IS_KVA0 pf (pBuff d)\<rparr>"
      and fr: "\<forall>q. q \<noteq> hd fs \<and> q \<notin> set ps \<longrightarrow> mem s' q = mem s q" by simp_all
    have dd: "distinct fs" by (rule dcpt_list_distinct [OF Cons.prems(1)])
    have d': "set (tl fs) \<inter> set (ps @ [hd fs]) = {}"
      using Cons.prems(3) dd fne by (cases fs) auto
    have hdfs: "head (EnetTxFreePtr s) = hd fs"
      using Cons.prems(1) fne by (cases fs) (auto simp: dcpt_list_def)
    have own': "\<forall>q \<in> set (ps @ [hd fs]). EOWN (hdr (mem s' q))"
    proof
      fix q assume q: "q \<in> set (ps @ [hd fs])"
      show "EOWN (hdr (mem s' q))"
      proof (cases "q = hd fs")
        case True
        then show ?thesis using hh by (simp add: hdr_w_NPV_EOWN_def)
      next
        case False
        then have "q \<in> set ps" using q by simp
        moreover have "hdr (mem s' q) = hdr (mem s q)"
          using EthTxSchedBuffer_hdr [OF sb, of q] False hdfs by simp
        ultimately show ?thesis using Cons.prems(4) by simp
      qed
    qed
    have lp': "TxSendPacket_loop pf s' pList' DRV_ETHMAC_RES_OK pPkt = Some (s1, pL1, DRV_ETHMAC_RES_OK)"
      using step r Cons.prems(5) by simp
    from Cons.IH [OF F' L' d' own' lp']
    have k: "tx_entries pPkt \<le> length (tl fs)"
      and st1: "s1 = s'\<lparr>mem := mem s1, EnetTxFreePtr := EnetTxFreePtr s1\<rparr>"
      and F1: "dcpt_list (mem s1) (EnetTxFreePtr s1) (drop (tx_entries pPkt) (tl fs))"
      and L1: "dcpt_list (mem s1) pL1 ((ps @ [hd fs]) @ take (tx_entries pPkt) (tl fs))"
      and own1: "\<forall>q \<in> set ((ps @ [hd fs]) @ take (tx_entries pPkt) (tl fs)). EOWN (hdr (mem s1 q))"
      and fr1: "\<forall>q. q \<notin> set (tl fs) \<and> q \<notin> set (ps @ [hd fs]) \<longrightarrow> mem s1 q = mem s' q"
      by simp_all
    have n: "tx_entries (d # pPkt) = Suc (tx_entries pPkt)" using go by (simp add: tx_entries_def)
    have e1: "drop (Suc (tx_entries pPkt)) fs = drop (tx_entries pPkt) (tl fs)"
      "ps @ take (Suc (tx_entries pPkt)) fs = (ps @ [hd fs]) @ take (tx_entries pPkt) (tl fs)"
      using fne by (cases fs; simp)+
    have "s1 = s\<lparr>mem := mem s1, EnetTxFreePtr := EnetTxFreePtr s1\<rparr>"
      using st st1 by (metis DRV_ETHMAC_INSTANCE_DCPT.update_convs(1,2) DRV_ETHMAC_INSTANCE_DCPT.surjective
          DRV_ETHMAC_INSTANCE_DCPT.select_convs)
    moreover have "\<forall>q. q \<notin> set fs \<and> q \<notin> set ps \<longrightarrow> mem s1 q = mem s q"
      using fr fr1 fne by (cases fs) auto
    moreover have "Suc (tx_entries pPkt) \<le> length fs" using k fne by (cases fs) auto
    ultimately show ?thesis
      unfolding n e1 using F1 L1 own1 by simp
  qed
qed


lemma EthTxSchedList_sentinel:
  assumes B: "dcpt_list (mem s) (EnetTxBusyPtr s) bs" and Bne: "bs \<noteq> []"
    and N: "dcpt_list (mem s) pList ns" and Nne: "ns \<noteq> []" and d: "set bs \<inter> set ns = {}"
    and own: "\<forall>q \<in> set ns. EOWN (hdr (mem s q))"
  shows "\<exists>s'. EthTxSchedList pf s pList = Some s'
     \<and> busy_sentinel (mem s') (EnetTxBusyPtr s') bs ns
     \<and> EnetTxFreePtr s' = EnetTxFreePtr s
     \<and> (\<forall>q. q \<notin> set ns \<and> q \<noteq> last bs \<longrightarrow> mem s' q = mem s q)"
proof -
  have hd: "head pList \<noteq> 0" using dcpt_list_empty_iff [OF N] Nne by simp
  have tl: "tail pList \<noteq> 0" "tail pList \<in> set ns" using dcpt_list_last [OF N Nne] by simp_all
  have hdin: "head pList \<in> set ns" using N Nne by (cases ns) (auto simp: dcpt_list_def)
  let ?h = "mem s"
  let ?h1 = "?h(head pList := (?h (head pList))\<lparr>hdr := (hdr (?h (head pList)))\<lparr>SOP := True\<rparr>\<rparr>)"
  let ?h2 = "?h1(tail pList := (?h1 (tail pList))\<lparr>hdr := (hdr (?h1 (tail pList)))\<lparr>EOP := True\<rparr>\<rparr>)"
  have n2: "\<And>q. next (?h2 q) = next (?h q)" by simp
  have e2: "\<And>q. EOWN (hdr (?h2 q)) = EOWN (hdr (?h q))" by simp
  have f2: "\<And>q. q \<notin> set ns \<Longrightarrow> ?h2 q = ?h q" using tl hdin by auto
  have B2: "dcpt_list ?h2 (EnetTxBusyPtr s) bs" by (rule dcpt_list_cong [OF B]) (simp only: n2)
  have N2: "dcpt_list ?h2 pList ns" by (rule dcpt_list_cong [OF N]) (simp only: n2)
  have own2: "\<forall>q \<in> set (tl ns). EOWN (hdr (?h2 q))"
  proof
    fix q assume "q \<in> set (tl ns)"
    then have "q \<in> set ns" using Nne by (cases ns) auto
    then have "EOWN (hdr (?h q))" using own by blast
    then show "EOWN (hdr (?h2 q))" by (simp only: e2)
  qed
  from EthAppendBusyList_own [OF B2 Bne N2 Nne d own2, of pf "pEthReg s" False]
  obtain h' e' pB' pN' where
    ap: "EthAppendBusyList pf ?h2 (pEthReg s) (EnetTxBusyPtr s) pList False = Some (h', e', pB', pN')"
    and bs: "busy_sentinel h' pB' bs ns"
    and fr: "\<forall>q. q \<notin> set ns \<and> q \<noteq> last bs \<longrightarrow> h' q = ?h2 q"
    by (elim exE conjE)
  let ?e1 = "if DRV_ETH_TxPacketDescAddrGet e' = 0
             then DRV_ETH_TxPacketDescAddrSet e' (KVA_TO_PA pf (head pB' + hwDcpt_off pf)) else e'"
  let ?s' = "s\<lparr>mem := h', EnetTxBusyPtr := pB', pEthReg := DRV_ETH_TxRTSEnable ?e1\<rparr>"
  have call: "EthTxSchedList pf s pList = Some ?s'"
    using hd tl(1) ap by (simp add: EthTxSchedList_def DRV_ETHMAC_LIB_ListIsEmpty_def Let_def)
  have fr': "\<forall>q. q \<notin> set ns \<and> q \<noteq> last bs \<longrightarrow> mem ?s' q = mem s q"
  proof (intro allI impI)
    fix q assume q: "q \<notin> set ns \<and> q \<noteq> last bs"
    then have "h' q = ?h2 q" using fr by blast
    also have "\<dots> = ?h q" using q by (intro f2) simp
    finally show "mem ?s' q = mem s q" by simp
  qed
  show ?thesis
    by (rule exI [of _ ?s']) (use call bs fr' in simp)
qed

lemma TxSend_finish_res:
  "TxSend_finish pf s1 pL res = Some (s', res') \<Longrightarrow> res' = res"
  by (auto simp: TxSend_finish_def split: if_splits option.splits)

lemma TxSend_finish_sentinel:
  assumes F: "dcpt_list (mem s) (EnetTxFreePtr s) tfs"
    and B: "dcpt_list (mem s) (EnetTxBusyPtr s) tbs" and Bne: "tbs \<noteq> []"
    and d: "set tfs \<inter> set tbs = {}"
    and n: "0 < n" "n \<le> length tfs"
    and st1: "s1 = s\<lparr>mem := mem s1, EnetTxFreePtr := EnetTxFreePtr s1\<rparr>"
    and F1: "dcpt_list (mem s1) (EnetTxFreePtr s1) (drop n tfs)"
    and L1: "dcpt_list (mem s1) pL1 (take n tfs)"
    and own1: "\<forall>q \<in> set (take n tfs). EOWN (hdr (mem s1 q))"
    and fr1: "\<forall>q. q \<notin> set tfs \<longrightarrow> mem s1 q = mem s q"
    and fin: "TxSend_finish pf s1 pL1 DRV_ETHMAC_RES_OK = Some (s', res)"
  shows "busy_sentinel (mem s') (EnetTxBusyPtr s') tbs (take n tfs)
     \<and> dcpt_list (mem s') (EnetTxFreePtr s') (drop n tfs)"
proof -
  have ne: "take n tfs \<noteq> []" using n by (cases tfs) auto
  have bp: "EnetTxBusyPtr s1 = EnetTxBusyPtr s"
    by (subst st1) simp
  have B1: "dcpt_list (mem s1) (EnetTxBusyPtr s1) tbs"
    unfolding bp using fr1 d by (intro dcpt_list_cong [OF B]) auto
  have d1: "set tbs \<inter> set (take n tfs) = {}" using d by (auto dest: in_set_takeD)
  from EthTxSchedList_sentinel [OF B1 Bne L1 ne d1 own1, of pf]
  obtain s2 where c: "EthTxSchedList pf s1 pL1 = Some s2"
    and bs: "busy_sentinel (mem s2) (EnetTxBusyPtr s2) tbs (take n tfs)"
    and fp: "EnetTxFreePtr s2 = EnetTxFreePtr s1"
    and fr: "\<forall>q. q \<notin> set (take n tfs) \<and> q \<noteq> last tbs \<longrightarrow> mem s2 q = mem s1 q"
    by (elim exE conjE)
  have s': "s' = s2" using fin c by (simp add: TxSend_finish_def)
  have dd: "distinct tfs" by (rule dcpt_list_distinct [OF F])
  have lb: "last tbs \<in> set tbs" using Bne by simp
  have "\<And>q. q \<in> set (drop n tfs) \<Longrightarrow> mem s2 q = mem s1 q"
  proof -
    fix q assume q: "q \<in> set (drop n tfs)"
    then have "q \<in> set tfs" by (rule in_set_dropD)
    then have "q \<noteq> last tbs" using d lb by auto
    moreover have "q \<notin> set (take n tfs)" using take_drop_disjoint [OF dd, of n] q by auto
    ultimately show "mem s2 q = mem s1 q" using fr by blast
  qed
  then have "dcpt_list (mem s2) (EnetTxFreePtr s1) (drop n tfs)"
    by (intro dcpt_list_cong [OF F1]) simp
  with bs fp s' show ?thesis by simp
qed

lemma TxSendPacket_sentinel:
  assumes F: "dcpt_list (mem s) (EnetTxFreePtr s) tfs"
    and B: "dcpt_list (mem s) (EnetTxBusyPtr s) tbs" and Bne: "tbs \<noteq> []"
    and d: "set tfs \<inter> set tbs = {}"
    and call: "DRV_ETHMAC_LibTxSendPacket pf s pPkt = Some (s', DRV_ETHMAC_RES_OK)"
    and pos: "0 < tx_entries pPkt"
  shows "tx_entries pPkt \<le> length tfs
     \<and> busy_sentinel (mem s') (EnetTxBusyPtr s') tbs (take (tx_entries pPkt) tfs)
     \<and> dcpt_list (mem s') (EnetTxFreePtr s') (drop (tx_entries pPkt) tfs)"
proof -
  obtain s1 pL1 r where
    lp: "TxSendPacket_loop pf s DRV_ETHMAC_LIB_ListInit DRV_ETHMAC_RES_OK pPkt = Some (s1, pL1, r)"
    and fin: "TxSend_finish pf s1 pL1 r = Some (s', DRV_ETHMAC_RES_OK)"
    using call by (auto simp: DRV_ETHMAC_LibTxSendPacket_def split: option.splits)
  have r: "r = DRV_ETHMAC_RES_OK" using TxSend_finish_res [OF fin] by simp
  have L: "dcpt_list (mem s) DRV_ETHMAC_LIB_ListInit []" by (rule ListInit_list)
  from TxSendPacket_loop_own [OF F L _ _ lp [unfolded r]]
  have k: "tx_entries pPkt \<le> length tfs"
    and st1: "s1 = s\<lparr>mem := mem s1, EnetTxFreePtr := EnetTxFreePtr s1\<rparr>"
    and F1: "dcpt_list (mem s1) (EnetTxFreePtr s1) (drop (tx_entries pPkt) tfs)"
    and L1: "dcpt_list (mem s1) pL1 (take (tx_entries pPkt) tfs)"
    and own1: "\<forall>q \<in> set (take (tx_entries pPkt) tfs). EOWN (hdr (mem s1 q))"
    and fr1: "\<forall>q. q \<notin> set tfs \<longrightarrow> mem s1 q = mem s q"
    by simp_all
  from TxSend_finish_sentinel [OF F B Bne d pos k st1 F1 L1 own1 fr1 fin [unfolded r]] k
  show ?thesis by simp
qed

lemma TxSendBuffer_sentinel:
  assumes F: "dcpt_list (mem s) (EnetTxFreePtr s) tfs"
    and B: "dcpt_list (mem s) (EnetTxBusyPtr s) tbs" and Bne: "tbs \<noteq> []"
    and d: "set tfs \<inter> set tbs = {}"
    and call: "DRV_ETHMAC_LibTxSendBuffer pf s pBuf nByt = Some (s', DRV_ETHMAC_RES_OK)"
  shows "tfs \<noteq> []
     \<and> busy_sentinel (mem s') (EnetTxBusyPtr s') tbs (take 1 tfs)
     \<and> dcpt_list (mem s') (EnetTxFreePtr s') (drop 1 tfs)"
proof -
  obtain s1 pL1 r where
    sb: "EthTxSchedBuffer pf s pBuf nByt DRV_ETHMAC_LIB_ListInit = Some (s1, pL1, r)"
    and fin: "TxSend_finish pf s1 pL1 r = Some (s', DRV_ETHMAC_RES_OK)"
    using call by (auto simp: DRV_ETHMAC_LibTxSendBuffer_def split: option.splits)
  have r: "r = DRV_ETHMAC_RES_OK" using TxSend_finish_res [OF fin] by simp
  have L: "dcpt_list (mem s) DRV_ETHMAC_LIB_ListInit []" by (rule ListInit_list)
  from EthTxSchedBuffer_spec [OF F L, of pf pBuf nByt] sb r
  have st1: "s1 = s\<lparr>mem := mem s1, EnetTxFreePtr := EnetTxFreePtr s1\<rparr>"
    and fne: "tfs \<noteq> []" and F1: "dcpt_list (mem s1) (EnetTxFreePtr s1) (tl tfs)"
    and L1: "dcpt_list (mem s1) pL1 [hd tfs]"
    and hh: "hdr (mem s1 (hd tfs)) = (hdr_w_NPV_EOWN nByt)\<lparr>kv0 := IS_KVA0 pf pBuf\<rparr>"
    and fr: "\<forall>q. q \<noteq> hd tfs \<and> q \<notin> set [] \<longrightarrow> mem s1 q = mem s q"
    by auto
  have t1: "take 1 tfs = [hd tfs]" "drop 1 tfs = tl tfs" using fne by (cases tfs; simp)+
  have own1: "\<forall>q \<in> set (take 1 tfs). EOWN (hdr (mem s1 q))"
    unfolding t1 using hh by (simp add: hdr_w_NPV_EOWN_def)
  have fr1: "\<forall>q. q \<notin> set tfs \<longrightarrow> mem s1 q = mem s q"
    using fr fne by (cases tfs) auto
  have n: "0 < (1::nat)" "1 \<le> length tfs" using fne by (cases tfs; simp)+
  from TxSend_finish_sentinel [OF F B Bne d n st1 F1 [folded t1] L1 [folded t1] own1 fr1
      fin [unfolded r]] fne
  show ?thesis by simp
qed


lemma rx_count_simps:
  "rx_count [] nBuffs = 0"
  "\<not> (pBuf \<noteq> 0 \<and> nBuffs \<noteq> 0) \<Longrightarrow> rx_count (pBuf # ppBuff) nBuffs = 0"
  "pBuf \<noteq> 0 \<and> nBuffs \<noteq> 0 \<Longrightarrow> rx_count (pBuf # ppBuff) nBuffs = Suc (rx_count ppBuff (nBuffs - 1))"
proof -
  show "rx_count [] nBuffs = 0" by (simp add: rx_count_def)
  show "\<not> (pBuf \<noteq> 0 \<and> nBuffs \<noteq> 0) \<Longrightarrow> rx_count (pBuf # ppBuff) nBuffs = 0"
    by (cases "unat nBuffs") (auto simp: rx_count_def unat_eq_0)
  assume go: "pBuf \<noteq> 0 \<and> nBuffs \<noteq> 0"
  then have "unat nBuffs \<noteq> 0" by (simp add: unat_eq_0)
  then obtain k where k: "unat nBuffs = Suc k" by (cases "unat nBuffs") auto
  then have "unat (nBuffs - 1) = k" using unat_minus_one [of nBuffs] go by simp
  with k go show "rx_count (pBuf # ppBuff) nBuffs = Suc (rx_count ppBuff (nBuffs - 1))"
    by (simp add: rx_count_def)
qed

lemma RxBuffersAppend_loop_own:
  assumes F: "dcpt_list (mem s) (EnetRxFreePtr s) fs" and L: "dcpt_list (mem s) pNew ps"
    and d: "set fs \<inter> set ps = {}"
    and own: "\<forall>q \<in> set ps. EOWN (hdr (mem s q))"
    and lp: "RxBuffersAppend_loop pf rxFlags s pNew ppBuff nBuffs
               = Some (DRV_ETHMAC_RES_OK, s1, pN1, pB, nB)"
  shows "rx_count ppBuff nBuffs \<le> length fs
     \<and> s1 = s\<lparr>mem := mem s1, EnetRxFreePtr := EnetRxFreePtr s1\<rparr>
     \<and> dcpt_list (mem s1) (EnetRxFreePtr s1) (drop (rx_count ppBuff nBuffs) fs)
     \<and> dcpt_list (mem s1) pN1 (ps @ take (rx_count ppBuff nBuffs) fs)
     \<and> (\<forall>q \<in> set (ps @ take (rx_count ppBuff nBuffs) fs). EOWN (hdr (mem s1 q)))
     \<and> (\<forall>q. q \<notin> set fs \<and> q \<notin> set ps \<longrightarrow> mem s1 q = mem s q)
     \<and> (pB = 0 \<or> nB = 0)"
  using assms
proof (induction ppBuff arbitrary: s pNew ps fs nBuffs)
  case Nil
  then show ?case by (auto simp: rx_count_simps)
next
  case (Cons pBuf ppBuff)
  show ?case
  proof (cases "pBuf \<noteq> 0 \<and> nBuffs \<noteq> 0")
    case False
    then have "RxBuffersAppend_loop pf rxFlags s pNew (pBuf # ppBuff) nBuffs =
                 Some (DRV_ETHMAC_RES_OK, s, pNew, pBuf, nBuffs)" by auto
    with Cons.prems(5) have "s1 = s" "pN1 = pNew" "pB = pBuf" "nB = nBuffs" by simp_all
    then show ?thesis using Cons.prems(1,2,4) False by (auto simp: rx_count_simps(2) [OF False])
  next
    case go: True
    note n = rx_count_simps(3) [OF go, of ppBuff]
    show ?thesis
    proof (cases fs)
      case Nil
      then have "DRV_ETHMAC_LIB_ListRemoveHead (mem s) (EnetRxFreePtr s) = (0, EnetRxFreePtr s)"
        using Cons.prems(1) ListRemoveHead_Nil by simp
      then have "RxBuffersAppend_loop pf rxFlags s pNew (pBuf # ppBuff) nBuffs =
                 Some (DRV_ETHMAC_RES_NO_DESCRIPTORS, s, pNew, pBuf, nBuffs)"
        using go by simp
      with Cons.prems(5) show ?thesis by simp
    next
      case fs: (Cons a fs')
      obtain pF where rm: "DRV_ETHMAC_LIB_ListRemoveHead (mem s) (EnetRxFreePtr s) = (a, pF)"
        and F': "dcpt_list (mem s) pF fs'"
        using ListRemoveHead_Cons [OF Cons.prems(1) [unfolded fs]] by blast
      have a: "a \<noteq> 0" "a \<notin> set ps" "a \<notin> set fs'"
        using dcpt_list_not0 [OF Cons.prems(1)] dcpt_list_distinct [OF Cons.prems(1)]
          Cons.prems(3) fs by auto
      define h4 where "h4 = RxBuffersAppend_prepare pf rxFlags (mem s) a pBuf"
      have h4n: "\<And>q. next (h4 q) = next (mem s q)" and h4o: "\<And>q. q \<noteq> a \<Longrightarrow> h4 q = mem s q"
        and h4e: "EOWN (hdr (h4 a))"
        by (simp_all add: h4_def RxBuffersAppend_prepare_facts hdr_w_NPV_EOWN_def)
      show ?thesis
      proof (cases "\<not> IS_KVA0 pf pBuf \<and> \<not> IS_KVA pf pBuf")
        case True
        then have "RxBuffersAppend_loop pf rxFlags s pNew (pBuf # ppBuff) nBuffs =
            Some (DRV_ETHMAC_RES_USPACE_ERR, s\<lparr>mem := h4, EnetRxFreePtr := pF\<rparr>, pNew, pBuf, nBuffs)"
          using go rm a by (simp add: h4_def Let_def)
        with Cons.prems(5) show ?thesis by simp
      next
        case valid: False
        define hX where "hX = (if IS_KVA0 pf pBuf
            then h4(a := (h4 a)\<lparr>hdr := (hdr (h4 a))\<lparr>kv0 := True\<rparr>\<rparr>) else h4)"
        have hXn: "\<And>q. next (hX q) = next (mem s q)" and hXo: "\<And>q. q \<noteq> a \<Longrightarrow> hX q = mem s q"
          and hXe: "EOWN (hdr (hX a))"
          by (simp_all add: hX_def h4n h4o h4e)
        have LX: "dcpt_list hX pNew ps" by (rule dcpt_list_cong [OF Cons.prems(2)]) (simp add: hXn)
        have FX: "dcpt_list hX pF fs'" by (rule dcpt_list_cong [OF F']) (simp add: hXn)
        obtain h6 pNew' where add: "DRV_ETHMAC_LIB_ListAddTail pf hX pNew a = Some (h6, pNew')"
          and L6: "dcpt_list h6 pNew' (ps @ [a])"
          and sp: "same_payload hX h6"
          and fr: "\<forall>q. q \<noteq> a \<and> q \<noteq> tail pNew \<longrightarrow> h6 q = hX q"
          using ListAddTail_spec [OF LX a(1) a(2), of pf] by blast
        have tl: "tail pNew = 0 \<or> tail pNew \<in> set ps" by (rule dcpt_list_tail [OF Cons.prems(2)])
        have t0: "tail pNew = 0 \<Longrightarrow> h6 = hX(a := (hX a)\<lparr>next := 0\<rparr>)"
          using add a by (simp add: DRV_ETHMAC_LIB_ListAddTail_def Let_def)
        have fr': "\<forall>q. q \<noteq> a \<and> q \<notin> set ps \<longrightarrow> h6 q = mem s q"
        proof (intro allI impI)
          fix q assume q: "q \<noteq> a \<and> q \<notin> set ps"
          show "h6 q = mem s q"
          proof (cases "tail pNew = 0")
            case True
            then show ?thesis using t0 q hXo by simp
          next
            case False
            then have "q \<noteq> tail pNew" using tl q by auto
            then show ?thesis using fr q hXo by simp
          qed
        qed
        have F6: "dcpt_list h6 pF fs'"
        proof (rule dcpt_list_cong [OF FX])
          fix q assume "q \<in> set fs'"
          then have "q \<noteq> a" "q \<notin> set ps" using a Cons.prems(3) fs by auto
          then show "next (h6 q) = next (hX q)" using fr' hXo by simp
        qed
        have h6h: "\<And>q. hdr (h6 q) = hdr (hX q)" using sp by (simp add: same_payload_def)
        let ?s' = "s\<lparr>mem := h6, EnetRxFreePtr := pF\<rparr>"
        have step: "RxBuffersAppend_loop pf rxFlags s pNew (pBuf # ppBuff) nBuffs =
            RxBuffersAppend_loop pf rxFlags ?s' pNew' ppBuff (nBuffs - 1)"
          using go rm a valid add by (auto simp: hX_def h4_def Let_def)
        have F6': "dcpt_list (mem ?s') (EnetRxFreePtr ?s') fs'" using F6 by simp
        have L6': "dcpt_list (mem ?s') pNew' (ps @ [a])" using L6 by simp
        have d': "set fs' \<inter> set (ps @ [a]) = {}" using Cons.prems(3) a fs by auto
        have own': "\<forall>q \<in> set (ps @ [a]). EOWN (hdr (mem ?s' q))"
        proof
          fix q assume q: "q \<in> set (ps @ [a])"
          show "EOWN (hdr (mem ?s' q))"
          proof (cases "q = a")
            case True
            then show ?thesis using hXe h6h by simp
          next
            case False
            then have "q \<in> set ps" using q by simp
            then show ?thesis using Cons.prems(4) h6h hXo [OF False] by simp
          qed
        qed
        have lp': "RxBuffersAppend_loop pf rxFlags ?s' pNew' ppBuff (nBuffs - 1)
               = Some (DRV_ETHMAC_RES_OK, s1, pN1, pB, nB)"
          using step Cons.prems(5) by (simp only:)
        from Cons.IH [OF F6' L6' d' own' lp']
        have k: "rx_count ppBuff (nBuffs - 1) \<le> length fs'"
          and st1: "s1 = ?s'\<lparr>mem := mem s1, EnetRxFreePtr := EnetRxFreePtr s1\<rparr>"
          and F1: "dcpt_list (mem s1) (EnetRxFreePtr s1) (drop (rx_count ppBuff (nBuffs - 1)) fs')"
          and L1: "dcpt_list (mem s1) pN1 ((ps @ [a]) @ take (rx_count ppBuff (nBuffs - 1)) fs')"
          and own1: "\<forall>q \<in> set ((ps @ [a]) @ take (rx_count ppBuff (nBuffs - 1)) fs').
                       EOWN (hdr (mem s1 q))"
          and fr1: "\<forall>q. q \<notin> set fs' \<and> q \<notin> set (ps @ [a]) \<longrightarrow> mem s1 q = mem ?s' q"
          and z: "pB = 0 \<or> nB = 0"
          by simp_all
        have st: "s1 = s\<lparr>mem := mem s1, EnetRxFreePtr := EnetRxFreePtr s1\<rparr>"
          using st1 by (cases s, cases s1) simp
        have frs: "\<forall>q. q \<notin> set fs \<and> q \<notin> set ps \<longrightarrow> mem s1 q = mem s q"
          using fr1 fr' fs by auto
        show ?thesis
          unfolding n using k st F1 L1 own1 frs z fs by simp
      qed
    qed
  qed
qed


lemma RxBuffersAppend_sentinel:
  assumes F: "dcpt_list (mem s) (EnetRxFreePtr s) rfs"
    and B: "dcpt_list (mem s) (EnetRxBusyPtr s) rbs" and Bne: "rbs \<noteq> []"
    and d: "set rfs \<inter> set rbs = {}"
    and call: "DRV_ETHMAC_LibRxBuffersAppend pf s ppBuff nBuffs0 rxFlags = Some (s', DRV_ETHMAC_RES_OK)"
    and pos: "0 < rx_entries ppBuff nBuffs0"
  shows "rx_entries ppBuff nBuffs0 \<le> length rfs
     \<and> busy_sentinel (mem s') (EnetRxBusyPtr s') rbs (take (rx_entries ppBuff nBuffs0) rfs)
     \<and> dcpt_list (mem s') (EnetRxFreePtr s') (drop (rx_entries ppBuff nBuffs0) rfs)"
proof -
  define nBuffs :: "32 word" where "nBuffs = (if nBuffs0 = 0 then 0x7fffffff else nBuffs0)"
  define n where "n = rx_count ppBuff nBuffs"
  have n: "rx_entries ppBuff nBuffs0 = n" by (simp add: rx_entries_def n_def nBuffs_def)
  have L: "dcpt_list (mem s) DRV_ETHMAC_LIB_ListInit []" by (rule ListInit_list)
  from RxBuffersAppend_loop_spec [OF F L, of pf rxFlags ppBuff nBuffs]
  obtain res s1 pN1 pB nB where
    lp: "RxBuffersAppend_loop pf rxFlags s DRV_ETHMAC_LIB_ListInit ppBuff nBuffs
           = Some (res, s1, pN1, pB, nB)"
    and nd: "res = DRV_ETHMAC_RES_NO_DESCRIPTORS \<longrightarrow> pB \<noteq> 0 \<and> nB \<noteq> 0"
    and us: "res = DRV_ETHMAC_RES_USPACE_ERR \<longrightarrow> pB \<noteq> 0 \<and> nB \<noteq> 0"
    and alt: "res = DRV_ETHMAC_RES_OK \<or> res = DRV_ETHMAC_RES_NO_DESCRIPTORS
                \<or> res = DRV_ETHMAC_RES_USPACE_ERR"
    by auto
  have c: "(case Some (res, s1, pN1, pB, nB) of
        None \<Rightarrow> None
      | Some (res, pMacD1, pNewList, pBuf, nBuffs') \<Rightarrow>
          if pBuf \<noteq> 0 \<and> nBuffs' \<noteq> 0 then
            (case DRV_ETHMAC_LIB_ListAppendTail pf (mem pMacD1) (EnetRxFreePtr pMacD1) pNewList of
               None \<Rightarrow> None
             | Some (h, pFree, pNewList') \<Rightarrow>
                 Some (pMacD1\<lparr>mem := h, EnetRxFreePtr := pFree\<rparr>, res))
          else if \<not> DRV_ETHMAC_LIB_ListIsEmpty pNewList then
            (case EthAppendBusyList pf (mem pMacD1) (pEthReg pMacD1) (EnetRxBusyPtr pMacD1)
                    pNewList True of
               None \<Rightarrow> None
             | Some (h, ethId, pBusy, pNewList') \<Rightarrow>
                 let ethId1 =
                       (if DRV_ETH_RxPacketDescAddrGet ethId = 0
                        then DRV_ETH_RxPacketDescAddrSet ethId
                               (KVA_TO_PA pf (head pBusy + hwDcpt_off pf))
                        else ethId)
                 in Some (pMacD1\<lparr>mem := h, EnetRxBusyPtr := pBusy,
                            pEthReg := DRV_ETH_RxEnable ethId1\<rparr>,
                          DRV_ETHMAC_RES_OK))
          else Some (pMacD1, DRV_ETHMAC_RES_OK)) = Some (s', DRV_ETHMAC_RES_OK)"
    using call unfolding DRV_ETHMAC_LibRxBuffersAppend_def Let_def nBuffs_def [symmetric] lp .
  have r: "res = DRV_ETHMAC_RES_OK"
  proof (rule ccontr)
    assume nr: "res \<noteq> DRV_ETHMAC_RES_OK"
    with alt nd us have "pB \<noteq> 0 \<and> nB \<noteq> 0" by blast
    with c nr show False by (auto split: option.splits)
  qed
  from RxBuffersAppend_loop_own [OF F L _ _ lp [unfolded r]]
  have k: "n \<le> length rfs"
    and st1: "s1 = s\<lparr>mem := mem s1, EnetRxFreePtr := EnetRxFreePtr s1\<rparr>"
    and F1: "dcpt_list (mem s1) (EnetRxFreePtr s1) (drop n rfs)"
    and L1: "dcpt_list (mem s1) pN1 (take n rfs)"
    and own1: "\<forall>q \<in> set (take n rfs). EOWN (hdr (mem s1 q))"
    and fr1: "\<forall>q. q \<notin> set rfs \<longrightarrow> mem s1 q = mem s q"
    and z: "pB = 0 \<or> nB = 0"
    by (simp_all add: n_def)
  have ne: "take n rfs \<noteq> []" using pos n k by (cases rfs) auto
  have hd: "head pN1 \<noteq> 0" using dcpt_list_empty_iff [OF L1] ne by simp
  have bp: "EnetRxBusyPtr s1 = EnetRxBusyPtr s" by (subst st1) simp
  have B1: "dcpt_list (mem s1) (EnetRxBusyPtr s1) rbs"
    unfolding bp using fr1 d by (intro dcpt_list_cong [OF B]) auto
  have d1: "set rbs \<inter> set (take n rfs) = {}" using d by (auto dest: in_set_takeD)
  have own2: "\<forall>q \<in> set (tl (take n rfs)). EOWN (hdr (mem s1 q))"
    using own1 ne by (cases "take n rfs") auto
  from EthAppendBusyList_own [OF B1 Bne L1 ne d1 own2, of pf "pEthReg s1" True]
  obtain h' e' pB' pN' where
    ap: "EthAppendBusyList pf (mem s1) (pEthReg s1) (EnetRxBusyPtr s1) pN1 True = Some (h', e', pB', pN')"
    and bs: "busy_sentinel h' pB' rbs (take n rfs)"
    and fr: "\<forall>q. q \<notin> set (take n rfs) \<and> q \<noteq> last rbs \<longrightarrow> h' q = mem s1 q"
    by (elim exE conjE)
  have s': "mem s' = h'" "EnetRxBusyPtr s' = pB'" "EnetRxFreePtr s' = EnetRxFreePtr s1"
    using c z hd ap by (auto simp: DRV_ETHMAC_LIB_ListIsEmpty_def Let_def)
  have dd: "distinct rfs" by (rule dcpt_list_distinct [OF F])
  have lb: "last rbs \<in> set rbs" using Bne by simp
  have "\<And>q. q \<in> set (drop n rfs) \<Longrightarrow> h' q = mem s1 q"
  proof -
    fix q assume q: "q \<in> set (drop n rfs)"
    then have "q \<in> set rfs" by (rule in_set_dropD)
    then have "q \<noteq> last rbs" using d lb by auto
    moreover have "q \<notin> set (take n rfs)" using take_drop_disjoint [OF dd, of n] q by auto
    ultimately show "h' q = mem s1 q" using fr by blast
  qed
  then have "dcpt_list h' (EnetRxFreePtr s1) (drop n rfs)"
    by (intro dcpt_list_cong [OF F1]) simp
  with bs s' k show ?thesis unfolding n by simp
qed


lemma EthRxAckBuffer_loop_spec:
  assumes A: "dcpt_list h pAck as" and F: "dcpt_list h pFree fs" and S: "dcpt_list h pSt ss"
    and d: "distinct (as @ fs @ ss)"
  shows "\<exists>h1 F1 S1. EthRxAckBuffer_loop pf h e pFree pAck pSt
           = Some (h1,
                   e\<lparr>BUFCDEC := BUFCDEC e +
                     length (filter (\<lambda>q. \<not> sticky (hdr (h q)) \<and> \<not> rx_nack (hdr (h q))) as)\<rparr>,
                   F1, S1)
     \<and> dcpt_list h1 S1 (ss @ filter (\<lambda>q. sticky (hdr (h q))) as)
     \<and> dcpt_list h1 F1 (fs @ filter (\<lambda>q. \<not> sticky (hdr (h q))) as)
     \<and> (\<forall>q. hdr (h1 q) =
              (if q \<in> set as \<and> sticky (hdr (h q))
               then (hdr (h q))\<lparr>EOWN := True, rx_wack := False, EOP := False, SOP := False\<rparr>
               else hdr (h q)))
     \<and> (\<forall>q. pEDBuff (h1 q) = (if q \<in> set as \<and> \<not> sticky (hdr (h q)) then 0 else pEDBuff (h q)))
     \<and> (\<forall>q. q \<notin> set as \<and> q \<notin> set fs \<and> q \<notin> set ss \<and> q \<noteq> 0 \<longrightarrow> h1 q = h q)"
  using assms
proof (induction as arbitrary: h e pFree pAck pSt fs ss)
  case Nil
  then show ?case
    by (subst EthRxAckBuffer_loop.simps) (simp add: ListRemoveHead_Nil)
next
  case (Cons a as)
  obtain pA' where rm: "DRV_ETHMAC_LIB_ListRemoveHead h pAck = (a, pA')" and A': "dcpt_list h pA' as"
    using ListRemoveHead_Cons [OF Cons.prems(1)] by blast
  have a: "a \<noteq> 0" "a \<notin> set as" "a \<notin> set fs" "a \<notin> set ss"
    using dcpt_list_not0 [OF Cons.prems(1)] Cons.prems(4) by auto
  have z: "0 \<notin> set as" "0 \<notin> set fs" "0 \<notin> set ss"
    using dcpt_list_not0 [OF Cons.prems(1)] dcpt_list_not0 [OF Cons.prems(2)]
      dcpt_list_not0 [OF Cons.prems(3)] by auto
  have dis: "set as \<inter> set fs = {}" "set as \<inter> set ss = {}" "set fs \<inter> set ss = {}"
    "distinct as" "distinct fs" "distinct ss"
    using Cons.prems(4) by auto
  show ?case
  proof (cases "sticky (hdr (h a))")
    case True
    define hS where "hS = h(a := (h a)\<lparr>hdr := (hdr (h a))\<lparr>SOP := False, EOP := False,
                                   rx_wack := False, EOWN := True\<rparr>\<rparr>)"
    have hSn: "\<And>q. next (hS q) = next (h q)" and hSo: "\<And>q. q \<noteq> a \<Longrightarrow> hS q = h q"
      and hSp: "\<And>q. pEDBuff (hS q) = pEDBuff (h q)"
      by (simp_all add: hS_def)
    have SS: "dcpt_list hS pSt ss" by (rule dcpt_list_cong [OF Cons.prems(3)]) (simp add: hSn)
    obtain h3 S3 where add: "DRV_ETHMAC_LIB_ListAddTail pf hS pSt a = Some (h3, S3)"
      and S3: "dcpt_list h3 S3 (ss @ [a])" and sp: "same_payload hS h3"
      and fr: "\<forall>q. q \<noteq> a \<and> q \<noteq> tail pSt \<longrightarrow> h3 q = hS q"
      using ListAddTail_spec [OF SS a(1) a(4), of pf] by blast
    have tl: "tail pSt = 0 \<or> tail pSt \<in> set ss" by (rule dcpt_list_tail [OF Cons.prems(3)])
    have fr3: "\<And>q. q \<noteq> a \<Longrightarrow> q \<notin> set ss \<Longrightarrow> q \<noteq> 0 \<Longrightarrow> h3 q = h q"
      using fr tl hSo by metis
    have A3: "dcpt_list h3 pA' as"
    proof (rule dcpt_list_cong [OF A'])
      fix q assume "q \<in> set as"
      then have "q \<noteq> a" "q \<notin> set ss" "q \<noteq> 0" using a dis z by auto
      then show "next (h3 q) = next (h q)" using fr3 by simp
    qed
    have F3: "dcpt_list h3 pFree fs"
    proof (rule dcpt_list_cong [OF Cons.prems(2)])
      fix q assume "q \<in> set fs"
      then have "q \<noteq> a" "q \<notin> set ss" "q \<noteq> 0" using a dis z by auto
      then show "next (h3 q) = next (h q)" using fr3 by simp
    qed
    have d3: "distinct (as @ fs @ (ss @ [a]))" using Cons.prems(4) by auto
    have hdr3: "\<And>q. hdr (h3 q) = hdr (hS q)" and pb3: "\<And>q. pEDBuff (h3 q) = pEDBuff (h q)"
      using sp hSp by (simp_all add: same_payload_def)
    have hdr3o: "\<And>q. q \<noteq> a \<Longrightarrow> hdr (h3 q) = hdr (h q)" using hdr3 hSo by simp
    have hdr3a: "hdr (h3 a) = (hdr (h a))\<lparr>EOWN := True, rx_wack := False, EOP := False, SOP := False\<rparr>"
      using hdr3 by (simp add: hS_def)
    have flt: "filter (\<lambda>q. sticky (hdr (h3 q))) as = filter (\<lambda>q. sticky (hdr (h q))) as"
      "filter (\<lambda>q. \<not> sticky (hdr (h3 q))) as = filter (\<lambda>q. \<not> sticky (hdr (h q))) as"
      "filter (\<lambda>q. \<not> sticky (hdr (h3 q)) \<and> \<not> rx_nack (hdr (h3 q))) as
         = filter (\<lambda>q. \<not> sticky (hdr (h q)) \<and> \<not> rx_nack (hdr (h q))) as"
    proof -
      have "\<And>q. q \<in> set as \<Longrightarrow> hdr (h3 q) = hdr (h q)" using a(2) hdr3o by metis
      then show "filter (\<lambda>q. sticky (hdr (h3 q))) as = filter (\<lambda>q. sticky (hdr (h q))) as"
        "filter (\<lambda>q. \<not> sticky (hdr (h3 q))) as = filter (\<lambda>q. \<not> sticky (hdr (h q))) as"
        "filter (\<lambda>q. \<not> sticky (hdr (h3 q)) \<and> \<not> rx_nack (hdr (h3 q))) as
           = filter (\<lambda>q. \<not> sticky (hdr (h q)) \<and> \<not> rx_nack (hdr (h q))) as"
        by (simp_all cong: filter_cong)
    qed
    from Cons.IH [OF A3 F3 S3 d3, of e]
    obtain h1 F1 S1 where
      lp: "EthRxAckBuffer_loop pf h3 e pFree pA' S3
           = Some (h1,
                   e\<lparr>BUFCDEC := BUFCDEC e +
                     length (filter (\<lambda>q. \<not> sticky (hdr (h q)) \<and> \<not> rx_nack (hdr (h q))) as)\<rparr>,
                   F1, S1)"
      and S1: "dcpt_list h1 S1 ((ss @ [a]) @ filter (\<lambda>q. sticky (hdr (h q))) as)"
      and F1: "dcpt_list h1 F1 (fs @ filter (\<lambda>q. \<not> sticky (hdr (h q))) as)"
      and H1: "\<forall>q. hdr (h1 q) =
              (if q \<in> set as \<and> sticky (hdr (h3 q))
               then (hdr (h3 q))\<lparr>EOWN := True, rx_wack := False, EOP := False, SOP := False\<rparr>
               else hdr (h3 q))"
      and P1: "\<forall>q. pEDBuff (h1 q) = (if q \<in> set as \<and> \<not> sticky (hdr (h3 q)) then 0 else pEDBuff (h3 q))"
      and fr1: "\<forall>q. q \<notin> set as \<and> q \<notin> set fs \<and> q \<notin> set (ss @ [a]) \<and> q \<noteq> 0 \<longrightarrow> h1 q = h3 q"
      unfolding flt by (elim exE conjE)
    have call: "EthRxAckBuffer_loop pf h e pFree pAck pSt
           = Some (h1,
                   e\<lparr>BUFCDEC := BUFCDEC e +
                     length (filter (\<lambda>q. \<not> sticky (hdr (h q)) \<and> \<not> rx_nack (hdr (h q))) (a # as))\<rparr>,
                   F1, S1)"
      using lp True
      by (subst EthRxAckBuffer_loop.simps) (simp add: rm a add [unfolded hS_def] Let_def)
    have H: "\<forall>q. hdr (h1 q) =
              (if q \<in> set (a # as) \<and> sticky (hdr (h q))
               then (hdr (h q))\<lparr>EOWN := True, rx_wack := False, EOP := False, SOP := False\<rparr>
               else hdr (h q))"
    proof
      fix q
      show "hdr (h1 q) =
              (if q \<in> set (a # as) \<and> sticky (hdr (h q))
               then (hdr (h q))\<lparr>EOWN := True, rx_wack := False, EOP := False, SOP := False\<rparr>
               else hdr (h q))"
      proof (cases "q = a")
        case True
        then show ?thesis using H1 a(2) hdr3a \<open>sticky (hdr (h a))\<close> by simp
      next
        case False
        then show ?thesis using H1 hdr3o by simp
      qed
    qed
    have P: "\<forall>q. pEDBuff (h1 q) = (if q \<in> set (a # as) \<and> \<not> sticky (hdr (h q)) then 0 else pEDBuff (h q))"
    proof
      fix q
      show "pEDBuff (h1 q) = (if q \<in> set (a # as) \<and> \<not> sticky (hdr (h q)) then 0 else pEDBuff (h q))"
      proof (cases "q = a")
        case True
        then show ?thesis using P1 a(2) pb3 \<open>sticky (hdr (h a))\<close> by simp
      next
        case False
        then show ?thesis using P1 pb3 hdr3o by simp
      qed
    qed
    have frr: "\<forall>q. q \<notin> set (a # as) \<and> q \<notin> set fs \<and> q \<notin> set ss \<and> q \<noteq> 0 \<longrightarrow> h1 q = h q"
      using fr1 fr3 by auto
    show ?thesis
      by (rule exI [of _ h1], rule exI [of _ F1], rule exI [of _ S1])
         (use call S1 F1 H P frr True in simp)
  next
    case False
    obtain h1' F1' where add: "DRV_ETHMAC_LIB_ListAddTail pf h pFree a = Some (h1', F1')"
      and F1': "dcpt_list h1' F1' (fs @ [a])" and sp: "same_payload h h1'"
      and fr: "\<forall>q. q \<noteq> a \<and> q \<noteq> tail pFree \<longrightarrow> h1' q = h q"
      using ListAddTail_spec [OF Cons.prems(2) a(1) a(3), of pf] by blast
    define h2 where "h2 = h1'(a := (h1' a)\<lparr>pEDBuff := 0\<rparr>)"
    have h2n: "\<And>q. next (h2 q) = next (h1' q)" and h2o: "\<And>q. q \<noteq> a \<Longrightarrow> h2 q = h1' q"
      and hdr2: "\<And>q. hdr (h2 q) = hdr (h q)"
      and pb2o: "\<And>q. q \<noteq> a \<Longrightarrow> pEDBuff (h2 q) = pEDBuff (h q)" and pb2a: "pEDBuff (h2 a) = 0"
      and hdr1': "\<And>q. hdr (h1' q) = hdr (h q)"
      using sp by (simp_all add: h2_def same_payload_def)
    have tl: "tail pFree = 0 \<or> tail pFree \<in> set fs" by (rule dcpt_list_tail [OF Cons.prems(2)])
    have fr2: "\<And>q. q \<noteq> a \<Longrightarrow> q \<notin> set fs \<Longrightarrow> q \<noteq> 0 \<Longrightarrow> h2 q = h q"
      using fr tl h2o by metis
    have F2: "dcpt_list h2 F1' (fs @ [a])" by (rule dcpt_list_cong [OF F1']) (simp add: h2n)
    have A2: "dcpt_list h2 pA' as"
    proof (rule dcpt_list_cong [OF A'])
      fix q assume "q \<in> set as"
      then have "q \<noteq> a" "q \<notin> set fs" "q \<noteq> 0" using a dis z by auto
      then show "next (h2 q) = next (h q)" using fr2 by simp
    qed
    have S2: "dcpt_list h2 pSt ss"
    proof (rule dcpt_list_cong [OF Cons.prems(3)])
      fix q assume "q \<in> set ss"
      then have "q \<noteq> a" "q \<notin> set fs" "q \<noteq> 0" using a dis z by auto
      then show "next (h2 q) = next (h q)" using fr2 by simp
    qed
    have d2: "distinct (as @ (fs @ [a]) @ ss)" using Cons.prems(4) by auto
    let ?e' = "if \<not> rx_nack (hdr (h2 a)) then DRV_ETH_RxBufferCountDecrement e else e"
    from Cons.IH [OF A2 F2 S2 d2, of ?e']
    obtain h1 F1 S1 where
      lp: "EthRxAckBuffer_loop pf h2 ?e' F1' pA' pSt
           = Some (h1,
                   ?e'\<lparr>BUFCDEC := BUFCDEC ?e' +
                     length (filter (\<lambda>q. \<not> sticky (hdr (h q)) \<and> \<not> rx_nack (hdr (h q))) as)\<rparr>,
                   F1, S1)"
      and S1: "dcpt_list h1 S1 (ss @ filter (\<lambda>q. sticky (hdr (h q))) as)"
      and F1: "dcpt_list h1 F1 ((fs @ [a]) @ filter (\<lambda>q. \<not> sticky (hdr (h q))) as)"
      and H1: "\<forall>q. hdr (h1 q) =
              (if q \<in> set as \<and> sticky (hdr (h q))
               then (hdr (h q))\<lparr>EOWN := True, rx_wack := False, EOP := False, SOP := False\<rparr>
               else hdr (h q))"
      and P1: "\<forall>q. pEDBuff (h1 q) = (if q \<in> set as \<and> \<not> sticky (hdr (h q)) then 0 else pEDBuff (h2 q))"
      and fr1: "\<forall>q. q \<notin> set as \<and> q \<notin> set (fs @ [a]) \<and> q \<notin> set ss \<and> q \<noteq> 0 \<longrightarrow> h1 q = h2 q"
      unfolding hdr2 by (elim exE conjE)
    have call: "EthRxAckBuffer_loop pf h e pFree pAck pSt
           = Some (h1,
                   e\<lparr>BUFCDEC := BUFCDEC e +
                     length (filter (\<lambda>q. \<not> sticky (hdr (h q)) \<and> \<not> rx_nack (hdr (h q))) (a # as))\<rparr>,
                   F1, S1)"
      using lp False
      by (subst EthRxAckBuffer_loop.simps)
         (auto simp: rm a add h2_def [symmetric] hdr2 hdr1' Let_def DRV_ETH_RxBufferCountDecrement_def)
    have H: "\<forall>q. hdr (h1 q) =
              (if q \<in> set (a # as) \<and> sticky (hdr (h q))
               then (hdr (h q))\<lparr>EOWN := True, rx_wack := False, EOP := False, SOP := False\<rparr>
               else hdr (h q))"
      using H1 False by auto
    have P: "\<forall>q. pEDBuff (h1 q) = (if q \<in> set (a # as) \<and> \<not> sticky (hdr (h q)) then 0 else pEDBuff (h q))"
    proof
      fix q
      show "pEDBuff (h1 q) = (if q \<in> set (a # as) \<and> \<not> sticky (hdr (h q)) then 0 else pEDBuff (h q))"
      proof (cases "q = a")
        case True
        then show ?thesis using P1 a(2) pb2a False by simp
      next
        case qa: False
        then show ?thesis using P1 pb2o by simp
      qed
    qed
    have frr: "\<forall>q. q \<notin> set (a # as) \<and> q \<notin> set fs \<and> q \<notin> set ss \<and> q \<noteq> 0 \<longrightarrow> h1 q = h q"
      using fr1 fr2 by auto
    show ?thesis
      by (rule exI [of _ h1], rule exI [of _ F1], rule exI [of _ S1])
         (use call S1 F1 H P frr False in simp)
  qed
qed


lemma EthRxAckBuffer_sentinel:
  assumes g: "EthGetAckedPacket pf pBuf (mem s) (EnetRxBusyPtr s) DRV_ETHMAC_LIB_ListInit
                = Some (h, pB, pAck, res)"
    and A: "dcpt_list h pAck as" and F: "dcpt_list h (EnetRxFreePtr s) fs"
    and B: "dcpt_list h pB bs" and Bne: "bs \<noteq> []"
    and d: "distinct (as @ fs @ bs)"
    and sn: "filter (\<lambda>q. sticky (hdr (h q))) as \<noteq> []"
  shows "\<exists>s'. EthRxAckBuffer pf s pBuf = Some (s', res)
     \<and> busy_sentinel (mem s') (EnetRxBusyPtr s') bs (filter (\<lambda>q. sticky (hdr (h q))) as)
     \<and> dcpt_list (mem s') (EnetRxFreePtr s') (fs @ filter (\<lambda>q. \<not> sticky (hdr (h q))) as)"
proof -
  let ?ss = "filter (\<lambda>q. sticky (hdr (h q))) as"
  let ?ns = "filter (\<lambda>q. \<not> sticky (hdr (h q))) as"
  have S0: "dcpt_list h DRV_ETHMAC_LIB_ListInit []" by (rule ListInit_list)
  have d0: "distinct (as @ fs @ [])" using d by auto
  define e1 where "e1 = (pEthReg s)\<lparr>BUFCDEC := BUFCDEC (pEthReg s) +
        length (filter (\<lambda>q. \<not> sticky (hdr (h q)) \<and> \<not> rx_nack (hdr (h q))) as)\<rparr>"
  from EthRxAckBuffer_loop_spec [OF A F S0 d0, of pf "pEthReg s", folded e1_def]
  obtain h1 F1 S1 where
    lp: "EthRxAckBuffer_loop pf h (pEthReg s) (EnetRxFreePtr s) pAck DRV_ETHMAC_LIB_ListInit
           = Some (h1, e1, F1, S1)"
    and S1': "dcpt_list h1 S1 ([] @ ?ss)"
    and F1: "dcpt_list h1 F1 (fs @ ?ns)"
    and H1: "\<forall>q. hdr (h1 q) =
              (if q \<in> set as \<and> sticky (hdr (h q))
               then (hdr (h q))\<lparr>EOWN := True, rx_wack := False, EOP := False, SOP := False\<rparr>
               else hdr (h q))"
    and fr1: "\<forall>q. q \<notin> set as \<and> q \<notin> set fs \<and> q \<notin> set [] \<and> q \<noteq> 0 \<longrightarrow> h1 q = h q"
    by (elim exE conjE)
  have S1: "dcpt_list h1 S1 ?ss" using S1' by simp
  have z: "0 \<notin> set bs" by (rule dcpt_list_not0 [OF B])
  have B1: "dcpt_list h1 pB bs"
  proof (rule dcpt_list_cong [OF B])
    fix q assume "q \<in> set bs"
    then have "q \<notin> set as" "q \<notin> set fs" "q \<noteq> 0" using d z by auto
    then show "next (h1 q) = next (h q)" using fr1 by simp
  qed
  have d1: "set bs \<inter> set ?ss = {}" using d by auto
  have own: "\<forall>q \<in> set (tl ?ss). EOWN (hdr (h1 q))"
  proof
    fix q assume "q \<in> set (tl ?ss)"
    then have "q \<in> set ?ss" using sn by (cases ?ss) auto
    then show "EOWN (hdr (h1 q))" using H1 by simp
  qed
  from EthAppendBusyList_own [OF B1 Bne S1 sn d1 own, of pf e1 True]
  obtain h2 e2 pB2 pN2 where
    ap: "EthAppendBusyList pf h1 e1 pB S1 True = Some (h2, e2, pB2, pN2)"
    and bs: "busy_sentinel h2 pB2 bs ?ss"
    and fr: "\<forall>q. q \<notin> set ?ss \<and> q \<noteq> last bs \<longrightarrow> h2 q = h1 q"
    by (elim exE conjE)
  have hd: "head S1 \<noteq> 0" using dcpt_list_empty_iff [OF S1] sn by simp
  let ?s' = "s\<lparr>mem := h2, EnetRxFreePtr := F1, EnetRxBusyPtr := pB2, pEthReg := e2\<rparr>"
  have call: "EthRxAckBuffer pf s pBuf = Some (?s', res)"
    using g lp hd ap by (simp add: EthRxAckBuffer_def DRV_ETHMAC_LIB_ListIsEmpty_def)
  have lb: "last bs \<in> set bs" using Bne by simp
  have F2: "dcpt_list h2 F1 (fs @ ?ns)"
  proof (rule dcpt_list_cong [OF F1])
    fix q assume q: "q \<in> set (fs @ ?ns)"
    then have "q \<notin> set ?ss" using d by auto
    moreover have "q \<noteq> last bs" using q d lb by auto
    ultimately show "next (h2 q) = next (h1 q)" using fr by simp
  qed
  show ?thesis
    by (rule exI [of _ ?s']) (use call bs F2 in simp)
qed

text \<open>
  Claim C2. \<open>_EthAppendBusyList\<close> is static; it is called at line 625 (for
  \<open>DRV_ETHMAC_LibTxSendPacket\<close> and \<open>DRV_ETHMAC_LibTxSendBuffer\<close>), at line 528
  (\<open>DRV_ETHMAC_LibRxBuffersAppend\<close>) and at line 923 (\<open>_EthRxAckBuffer\<close>), each time on a
  list whose nodes the caller has written with \<open>EOWN\<close> set (lines 581, 494, 907). At
  each of the three sites, on a busy list that is well formed and not empty and with a
  new list that is not empty, the call returns and leaves the busy list as
  \<open>busy_sentinel\<close> says: not empty; the tail without a buffer, with a zero header word
  and owned by the software; every node from the position of the old sentinel to just
  before the new tail owned by the hardware.
\<close>

theorem EthAppendBusyList_call_sites_sentinel:
  "(dcpt_list (mem s) (EnetTxFreePtr s) tfs \<and> dcpt_list (mem s) (EnetTxBusyPtr s) tbs
      \<and> tbs \<noteq> [] \<and> set tfs \<inter> set tbs = {}
      \<and> DRV_ETHMAC_LibTxSendPacket pf s pPkt = Some (s1, DRV_ETHMAC_RES_OK)
      \<and> 0 < tx_entries pPkt \<longrightarrow>
        busy_sentinel (mem s1) (EnetTxBusyPtr s1) tbs (take (tx_entries pPkt) tfs))
   \<and> (dcpt_list (mem s) (EnetTxFreePtr s) tfs \<and> dcpt_list (mem s) (EnetTxBusyPtr s) tbs
      \<and> tbs \<noteq> [] \<and> set tfs \<inter> set tbs = {}
      \<and> DRV_ETHMAC_LibTxSendBuffer pf s pBuf nByt = Some (s2, DRV_ETHMAC_RES_OK) \<longrightarrow>
        busy_sentinel (mem s2) (EnetTxBusyPtr s2) tbs (take 1 tfs))
   \<and> (dcpt_list (mem s) (EnetRxFreePtr s) rfs \<and> dcpt_list (mem s) (EnetRxBusyPtr s) rbs
      \<and> rbs \<noteq> [] \<and> set rfs \<inter> set rbs = {}
      \<and> DRV_ETHMAC_LibRxBuffersAppend pf s ppBuff nBuffs rxFlags = Some (s3, DRV_ETHMAC_RES_OK)
      \<and> 0 < rx_entries ppBuff nBuffs \<longrightarrow>
        busy_sentinel (mem s3) (EnetRxBusyPtr s3) rbs (take (rx_entries ppBuff nBuffs) rfs))
   \<and> (EthGetAckedPacket pf pAckBuf (mem s) (EnetRxBusyPtr s) DRV_ETHMAC_LIB_ListInit
          = Some (h, pB, pAck, res)
      \<and> dcpt_list h pAck as \<and> dcpt_list h (EnetRxFreePtr s) fs \<and> dcpt_list h pB bs
      \<and> bs \<noteq> [] \<and> distinct (as @ fs @ bs)
      \<and> filter (\<lambda>q. sticky (hdr (h q))) as \<noteq> [] \<longrightarrow>
        (\<exists>s4. DRV_ETHMAC_LibRxAcknowledgeBuffer pf s pAckBuf = Some (s4, res)
           \<and> busy_sentinel (mem s4) (EnetRxBusyPtr s4) bs (filter (\<lambda>q. sticky (hdr (h q))) as)))"
proof (intro conjI impI)
  assume "dcpt_list (mem s) (EnetTxFreePtr s) tfs \<and> dcpt_list (mem s) (EnetTxBusyPtr s) tbs
      \<and> tbs \<noteq> [] \<and> set tfs \<inter> set tbs = {}
      \<and> DRV_ETHMAC_LibTxSendPacket pf s pPkt = Some (s1, DRV_ETHMAC_RES_OK)
      \<and> 0 < tx_entries pPkt"
  then have "dcpt_list (mem s) (EnetTxFreePtr s) tfs" "dcpt_list (mem s) (EnetTxBusyPtr s) tbs"
    "tbs \<noteq> []" "set tfs \<inter> set tbs = {}"
    "DRV_ETHMAC_LibTxSendPacket pf s pPkt = Some (s1, DRV_ETHMAC_RES_OK)" "0 < tx_entries pPkt"
    by simp_all
  from TxSendPacket_sentinel [OF this]
  show "busy_sentinel (mem s1) (EnetTxBusyPtr s1) tbs (take (tx_entries pPkt) tfs)" by simp
next
  assume "dcpt_list (mem s) (EnetTxFreePtr s) tfs \<and> dcpt_list (mem s) (EnetTxBusyPtr s) tbs
      \<and> tbs \<noteq> [] \<and> set tfs \<inter> set tbs = {}
      \<and> DRV_ETHMAC_LibTxSendBuffer pf s pBuf nByt = Some (s2, DRV_ETHMAC_RES_OK)"
  then have "dcpt_list (mem s) (EnetTxFreePtr s) tfs" "dcpt_list (mem s) (EnetTxBusyPtr s) tbs"
    "tbs \<noteq> []" "set tfs \<inter> set tbs = {}"
    "DRV_ETHMAC_LibTxSendBuffer pf s pBuf nByt = Some (s2, DRV_ETHMAC_RES_OK)"
    by simp_all
  from TxSendBuffer_sentinel [OF this]
  show "busy_sentinel (mem s2) (EnetTxBusyPtr s2) tbs (take 1 tfs)" by simp
next
  assume "dcpt_list (mem s) (EnetRxFreePtr s) rfs \<and> dcpt_list (mem s) (EnetRxBusyPtr s) rbs
      \<and> rbs \<noteq> [] \<and> set rfs \<inter> set rbs = {}
      \<and> DRV_ETHMAC_LibRxBuffersAppend pf s ppBuff nBuffs rxFlags = Some (s3, DRV_ETHMAC_RES_OK)
      \<and> 0 < rx_entries ppBuff nBuffs"
  then have "dcpt_list (mem s) (EnetRxFreePtr s) rfs" "dcpt_list (mem s) (EnetRxBusyPtr s) rbs"
    "rbs \<noteq> []" "set rfs \<inter> set rbs = {}"
    "DRV_ETHMAC_LibRxBuffersAppend pf s ppBuff nBuffs rxFlags = Some (s3, DRV_ETHMAC_RES_OK)"
    "0 < rx_entries ppBuff nBuffs"
    by simp_all
  from RxBuffersAppend_sentinel [OF this]
  show "busy_sentinel (mem s3) (EnetRxBusyPtr s3) rbs (take (rx_entries ppBuff nBuffs) rfs)"
    by simp
next
  assume "EthGetAckedPacket pf pAckBuf (mem s) (EnetRxBusyPtr s) DRV_ETHMAC_LIB_ListInit
          = Some (h, pB, pAck, res)
      \<and> dcpt_list h pAck as \<and> dcpt_list h (EnetRxFreePtr s) fs \<and> dcpt_list h pB bs
      \<and> bs \<noteq> [] \<and> distinct (as @ fs @ bs)
      \<and> filter (\<lambda>q. sticky (hdr (h q))) as \<noteq> []"
  then have "EthGetAckedPacket pf pAckBuf (mem s) (EnetRxBusyPtr s) DRV_ETHMAC_LIB_ListInit
          = Some (h, pB, pAck, res)"
    "dcpt_list h pAck as" "dcpt_list h (EnetRxFreePtr s) fs" "dcpt_list h pB bs"
    "bs \<noteq> []" "distinct (as @ fs @ bs)" "filter (\<lambda>q. sticky (hdr (h q))) as \<noteq> []"
    by simp_all
  from EthRxAckBuffer_sentinel [OF this]
  obtain s' where c: "EthRxAckBuffer pf s pAckBuf = Some (s', res)"
    and b: "busy_sentinel (mem s') (EnetRxBusyPtr s') bs (filter (\<lambda>q. sticky (hdr (h q))) as)"
    by (elim exE conjE)
  show "\<exists>s4. DRV_ETHMAC_LibRxAcknowledgeBuffer pf s pAckBuf = Some (s4, res)
           \<and> busy_sentinel (mem s4) (EnetRxBusyPtr s4) bs (filter (\<lambda>q. sticky (hdr (h q))) as)"
    by (rule exI [of _ s']) (simp add: DRV_ETHMAC_LibRxAcknowledgeBuffer_def c b)
qed

lemma pkt2_loop:
  "(case TxSendPacket_loop kseg mac_pools DRV_ETHMAC_LIB_ListInit DRV_ETHMAC_RES_OK pkt2 of
      None \<Rightarrow> False
    | Some (s1, pL1, r) \<Rightarrow>
        r = DRV_ETHMAC_RES_OK \<and> dcpt_list (mem s1) pL1 [0x200, 0x220]
        \<and> dcpt_list (mem s1) (EnetTxBusyPtr s1) [0x100])"
  by (simp add: pkt2_def EthTxSchedBuffer_def DRV_ETHMAC_LIB_ListRemoveHead_def
      DRV_ETHMAC_LIB_ListAddTail_def DRV_ETHMAC_LIB_ListInit_def Let_def mac_pools_def mac0_def
      kseg_def node0_def dcpt_list_def hdr_w_NPV_EOWN_def)

lemma pkt2_send:
  "\<exists>s'. DRV_ETHMAC_LibTxSendPacket kseg mac_pools pkt2 = Some (s', DRV_ETHMAC_RES_OK)"
proof -
  obtain s1 pL1 r where
    lp: "TxSendPacket_loop kseg mac_pools DRV_ETHMAC_LIB_ListInit DRV_ETHMAC_RES_OK pkt2 = Some (s1, pL1, r)"
    using pkt2_loop
    by (cases "TxSendPacket_loop kseg mac_pools DRV_ETHMAC_LIB_ListInit DRV_ETHMAC_RES_OK pkt2") auto
  with pkt2_loop have r: "r = DRV_ETHMAC_RES_OK"
    and L1: "dcpt_list (mem s1) pL1 [0x200, 0x220]"
    and B1: "dcpt_list (mem s1) (EnetTxBusyPtr s1) [0x100]"
    by auto
  from EthTxSchedList_returns [OF B1 _ L1, of kseg]
  obtain s' where "EthTxSchedList kseg s1 pL1 = Some s'" by auto
  then have "DRV_ETHMAC_LibTxSendPacket kseg mac_pools pkt2 = Some (s', DRV_ETHMAC_RES_OK)"
    using lp r by (simp add: DRV_ETHMAC_LibTxSendPacket_def TxSend_finish_def)
  then show ?thesis by (rule exI)
qed

lemma buf1_sched:
  "(case EthTxSchedBuffer kseg mac_pools 0x80001000 64 DRV_ETHMAC_LIB_ListInit of
      None \<Rightarrow> False
    | Some (s1, pL1, r) \<Rightarrow>
        r = DRV_ETHMAC_RES_OK \<and> dcpt_list (mem s1) pL1 [0x200]
        \<and> dcpt_list (mem s1) (EnetTxBusyPtr s1) [0x100])"
  by (simp add: EthTxSchedBuffer_def DRV_ETHMAC_LIB_ListRemoveHead_def
      DRV_ETHMAC_LIB_ListAddTail_def DRV_ETHMAC_LIB_ListInit_def Let_def mac_pools_def mac0_def
      kseg_def node0_def dcpt_list_def hdr_w_NPV_EOWN_def)

lemma buf1_send:
  "\<exists>s'. DRV_ETHMAC_LibTxSendBuffer kseg mac_pools 0x80001000 64 = Some (s', DRV_ETHMAC_RES_OK)"
proof -
  obtain s1 pL1 r where
    lp: "EthTxSchedBuffer kseg mac_pools 0x80001000 64 DRV_ETHMAC_LIB_ListInit = Some (s1, pL1, r)"
    using buf1_sched
    by (cases "EthTxSchedBuffer kseg mac_pools 0x80001000 64 DRV_ETHMAC_LIB_ListInit") auto
  with buf1_sched have r: "r = DRV_ETHMAC_RES_OK"
    and L1: "dcpt_list (mem s1) pL1 [0x200]"
    and B1: "dcpt_list (mem s1) (EnetTxBusyPtr s1) [0x100]"
    by auto
  from EthTxSchedList_returns [OF B1 _ L1, of kseg]
  obtain s' where "EthTxSchedList kseg s1 pL1 = Some s'" by auto
  then have "DRV_ETHMAC_LibTxSendBuffer kseg mac_pools 0x80001000 64 = Some (s', DRV_ETHMAC_RES_OK)"
    using lp r by (simp add: DRV_ETHMAC_LibTxSendBuffer_def TxSend_finish_def)
  then show ?thesis by (rule exI)
qed

lemma rx2_loop:
  "(case RxBuffersAppend_loop kseg {} mac_pools DRV_ETHMAC_LIB_ListInit
           [0x80001000, 0xA0002000, 0] 0x7fffffff of
      None \<Rightarrow> False
    | Some (r, s1, pL1, pB, nB) \<Rightarrow>
        r = DRV_ETHMAC_RES_OK \<and> pB = 0 \<and> head pL1 \<noteq> 0
        \<and> dcpt_list (mem s1) pL1 [0x300, 0x320]
        \<and> dcpt_list (mem s1) (EnetRxBusyPtr s1) [0x400])"
  by (simp add: RxBuffersAppend_prepare_def DRV_ETHMAC_LIB_ListRemoveHead_def
      DRV_ETHMAC_LIB_ListAddTail_def DRV_ETHMAC_LIB_ListInit_def Let_def mac_pools_def mac0_def
      kseg_def node0_def dcpt_list_def)

lemma rx2_append:
  "\<exists>s'. DRV_ETHMAC_LibRxBuffersAppend kseg mac_pools [0x80001000, 0xA0002000, 0] 0 {}
          = Some (s', DRV_ETHMAC_RES_OK)"
proof -
  obtain r s1 pL1 pB nB where
    lp: "RxBuffersAppend_loop kseg {} mac_pools DRV_ETHMAC_LIB_ListInit
           [0x80001000, 0xA0002000, 0] 0x7fffffff = Some (r, s1, pL1, pB, nB)"
    using rx2_loop
    by (cases "RxBuffersAppend_loop kseg {} mac_pools DRV_ETHMAC_LIB_ListInit
           [0x80001000, 0xA0002000, 0] 0x7fffffff") auto
  with rx2_loop have r: "r = DRV_ETHMAC_RES_OK" "pB = 0" "head pL1 \<noteq> 0"
    and L1: "dcpt_list (mem s1) pL1 [0x300, 0x320]"
    and B1: "dcpt_list (mem s1) (EnetRxBusyPtr s1) [0x400]"
    by auto
  from EthAppendBusyList_spec [OF B1 _ L1, of kseg "pEthReg s1" True]
  obtain h' e' pB' pN' where
    ap: "EthAppendBusyList kseg (mem s1) (pEthReg s1) (EnetRxBusyPtr s1) pL1 True
           = Some (h', e', pB', pN')" by auto
  show ?thesis
    unfolding DRV_ETHMAC_LibRxBuffersAppend_def
    using r ap
    by (simp add: lp DRV_ETHMAC_LIB_ListIsEmpty_def Let_def del: RxBuffersAppend_loop.simps)
qed

lemma mac_ack_get:
  "EthGetAckedPacket kseg 0x80001000 (mem mac_ack) (EnetRxBusyPtr mac_ack) DRV_ETHMAC_LIB_ListInit
     = Some ((mem mac_ack)(0x400 := (mem mac_ack 0x400)\<lparr>next := 0\<rparr>),
             \<lparr>head = 0x420, tail = 0x420\<rparr>, \<lparr>head = 0x400, tail = 0x400\<rparr>, DRV_ETHMAC_RES_OK)"
  unfolding EthGetAckedPacket_def
  by (subst EthGetAckedPacket_loop.simps, subst EthGetAckedPacket_pkt.simps)
     (simp add: mac_ack_def mac0_def node0_def hdr_w_0_def kseg_def Let_def
        DRV_ETHMAC_LIB_ListAddTail_def DRV_ETHMAC_LIB_ListInit_def)

lemma mac_ack_wf:
  "dcpt_list ((mem mac_ack)(0x400 := (mem mac_ack 0x400)\<lparr>next := 0\<rparr>))
      \<lparr>head = 0x400, tail = 0x400\<rparr> [0x400]"
  "dcpt_list ((mem mac_ack)(0x400 := (mem mac_ack 0x400)\<lparr>next := 0\<rparr>))
      (EnetRxFreePtr mac_ack) [0x300]"
  "dcpt_list ((mem mac_ack)(0x400 := (mem mac_ack 0x400)\<lparr>next := 0\<rparr>))
      \<lparr>head = 0x420, tail = 0x420\<rparr> [0x420]"
  "filter (\<lambda>q. sticky (hdr (((mem mac_ack)(0x400 := (mem mac_ack 0x400)\<lparr>next := 0\<rparr>)) q)))
      [0x400] = [0x400]"
  by (simp_all add: dcpt_list_def mac_ack_def mac0_def node0_def hdr_w_0_def)


theorem EthAppendBusyList_call_sites_sentinel_witness:
  "dcpt_list (mem mac_pools) (EnetTxFreePtr mac_pools) [0x200, 0x220]
   \<and> dcpt_list (mem mac_pools) (EnetTxBusyPtr mac_pools) [0x100]
   \<and> dcpt_list (mem mac_pools) (EnetRxFreePtr mac_pools) [0x300, 0x320]
   \<and> dcpt_list (mem mac_pools) (EnetRxBusyPtr mac_pools) [0x400]
   \<and> tx_entries pkt2 = 2 \<and> rx_entries [0x80001000, 0xA0002000, 0] 0 = 2
   \<and> (case DRV_ETHMAC_LibTxSendPacket kseg mac_pools pkt2 of
         None \<Rightarrow> False
       | Some (s1, res) \<Rightarrow>
           res = DRV_ETHMAC_RES_OK
           \<and> busy_sentinel (mem s1) (EnetTxBusyPtr s1) [0x100] [0x200, 0x220])
   \<and> (case DRV_ETHMAC_LibTxSendBuffer kseg mac_pools 0x80001000 64 of
         None \<Rightarrow> False
       | Some (s2, res) \<Rightarrow>
           res = DRV_ETHMAC_RES_OK
           \<and> busy_sentinel (mem s2) (EnetTxBusyPtr s2) [0x100] [0x200])
   \<and> (case DRV_ETHMAC_LibRxBuffersAppend kseg mac_pools [0x80001000, 0xA0002000, 0] 0 {} of
         None \<Rightarrow> False
       | Some (s3, res) \<Rightarrow>
           res = DRV_ETHMAC_RES_OK
           \<and> busy_sentinel (mem s3) (EnetRxBusyPtr s3) [0x400] [0x300, 0x320])
   \<and> EthGetAckedPacket kseg 0x80001000 (mem mac_ack) (EnetRxBusyPtr mac_ack) DRV_ETHMAC_LIB_ListInit
       = Some ((mem mac_ack)(0x400 := (mem mac_ack 0x400)\<lparr>next := 0\<rparr>),
               \<lparr>head = 0x420, tail = 0x420\<rparr>, \<lparr>head = 0x400, tail = 0x400\<rparr>, DRV_ETHMAC_RES_OK)
   \<and> (case DRV_ETHMAC_LibRxAcknowledgeBuffer kseg mac_ack 0x80001000 of
         None \<Rightarrow> False
       | Some (s4, res) \<Rightarrow>
           res = DRV_ETHMAC_RES_OK
           \<and> busy_sentinel (mem s4) (EnetRxBusyPtr s4) [0x420] [0x400])"
proof -
  note wf = mac_pools_wf
  have n1: "tx_entries pkt2 = 2" by (simp add: tx_entries_def pkt2_def)
  have n3: "rx_entries [0x80001000, 0xA0002000, 0] 0 = 2" by (simp add: rx_entries_def rx_count_def)
  obtain s1 where c1: "DRV_ETHMAC_LibTxSendPacket kseg mac_pools pkt2 = Some (s1, DRV_ETHMAC_RES_OK)"
    using pkt2_send by (elim exE)
  obtain s2 where c2: "DRV_ETHMAC_LibTxSendBuffer kseg mac_pools 0x80001000 64
      = Some (s2, DRV_ETHMAC_RES_OK)"
    using buf1_send by (elim exE)
  obtain s3 where c3: "DRV_ETHMAC_LibRxBuffersAppend kseg mac_pools [0x80001000, 0xA0002000, 0] 0 {}
      = Some (s3, DRV_ETHMAC_RES_OK)"
    using rx2_append by (elim exE)
  let ?h = "(mem mac_ack)(0x400 := (mem mac_ack 0x400)\<lparr>next := 0\<rparr>)"
  note T = EthAppendBusyList_call_sites_sentinel
    [where pf = kseg and s = mac_pools and tfs = "[0x200, 0x220]" and tbs = "[0x100]"
       and rfs = "[0x300, 0x320]" and rbs = "[0x400]" and pPkt = pkt2 and ?s1.0 = s1
       and pBuf = "0x80001000" and nByt = 64 and ?s2.0 = s2
       and ppBuff = "[0x80001000, 0xA0002000, 0]" and nBuffs = 0 and rxFlags = "{}" and ?s3.0 = s3]
  note U = EthAppendBusyList_call_sites_sentinel
    [where pf = kseg and s = mac_ack and pAckBuf = "0x80001000" and h = ?h
       and pB = "\<lparr>head = 0x420, tail = 0x420\<rparr>" and pAck = "\<lparr>head = 0x400, tail = 0x400\<rparr>"
       and res = DRV_ETHMAC_RES_OK and as = "[0x400]" and fs = "[0x300]" and bs = "[0x420]"]
  have p1: "busy_sentinel (mem s1) (EnetTxBusyPtr s1) [0x100] (take (tx_entries pkt2) [0x200, 0x220])"
    by (rule mp [OF conjunct1 [OF T]]) (simp add: wf c1 n1)
  have p2: "busy_sentinel (mem s2) (EnetTxBusyPtr s2) [0x100] (take 1 [0x200, 0x220])"
    by (rule mp [OF conjunct1 [OF conjunct2 [OF T]]]) (simp add: wf c2)
  have p3: "busy_sentinel (mem s3) (EnetRxBusyPtr s3) [0x400]
              (take (rx_entries [0x80001000, 0xA0002000, 0] 0) [0x300, 0x320])"
    by (rule mp [OF conjunct1 [OF conjunct2 [OF conjunct2 [OF T]]]]) (simp add: wf c3 n3)
  have p4: "\<exists>s4. DRV_ETHMAC_LibRxAcknowledgeBuffer kseg mac_ack 0x80001000 = Some (s4, DRV_ETHMAC_RES_OK)
           \<and> busy_sentinel (mem s4) (EnetRxBusyPtr s4) [0x420]
                (filter (\<lambda>q. sticky (hdr (?h q))) [0x400])"
    by (rule mp [OF conjunct2 [OF conjunct2 [OF conjunct2 [OF U]]]])
       (simp only: mac_ack_get mac_ack_wf, simp)
  then obtain s4 where
    c4: "DRV_ETHMAC_LibRxAcknowledgeBuffer kseg mac_ack 0x80001000 = Some (s4, DRV_ETHMAC_RES_OK)"
    and b4: "busy_sentinel (mem s4) (EnetRxBusyPtr s4) [0x420]
                (filter (\<lambda>q. sticky (hdr (?h q))) [0x400])"
    by (elim exE conjE)
  have q1: "case DRV_ETHMAC_LibTxSendPacket kseg mac_pools pkt2 of
         None \<Rightarrow> False
       | Some (s1, res) \<Rightarrow>
           res = DRV_ETHMAC_RES_OK
           \<and> busy_sentinel (mem s1) (EnetTxBusyPtr s1) [0x100] [0x200, 0x220]"
    unfolding c1 using p1 by (simp add: n1)
  have q2: "case DRV_ETHMAC_LibTxSendBuffer kseg mac_pools 0x80001000 64 of
         None \<Rightarrow> False
       | Some (s2, res) \<Rightarrow>
           res = DRV_ETHMAC_RES_OK
           \<and> busy_sentinel (mem s2) (EnetTxBusyPtr s2) [0x100] [0x200]"
    unfolding c2 using p2 by simp
  have q3: "case DRV_ETHMAC_LibRxBuffersAppend kseg mac_pools [0x80001000, 0xA0002000, 0] 0 {} of
         None \<Rightarrow> False
       | Some (s3, res) \<Rightarrow>
           res = DRV_ETHMAC_RES_OK
           \<and> busy_sentinel (mem s3) (EnetRxBusyPtr s3) [0x400] [0x300, 0x320]"
    unfolding c3 using p3 by (simp add: n3)
  have q4: "case DRV_ETHMAC_LibRxAcknowledgeBuffer kseg mac_ack 0x80001000 of
         None \<Rightarrow> False
       | Some (s4, res) \<Rightarrow>
           res = DRV_ETHMAC_RES_OK
           \<and> busy_sentinel (mem s4) (EnetRxBusyPtr s4) [0x420] [0x400]"
    unfolding c4 using b4 by (simp only: mac_ack_wf(4)) simp
  show ?thesis
    by (intro conjI wf(1) wf(2) wf(3) wf(4) n1 n3 q1 q2 q3 q4 mac_ack_get)
qed

section \<open>The descriptor pool on well-formed lists\<close>

declare DescriptorsPoolAdd_loop.simps [simp del]
declare DescriptorsPoolRemove_loop.simps [simp del]

lemma alloc_run_length: "alloc_run fAlloc p n = (as, p') \<Longrightarrow> length as \<le> n"
  by (induction n arbitrary: p as p') (auto split: prod.splits if_splits)

lemma alloc_run_not0: "alloc_run fAlloc p n = (as, p') \<Longrightarrow> 0 \<notin> set as"
  by (induction n arbitrary: p as p') (auto split: prod.splits if_splits)

lemma DescriptorsPoolAdd_loop_spec:
  assumes "dcpt_list h pFList fs" and "alloc_run fAlloc p (unat n) = (as, p')"
    and "distinct as" and "set as \<inter> set fs = {}"
  shows "\<exists>h' pFList'. DescriptorsPoolAdd_loop pf fAlloc h pFList p c n
             = Some (h', pFList', p', c + of_nat (length as))
           \<and> dcpt_list h' pFList' (fs @ as)
           \<and> (\<forall>q. q \<notin> set fs \<and> q \<notin> set as \<and> q \<noteq> 0 \<longrightarrow> h' q = h q)"
  using assms
proof (induction "unat n" arbitrary: n h pFList fs p c as)
  case 0
  then have n: "n = 0" by (simp add: unat_eq_0)
  with 0 show ?case by (subst DescriptorsPoolAdd_loop.simps) auto
next
  case (Suc k)
  then have n: "n \<noteq> 0" by auto
  have k: "k = unat (n - 1)" using Suc.hyps(2) n by (simp add: unat_minus_one)
  obtain a p1 where al: "fAlloc p = (a, p1)" by (cases "fAlloc p")
  have ar: "alloc_run fAlloc p (Suc k) = (as, p')" using Suc.prems(2) Suc.hyps(2) by simp
  show ?case
  proof (cases "a = 0")
    case True
    with ar al have "as = []" "p' = p1" by auto
    with True al n Suc.prems(1) show ?thesis
      by (subst DescriptorsPoolAdd_loop.simps) auto
  next
    case False
    obtain as1 p2 where r1: "alloc_run fAlloc p1 k = (as1, p2)" by (cases "alloc_run fAlloc p1 k")
    with ar al False have as: "as = a # as1" and p2: "p' = p2" by auto
    have afs: "a \<notin> set fs" using Suc.prems(4) as by auto
    from ListAddTail_spec [OF Suc.prems(1) False afs, of pf]
    obtain h1 F1 where add: "DRV_ETHMAC_LIB_ListAddTail pf h pFList a = Some (h1, F1)"
      and l1: "dcpt_list h1 F1 (fs @ [a])"
      and fr: "\<forall>q. q \<noteq> a \<and> q \<noteq> tail pFList \<longrightarrow> h1 q = h q" by blast
    have d1: "distinct as1" "set as1 \<inter> set (fs @ [a]) = {}"
      using Suc.prems(3,4) as by auto
    from Suc.hyps(1) [OF k l1 _ d1, of p1 "c + 1"] r1 k p2
    obtain h' F' where lp: "DescriptorsPoolAdd_loop pf fAlloc h1 F1 p1 (c + 1) (n - 1)
             = Some (h', F', p2, c + 1 + of_nat (length as1))"
      and l2: "dcpt_list h' F' ((fs @ [a]) @ as1)"
      and fr2: "\<forall>q. q \<notin> set (fs @ [a]) \<and> q \<notin> set as1 \<and> q \<noteq> 0 \<longrightarrow> h' q = h1 q" by auto
    have tl: "tail pFList = 0 \<or> tail pFList \<in> set fs" by (rule dcpt_list_tail [OF Suc.prems(1)])
    have "\<forall>q. q \<notin> set fs \<and> q \<notin> set as \<and> q \<noteq> 0 \<longrightarrow> h' q = h q"
      using fr fr2 tl as by auto
    moreover have "DescriptorsPoolAdd_loop pf fAlloc h pFList p c n
             = Some (h', F', p', c + of_nat (length as))"
      using al False n add lp as p2
      by (subst DescriptorsPoolAdd_loop.simps) (simp add: add.assoc add.commute)
    ultimately show ?thesis using l2 as by auto
  qed
qed

lemma DescriptorsPoolRemove_loop_spec:
  assumes "dcpt_list h pList fs"
  shows "\<exists>pList'. DescriptorsPoolRemove_loop h fFree pList p r n
             = (pList', fold (free_node fFree) (take (unat n) fs) p,
                r + of_nat (min (unat n) (length fs)))
           \<and> dcpt_list h pList' (drop (unat n) fs)"
  using assms
proof (induction fs arbitrary: n pList p r)
  case Nil
  then show ?case
    by (subst DescriptorsPoolRemove_loop.simps) (auto simp: ListRemoveHead_Nil)
next
  case (Cons a fs)
  show ?case
  proof (cases "n = 0")
    case True
    with Cons.prems show ?thesis by (subst DescriptorsPoolRemove_loop.simps) auto
  next
    case False
    then have "unat n \<noteq> 0" by (simp add: unat_eq_0)
    then obtain k where k1: "unat n = Suc k" by (cases "unat n") auto
    then have k: "unat n = Suc k" "unat (n - 1) = k"
      using unat_minus_one [OF False] by simp_all
    from ListRemoveHead_Cons [OF Cons.prems]
    obtain L1 where rm: "DRV_ETHMAC_LIB_ListRemoveHead h pList = (a, L1)"
      and l1: "dcpt_list h L1 fs" by blast
    have a0: "a \<noteq> 0" using dcpt_list_not0 [OF Cons.prems] by auto
    from Cons.IH [OF l1, of "free_node fFree a p" "r + 1" "n - 1"]
    obtain L2 where lp: "DescriptorsPoolRemove_loop h fFree L1 (free_node fFree a p) (r + 1) (n - 1)
             = (L2, fold (free_node fFree) (take k fs) (free_node fFree a p),
                r + 1 + of_nat (min k (length fs)))"
      and l2: "dcpt_list h L2 (drop k fs)" using k by auto
    show ?thesis
      using False rm a0 lp l2 k
      by (subst DescriptorsPoolRemove_loop.simps)
         (simp add: free_node_def add.assoc)
  qed
qed


lemma DescriptorsPoolAdd_lists_spec:
  assumes F: "dcpt_list h pFList fs" and B: "dcpt_list h pBList bs"
    and m: "pool_add_nodes fAlloc fs bs p n = (fs1, bs1, p1, r)"
    and dd: "distinct (fs1 @ bs1)"
  shows "\<exists>h' pFList' pBList'. DescriptorsPoolAdd_lists pf fAlloc h pFList pBList p n
             = Some (h', pFList', pBList', p1, r)
           \<and> dcpt_list h' pFList' fs1 \<and> dcpt_list h' pBList' bs1"
proof (cases "bs = []")
  case True
  then have e: "head pBList = 0" "tail pBList = 0" using B by (simp_all add: dcpt_list_Nil)
  obtain a pa where al: "fAlloc p = (a, pa)" by (cases "fAlloc p")
  show ?thesis
  proof (cases "a = 0")
    case a0: True
    with m al True have "fs1 = fs" "bs1 = bs" "p1 = pa" "r = 0"
      by (simp_all add: pool_add_nodes_def)
    with F B al a0 e show ?thesis
      by (simp add: DescriptorsPoolAdd_lists_def DRV_ETHMAC_LIB_ListIsEmpty_def)
  next
    case a0: False
    obtain as p2 where ar: "alloc_run fAlloc pa (unat n) = (as, p2)"
      by (cases "alloc_run fAlloc pa (unat n)")
    with m al True a0 have r: "fs1 = fs @ as" "bs1 = [a]" "p1 = p2" "r = of_nat (length as)"
      by (simp_all add: pool_add_nodes_def)
    let ?h1 = "h(a := (h a)\<lparr>next := 0, next_ed := KVA_TO_PA pf (0 + hwDcpt_off pf)\<rparr>)"
    let ?B1 = "pBList\<lparr>head := a, tail := a\<rparr>"
    have ah: "DRV_ETHMAC_LIB_ListAddHead pf h pBList a = Some (?h1, ?B1)"
      using a0 e by (simp add: DRV_ETHMAC_LIB_ListAddHead_def)
    have afs: "a \<notin> set fs" "a \<notin> set as" and das: "distinct as" "set as \<inter> set fs = {}"
      using dd r by auto
    have F1: "dcpt_list ?h1 pFList fs" using afs by (intro dcpt_list_cong [OF F]) auto
    from DescriptorsPoolAdd_loop_spec [OF F1 ar das, of pf 0]
    obtain h' F' where lp: "DescriptorsPoolAdd_loop pf fAlloc ?h1 pFList pa 0 n
             = Some (h', F', p2, of_nat (length as))"
      and l2: "dcpt_list h' F' (fs @ as)"
      and fr: "\<forall>q. q \<notin> set fs \<and> q \<notin> set as \<and> q \<noteq> 0 \<longrightarrow> h' q = ?h1 q" by auto
    have "h' a = ?h1 a" using fr afs a0 by blast
    then have B1: "dcpt_list h' ?B1 [a]" using a0 by (simp add: dcpt_list_def)
    have "DescriptorsPoolAdd_lists pf fAlloc h pFList pBList p n = Some (h', F', ?B1, p1, r)"
      using e al a0 ah lp r
      by (simp add: DescriptorsPoolAdd_lists_def DRV_ETHMAC_LIB_ListIsEmpty_def)
    with l2 B1 r show ?thesis by auto
  qed
next
  case False
  then have e: "head pBList \<noteq> 0" using dcpt_list_empty_iff [OF B] by simp
  obtain as p2 where ar: "alloc_run fAlloc p (unat n) = (as, p2)"
    by (cases "alloc_run fAlloc p (unat n)")
  with m False have r: "fs1 = fs @ as" "bs1 = bs" "p1 = p2" "r = of_nat (length as)"
    by (simp_all add: pool_add_nodes_def)
  have das: "distinct as" "set as \<inter> set fs = {}" and dbs: "set bs \<inter> set fs = {}" "set bs \<inter> set as = {}"
    using dd r by auto
  from DescriptorsPoolAdd_loop_spec [OF F ar das, of pf 0]
  obtain h' F' where lp: "DescriptorsPoolAdd_loop pf fAlloc h pFList p 0 n
           = Some (h', F', p2, of_nat (length as))"
    and l2: "dcpt_list h' F' (fs @ as)"
    and fr: "\<forall>q. q \<notin> set fs \<and> q \<notin> set as \<and> q \<noteq> 0 \<longrightarrow> h' q = h q" by auto
  have "\<And>q. q \<in> set bs \<Longrightarrow> h' q = h q"
    using fr dbs dcpt_list_not0 [OF B] by (metis disjoint_iff)
  then have B1: "dcpt_list h' pBList bs" by (intro dcpt_list_cong [OF B]) simp
  have "DescriptorsPoolAdd_lists pf fAlloc h pFList pBList p n = Some (h', F', pBList, p1, r)"
    using e lp r by (simp add: DescriptorsPoolAdd_lists_def DRV_ETHMAC_LIB_ListIsEmpty_def)
  with l2 B1 r show ?thesis by auto
qed

lemma PoolAdd_spec:
  assumes dT: "dType \<noteq> DRV_ETHMAC_DCPT_TYPE_ALL"
    and F: "dcpt_list (mem s) (pool_free dType s) fs"
    and B: "dcpt_list (mem s) (pool_busy dType s) bs"
    and m: "pool_add_nodes fAlloc fs bs p n = (fs1, bs1, p1, r)"
    and dd: "distinct (fs1 @ bs1)"
  shows "\<exists>s'. DRV_ETHMAC_LibDescriptorsPoolAdd pf s n dType (Some fAlloc) p = Some (s', p1, r)
           \<and> dcpt_list (mem s') (pool_free dType s') fs1
           \<and> dcpt_list (mem s') (pool_busy dType s') bs1"
proof -
  from DescriptorsPoolAdd_lists_spec [OF F B m dd, of pf]
  obtain h' F' B' where
    c: "DescriptorsPoolAdd_lists pf fAlloc (mem s) (pool_free dType s) (pool_busy dType s) p n
          = Some (h', F', B', p1, r)"
    and l: "dcpt_list h' F' fs1" "dcpt_list h' B' bs1" by blast
  show ?thesis
  proof (cases dType)
    case DRV_ETHMAC_DCPT_TYPE_RX
    with c l show ?thesis
      by (simp add: DRV_ETHMAC_LibDescriptorsPoolAdd_def pool_free_def pool_busy_def)
  next
    case DRV_ETHMAC_DCPT_TYPE_TX
    with c l show ?thesis
      by (simp add: DRV_ETHMAC_LibDescriptorsPoolAdd_def pool_free_def pool_busy_def)
  next
    case DRV_ETHMAC_DCPT_TYPE_ALL
    with dT show ?thesis by simp
  qed
qed

lemma PoolRemove_spec:
  assumes dT: "dType \<noteq> DRV_ETHMAC_DCPT_TYPE_ALL"
    and F: "dcpt_list (mem s) (pool_free dType s) fs"
    and B: "dcpt_list (mem s) (pool_busy dType s) bs"
  shows "\<exists>s'. DRV_ETHMAC_LibDescriptorsPoolRemove s n dType fFree p
             = (s', fold (free_node fFree) (take (unat n) fs) p, of_nat (min (unat n) (length fs)))
           \<and> dcpt_list (mem s') (pool_free dType s') (drop (unat n) fs)
           \<and> dcpt_list (mem s') (pool_busy dType s') bs"
proof -
  from DescriptorsPoolRemove_loop_spec [OF F, of fFree p 0 n]
  obtain L where
    c: "DescriptorsPoolRemove_loop (mem s) fFree (pool_free dType s) p 0 n
          = (L, fold (free_node fFree) (take (unat n) fs) p, of_nat (min (unat n) (length fs)))"
    and l: "dcpt_list (mem s) L (drop (unat n) fs)" by auto
  show ?thesis
  proof (cases dType)
    case DRV_ETHMAC_DCPT_TYPE_RX
    with c l B show ?thesis
      by (simp add: DRV_ETHMAC_LibDescriptorsPoolRemove_def pool_free_def pool_busy_def)
  next
    case DRV_ETHMAC_DCPT_TYPE_TX
    with c l B show ?thesis
      by (simp add: DRV_ETHMAC_LibDescriptorsPoolRemove_def pool_free_def pool_busy_def)
  next
    case DRV_ETHMAC_DCPT_TYPE_ALL
    with dT show ?thesis by simp
  qed
qed

lemma pool_calls_spec:
  assumes "dType \<noteq> DRV_ETHMAC_DCPT_TYPE_ALL"
    and "dcpt_list (mem s) (pool_free dType s) fs"
    and "dcpt_list (mem s) (pool_busy dType s) bs"
    and "pool_nodes fAlloc fFree fs bs p cs = Some (fs', bs', p', rs)"
  shows "\<exists>s'. pool_calls pf dType fAlloc fFree s p cs = Some (s', p', rs)
           \<and> dcpt_list (mem s') (pool_free dType s') fs'
           \<and> dcpt_list (mem s') (pool_busy dType s') bs'"
  using assms
proof (induction cs arbitrary: s fs bs p rs)
  case Nil
  then show ?case by auto
next
  case (Cons c cs)
  show ?case
  proof (cases c)
    case (PoolAdd n)
    obtain fs1 bs1 p1 r where m: "pool_add_nodes fAlloc fs bs p n = (fs1, bs1, p1, r)"
      by (cases "pool_add_nodes fAlloc fs bs p n") auto
    from Cons.prems(4) PoolAdd m have dd: "distinct (fs1 @ bs1)"
      by (auto split: if_splits)
    with Cons.prems(4) PoolAdd m obtain rs1 where
      rs: "rs = r # rs1" and n1: "pool_nodes fAlloc fFree fs1 bs1 p1 cs = Some (fs', bs', p', rs1)"
      by (auto split: option.splits)
    from PoolAdd_spec [OF Cons.prems(1,2,3) m dd, of pf]
    obtain s1 where c1: "DRV_ETHMAC_LibDescriptorsPoolAdd pf s n dType (Some fAlloc) p = Some (s1, p1, r)"
      and l1: "dcpt_list (mem s1) (pool_free dType s1) fs1"
              "dcpt_list (mem s1) (pool_busy dType s1) bs1" by blast
    from Cons.IH [OF Cons.prems(1) l1 n1]
    obtain s' where "pool_calls pf dType fAlloc fFree s1 p1 cs = Some (s', p', rs1)"
      "dcpt_list (mem s') (pool_free dType s') fs'" "dcpt_list (mem s') (pool_busy dType s') bs'"
      by blast
    with c1 rs PoolAdd show ?thesis by auto
  next
    case (PoolRemove n)
    with Cons.prems(4) obtain rs1 where
      rs: "rs = of_nat (min (unat n) (length fs)) # rs1"
      and n1: "pool_nodes fAlloc fFree (drop (unat n) fs) bs
                 (fold (free_node fFree) (take (unat n) fs) p) cs = Some (fs', bs', p', rs1)"
      by (auto split: option.splits)
    from PoolRemove_spec [OF Cons.prems(1,2,3), of n fFree p]
    obtain s1 where c1: "DRV_ETHMAC_LibDescriptorsPoolRemove s n dType fFree p
             = (s1, fold (free_node fFree) (take (unat n) fs) p, of_nat (min (unat n) (length fs)))"
      and l1: "dcpt_list (mem s1) (pool_free dType s1) (drop (unat n) fs)"
              "dcpt_list (mem s1) (pool_busy dType s1) bs" by blast
    from Cons.IH [OF Cons.prems(1) l1 n1]
    obtain s' where "pool_calls pf dType fAlloc fFree s1
         (fold (free_node fFree) (take (unat n) fs) p) cs = Some (s', p', rs1)"
      "dcpt_list (mem s') (pool_free dType s') fs'" "dcpt_list (mem s') (pool_busy dType s') bs'"
      by blast
    with c1 rs PoolRemove show ?thesis by auto
  qed
qed

lemma pool_add_nodes_count:
  assumes "pool_add_nodes fAlloc fs bs p n = (fs1, bs1, p1, r)"
  shows "length fs1 = length fs + unat r \<and> unat r \<le> unat n"
proof -
  have *: "length as \<le> unat n \<Longrightarrow> unat (of_nat (length as) :: 32 word) = length as" for as :: "addr list"
    by (rule le_unat_uoi)
  show ?thesis
    using assms
    by (auto simp: pool_add_nodes_def * dest!: alloc_run_length split: if_splits prod.splits)
qed

lemma pool_nodes_count:
  assumes "pool_nodes fAlloc fFree fs bs p cs = Some (fs', bs', p', rs)"
  shows "length fs' = pool_count (length fs) cs rs
         \<and> length fs' \<le> length fs + pool_created cs rs"
  using assms
proof (induction cs arbitrary: fs bs p rs)
  case Nil
  then show ?case by auto
next
  case (Cons c cs)
  show ?case
  proof (cases c)
    case (PoolAdd n)
    obtain fs1 bs1 p1 r where m: "pool_add_nodes fAlloc fs bs p n = (fs1, bs1, p1, r)"
      by (cases "pool_add_nodes fAlloc fs bs p n") auto
    with Cons.prems PoolAdd obtain rs1 where
      rs: "rs = r # rs1" and n1: "pool_nodes fAlloc fFree fs1 bs1 p1 cs = Some (fs', bs', p', rs1)"
      by (auto split: option.splits if_splits)
    from Cons.IH [OF n1] pool_add_nodes_count [OF m] rs PoolAdd
    show ?thesis by simp
  next
    case (PoolRemove n)
    with Cons.prems obtain rs1 where
      rs: "rs = of_nat (min (unat n) (length fs)) # rs1"
      and n1: "pool_nodes fAlloc fFree (drop (unat n) fs) bs
                 (fold (free_node fFree) (take (unat n) fs) p) cs = Some (fs', bs', p', rs1)"
      by (auto split: option.splits)
    from Cons.IH [OF n1] rs PoolRemove
    show ?thesis by auto
  qed
qed


text \<open>
  Claim C8 (amended). For every sequence of \<open>PoolAdd\<close> and \<open>PoolRemove\<close> calls on one
  direction, with an allocator that returns fresh nodes, all the calls return and the
  free-list node count follows the calls one by one: a \<open>PoolAdd\<close> adds the value it
  returned, which is the number of nodes it created into the free list (the nodes of
  \<open>alloc_run\<close>: it stops at the first allocation that fails), a \<open>PoolRemove\<close> takes the
  requested number away, clamped at 0 at that call; the count never exceeds the number
  of nodes created. A \<open>PoolAdd\<close> that finds the busy list of the direction empty first
  allocates one more node and seats it alone in the busy list; that node is not
  counted in the returned value.
\<close>

theorem PoolAdd_PoolRemove_count:
  assumes "dType \<noteq> DRV_ETHMAC_DCPT_TYPE_ALL"
    and "dcpt_list (mem s) (pool_free dType s) fs"
    and "dcpt_list (mem s) (pool_busy dType s) bs"
  shows "(pool_nodes fAlloc fFree fs bs p cs = Some (fs', bs', p', rs) \<longrightarrow>
            (\<exists>s'. pool_calls pf dType fAlloc fFree s p cs = Some (s', p', rs)
               \<and> dcpt_list (mem s') (pool_free dType s') fs'
               \<and> dcpt_list (mem s') (pool_busy dType s') bs'
               \<and> length fs' = pool_count (length fs) cs rs
               \<and> length fs' \<le> length fs + pool_created cs rs))
         \<and> (bs = [] \<and> fAlloc p = (a, p1) \<and> a \<noteq> 0
              \<and> alloc_run fAlloc p1 (unat n) = (as, p2) \<and> distinct (fs @ as @ [a]) \<longrightarrow>
            (\<exists>s' r. DRV_ETHMAC_LibDescriptorsPoolAdd pf s n dType (Some fAlloc) p = Some (s', p2, r)
               \<and> unat r = length as \<and> length as \<le> unat n
               \<and> dcpt_list (mem s') (pool_free dType s') (fs @ as)
               \<and> dcpt_list (mem s') (pool_busy dType s') [a]))"
proof (intro conjI impI)
  assume m: "pool_nodes fAlloc fFree fs bs p cs = Some (fs', bs', p', rs)"
  from pool_calls_spec [OF assms m, of pf]
  obtain s' where c: "pool_calls pf dType fAlloc fFree s p cs = Some (s', p', rs)"
    "dcpt_list (mem s') (pool_free dType s') fs'"
    "dcpt_list (mem s') (pool_busy dType s') bs'" by (elim exE conjE)
  from pool_nodes_count [OF m]
  have n: "length fs' = pool_count (length fs) cs rs"
    "length fs' \<le> length fs + pool_created cs rs" by simp_all
  show "\<exists>s'. pool_calls pf dType fAlloc fFree s p cs = Some (s', p', rs)
               \<and> dcpt_list (mem s') (pool_free dType s') fs'
               \<and> dcpt_list (mem s') (pool_busy dType s') bs'
               \<and> length fs' = pool_count (length fs) cs rs
               \<and> length fs' \<le> length fs + pool_created cs rs"
    by (rule exI [of _ s']) (intro conjI c n)
next
  assume h: "bs = [] \<and> fAlloc p = (a, p1) \<and> a \<noteq> 0
              \<and> alloc_run fAlloc p1 (unat n) = (as, p2) \<and> distinct (fs @ as @ [a])"
  note h' = conjunct1 [OF h] conjunct1 [OF conjunct2 [OF h]]
    conjunct1 [OF conjunct2 [OF conjunct2 [OF h]]]
    conjunct1 [OF conjunct2 [OF conjunct2 [OF conjunct2 [OF h]]]]
    conjunct2 [OF conjunct2 [OF conjunct2 [OF conjunct2 [OF h]]]]
  have m: "pool_add_nodes fAlloc fs bs p n = (fs @ as, [a], p2, of_nat (length as))"
    unfolding pool_add_nodes_def by (simp only: h' if_True if_False prod.case refl)
  have dd: "distinct ((fs @ as) @ [a])" using h'(5) by simp
  have len: "length as \<le> unat n" by (rule alloc_run_length [OF h'(4)])
  then have u: "unat (of_nat (length as) :: 32 word) = length as" by (rule le_unat_uoi)
  from PoolAdd_spec [OF assms m dd, of pf]
  obtain s' where c: "DRV_ETHMAC_LibDescriptorsPoolAdd pf s n dType (Some fAlloc) p
      = Some (s', p2, of_nat (length as))"
    "dcpt_list (mem s') (pool_free dType s') (fs @ as)"
    "dcpt_list (mem s') (pool_busy dType s') [a]" by (elim exE conjE)
  show "\<exists>s' r. DRV_ETHMAC_LibDescriptorsPoolAdd pf s n dType (Some fAlloc) p = Some (s', p2, r)
               \<and> unat r = length as \<and> length as \<le> unat n
               \<and> dcpt_list (mem s') (pool_free dType s') (fs @ as)
               \<and> dcpt_list (mem s') (pool_busy dType s') [a]"
    by (rule exI [of _ s'], rule exI [of _ "of_nat (length as)"]) (intro conjI c u len)
qed

lemma alloc_run_numeral:
  "alloc_run fAlloc p (numeral k) =
     (case fAlloc p of
        (a, p') \<Rightarrow>
          if a = 0 then ([], p')
          else (case alloc_run fAlloc p' (pred_numeral k) of (as, p'') \<Rightarrow> (a # as, p'')))"
  by (simp add: numeral_eq_Suc)

lemma mac0_pool_wf:
  "dcpt_list (mem mac0) (pool_free DRV_ETHMAC_DCPT_TYPE_TX mac0) []"
  "dcpt_list (mem mac0) (pool_busy DRV_ETHMAC_DCPT_TYPE_TX mac0) []"
  by (simp_all add: pool_free_def pool_busy_def mac0_def ListInit_list)

theorem PoolAdd_PoolRemove_count_witness:
  "dcpt_list (mem mac0) (pool_free DRV_ETHMAC_DCPT_TYPE_TX mac0) []
   \<and> dcpt_list (mem mac0) (pool_busy DRV_ETHMAC_DCPT_TYPE_TX mac0) []
   \<and> pool_nodes alloc_supply (Some free_supply) [] [] [0x100, 0x120, 0x140, 0x160, 0x180]
        [PoolAdd 2, PoolRemove 1, PoolAdd 5]
       = Some ([0x140, 0x160, 0x180, 0x120], [0x100], [], [2, 1, 3])
   \<and> alloc_supply [0x100, 0x120, 0x140, 0x160, 0x180] = (0x100, [0x120, 0x140, 0x160, 0x180])
   \<and> alloc_run alloc_supply [0x120, 0x140, 0x160, 0x180] (unat (2 :: 32 word))
       = ([0x120, 0x140], [0x160, 0x180])
   \<and> (\<exists>s'. pool_calls kseg DRV_ETHMAC_DCPT_TYPE_TX alloc_supply (Some free_supply) mac0
              [0x100, 0x120, 0x140, 0x160, 0x180] [PoolAdd 2, PoolRemove 1, PoolAdd 5]
            = Some (s', [], [2, 1, 3])
         \<and> dcpt_list (mem s') (pool_free DRV_ETHMAC_DCPT_TYPE_TX s') [0x140, 0x160, 0x180, 0x120]
         \<and> dcpt_list (mem s') (pool_busy DRV_ETHMAC_DCPT_TYPE_TX s') [0x100]
         \<and> pool_count 0 [PoolAdd 2, PoolRemove 1, PoolAdd 5] [2, 1, 3] = 4
         \<and> pool_created [PoolAdd 2, PoolRemove 1, PoolAdd 5] [2, 1, 3] = 5)
   \<and> (\<exists>s'. DRV_ETHMAC_LibDescriptorsPoolAdd kseg mac0 2 DRV_ETHMAC_DCPT_TYPE_TX (Some alloc_supply)
              [0x100, 0x120, 0x140, 0x160, 0x180]
            = Some (s', [0x160, 0x180], 2)
         \<and> dcpt_list (mem s') (pool_free DRV_ETHMAC_DCPT_TYPE_TX s') [0x120, 0x140]
         \<and> dcpt_list (mem s') (pool_busy DRV_ETHMAC_DCPT_TYPE_TX s') [0x100])"
proof -
  have dT: "DRV_ETHMAC_DCPT_TYPE_TX \<noteq> DRV_ETHMAC_DCPT_TYPE_ALL" by simp
  have m: "pool_nodes alloc_supply (Some free_supply) [] [] [0x100, 0x120, 0x140, 0x160, 0x180]
        [PoolAdd 2, PoolRemove 1, PoolAdd 5]
       = Some ([0x140, 0x160, 0x180, 0x120], [0x100], [], [2, 1, 3])"
    by (simp add: pool_add_nodes_def free_node_def free_supply_def alloc_run_numeral)
  have a: "alloc_supply [0x100, 0x120, 0x140, 0x160, 0x180] = (0x100, [0x120, 0x140, 0x160, 0x180])"
    by simp
  have r: "alloc_run alloc_supply [0x120, 0x140, 0x160, 0x180] (unat (2 :: 32 word))
       = ([0x120, 0x140], [0x160, 0x180])"
    by (simp add: alloc_run_numeral)
  note T = PoolAdd_PoolRemove_count [OF dT mac0_pool_wf, of alloc_supply "Some free_supply"
      "[0x100, 0x120, 0x140, 0x160, 0x180]" "[PoolAdd 2, PoolRemove 1, PoolAdd 5]"
      "[0x140, 0x160, 0x180, 0x120]" "[0x100]" "[]" "[2, 1, 3]" kseg
      "0x100" "[0x120, 0x140, 0x160, 0x180]" 2 "[0x120, 0x140]" "[0x160, 0x180]"]
  have "\<exists>s'. pool_calls kseg DRV_ETHMAC_DCPT_TYPE_TX alloc_supply (Some free_supply) mac0
              [0x100, 0x120, 0x140, 0x160, 0x180] [PoolAdd 2, PoolRemove 1, PoolAdd 5]
            = Some (s', [], [2, 1, 3])
         \<and> dcpt_list (mem s') (pool_free DRV_ETHMAC_DCPT_TYPE_TX s') [0x140, 0x160, 0x180, 0x120]
         \<and> dcpt_list (mem s') (pool_busy DRV_ETHMAC_DCPT_TYPE_TX s') [0x100]
         \<and> length [0x140, 0x160, 0x180, 0x120 :: addr]
             = pool_count (length ([] :: addr list)) [PoolAdd 2, PoolRemove 1, PoolAdd 5] [2, 1, 3]
         \<and> length [0x140, 0x160, 0x180, 0x120 :: addr]
             \<le> length ([] :: addr list) + pool_created [PoolAdd 2, PoolRemove 1, PoolAdd 5] [2, 1, 3]"
    by (rule mp [OF conjunct1 [OF T] m])
  then obtain s1 where
    c1: "pool_calls kseg DRV_ETHMAC_DCPT_TYPE_TX alloc_supply (Some free_supply) mac0
              [0x100, 0x120, 0x140, 0x160, 0x180] [PoolAdd 2, PoolRemove 1, PoolAdd 5]
            = Some (s1, [], [2, 1, 3])"
    and f1: "dcpt_list (mem s1) (pool_free DRV_ETHMAC_DCPT_TYPE_TX s1) [0x140, 0x160, 0x180, 0x120]"
    and b1: "dcpt_list (mem s1) (pool_busy DRV_ETHMAC_DCPT_TYPE_TX s1) [0x100]"
    by (elim exE conjE)
  have n1: "pool_count 0 [PoolAdd 2, PoolRemove 1, PoolAdd 5] [2, 1, 3] = 4"
    and n2: "pool_created [PoolAdd 2, PoolRemove 1, PoolAdd 5] [2, 1, 3] = 5"
    by simp_all
  have "\<exists>s' r. DRV_ETHMAC_LibDescriptorsPoolAdd kseg mac0 2 DRV_ETHMAC_DCPT_TYPE_TX (Some alloc_supply)
              [0x100, 0x120, 0x140, 0x160, 0x180] = Some (s', [0x160, 0x180], r)
         \<and> unat r = length [0x120, 0x140 :: addr] \<and> length [0x120, 0x140 :: addr] \<le> unat (2 :: 32 word)
         \<and> dcpt_list (mem s') (pool_free DRV_ETHMAC_DCPT_TYPE_TX s') ([] @ [0x120, 0x140])
         \<and> dcpt_list (mem s') (pool_busy DRV_ETHMAC_DCPT_TYPE_TX s') [0x100]"
    by (rule mp [OF conjunct2 [OF T]]) (simp add: alloc_run_numeral)
  then obtain s2 r2 where
    c2: "DRV_ETHMAC_LibDescriptorsPoolAdd kseg mac0 2 DRV_ETHMAC_DCPT_TYPE_TX (Some alloc_supply)
              [0x100, 0x120, 0x140, 0x160, 0x180] = Some (s2, [0x160, 0x180], r2)"
    and u2: "unat r2 = length [0x120, 0x140 :: addr]"
    and f2: "dcpt_list (mem s2) (pool_free DRV_ETHMAC_DCPT_TYPE_TX s2) ([] @ [0x120, 0x140])"
    and b2: "dcpt_list (mem s2) (pool_busy DRV_ETHMAC_DCPT_TYPE_TX s2) [0x100]"
    by (elim exE conjE)
  have "unat r2 = unat (2 :: 32 word)" using u2 by simp
  then have r2: "r2 = 2" by (simp only: word_unat_eq_iff)
  have f2': "dcpt_list (mem s2) (pool_free DRV_ETHMAC_DCPT_TYPE_TX s2) [0x120, 0x140]"
    using f2 by simp
  show ?thesis
  proof (intro conjI)
    show "\<exists>s'. pool_calls kseg DRV_ETHMAC_DCPT_TYPE_TX alloc_supply (Some free_supply) mac0
              [0x100, 0x120, 0x140, 0x160, 0x180] [PoolAdd 2, PoolRemove 1, PoolAdd 5]
            = Some (s', [], [2, 1, 3])
         \<and> dcpt_list (mem s') (pool_free DRV_ETHMAC_DCPT_TYPE_TX s') [0x140, 0x160, 0x180, 0x120]
         \<and> dcpt_list (mem s') (pool_busy DRV_ETHMAC_DCPT_TYPE_TX s') [0x100]
         \<and> pool_count 0 [PoolAdd 2, PoolRemove 1, PoolAdd 5] [2, 1, 3] = 4
         \<and> pool_created [PoolAdd 2, PoolRemove 1, PoolAdd 5] [2, 1, 3] = 5"
      by (rule exI [of _ s1]) (intro conjI c1 f1 b1 n1 n2)
    show "\<exists>s'. DRV_ETHMAC_LibDescriptorsPoolAdd kseg mac0 2 DRV_ETHMAC_DCPT_TYPE_TX (Some alloc_supply)
              [0x100, 0x120, 0x140, 0x160, 0x180]
            = Some (s', [0x160, 0x180], 2)
         \<and> dcpt_list (mem s') (pool_free DRV_ETHMAC_DCPT_TYPE_TX s') [0x120, 0x140]
         \<and> dcpt_list (mem s') (pool_busy DRV_ETHMAC_DCPT_TYPE_TX s') [0x100]"
      by (rule exI [of _ s2]) (intro conjI c2 [unfolded r2] f2' b2)
  qed (rule mac0_pool_wf(1) mac0_pool_wf(2) m a r)+
qed

text \<open>
  Claim C8 as stated fails: adding two nodes, asking for the removal of five and
  adding three leaves three nodes in the free list, where the nodes created (five)
  minus the requested removals (five) is zero. The removal is clamped when it is made,
  not at the end of the sequence.
\<close>

theorem PoolAdd_PoolRemove_final_clamp_counterexample:
  "dcpt_list (mem mac0) (pool_free DRV_ETHMAC_DCPT_TYPE_TX mac0) []
   \<and> dcpt_list (mem mac0) (pool_busy DRV_ETHMAC_DCPT_TYPE_TX mac0) []
   \<and> (case pool_calls kseg DRV_ETHMAC_DCPT_TYPE_TX alloc_supply (Some free_supply) mac0
              [0x100, 0x120, 0x140, 0x160, 0x180, 0x1A0] [PoolAdd 2, PoolRemove 5, PoolAdd 3] of
         None \<Rightarrow> False
       | Some (s', p', rs) \<Rightarrow>
           rs = [2, 2, 3]
           \<and> dcpt_list (mem s') (pool_free DRV_ETHMAC_DCPT_TYPE_TX s') [0x160, 0x180, 0x1A0]
           \<and> pool_created [PoolAdd 2, PoolRemove 5, PoolAdd 3] rs - unat (5 :: 32 word) = 0
           \<and> length [0x160, 0x180, 0x1A0 :: addr] = 3)"
proof -
  have dT: "DRV_ETHMAC_DCPT_TYPE_TX \<noteq> DRV_ETHMAC_DCPT_TYPE_ALL" by simp
  have m: "pool_nodes alloc_supply (Some free_supply) [] [] [0x100, 0x120, 0x140, 0x160, 0x180, 0x1A0]
        [PoolAdd 2, PoolRemove 5, PoolAdd 3]
       = Some ([0x160, 0x180, 0x1A0], [0x100], [0x120, 0x140], [2, 2, 3])"
    by (simp add: pool_add_nodes_def free_node_def free_supply_def alloc_run_numeral)
  from pool_calls_spec [OF dT mac0_pool_wf m, of kseg]
  obtain s1 where
    c1: "pool_calls kseg DRV_ETHMAC_DCPT_TYPE_TX alloc_supply (Some free_supply) mac0
              [0x100, 0x120, 0x140, 0x160, 0x180, 0x1A0] [PoolAdd 2, PoolRemove 5, PoolAdd 3]
            = Some (s1, [0x120, 0x140], [2, 2, 3])"
    and f1: "dcpt_list (mem s1) (pool_free DRV_ETHMAC_DCPT_TYPE_TX s1) [0x160, 0x180, 0x1A0]"
    by (elim exE conjE)
  have c: "case pool_calls kseg DRV_ETHMAC_DCPT_TYPE_TX alloc_supply (Some free_supply) mac0
              [0x100, 0x120, 0x140, 0x160, 0x180, 0x1A0] [PoolAdd 2, PoolRemove 5, PoolAdd 3] of
         None \<Rightarrow> False
       | Some (s', p', rs) \<Rightarrow>
           rs = [2, 2, 3]
           \<and> dcpt_list (mem s') (pool_free DRV_ETHMAC_DCPT_TYPE_TX s') [0x160, 0x180, 0x1A0]
           \<and> pool_created [PoolAdd 2, PoolRemove 5, PoolAdd 3] rs - unat (5 :: 32 word) = 0
           \<and> length [0x160, 0x180, 0x1A0 :: addr] = 3"
    unfolding c1 using f1 by simp
  show ?thesis by (intro conjI mac0_pool_wf(1) mac0_pool_wf(2) c)
qed

section \<open>Receive with an output chain that is too short\<close>

lemma mac_rx2_wf: "dcpt_list (mem mac_rx2) (EnetRxBusyPtr mac_rx2) [0x400, 0x420, 0x440]"
  by (simp add: dcpt_list_def mac_rx2_def mac0_def node0_def)

lemma mac_rx2_short_chain_no_count:
  "DRV_ETHMAC_LibRxGetPacket kseg mac_rx2 [\<lparr>pBuff = 0, nBytes = 0\<rparr>] False False
     = Some (mac_rx2, [\<lparr>pBuff = 0x80001000, nBytes = 64\<rparr>], None, None, DRV_ETHMAC_RES_OK)"
  unfolding DRV_ETHMAC_LibRxGetPacket_def
  by (subst RxGetPacket_loop.simps, subst RxGetPacket_pkt.simps, subst RxGetPacket_pkt.simps)
     (simp add: mac_rx2_def mac0_def node0_def hdr_w_0_def kseg_def Let_def)

lemma mac_rx2_short_chain_count:
  "DRV_ETHMAC_LibRxGetPacket kseg mac_rx2 [\<lparr>pBuff = 0, nBytes = 0\<rparr>] True False
     = Some (mac_rx2, [\<lparr>pBuff = 0x80001000, nBytes = 64\<rparr>], Some 2, None,
             DRV_ETHMAC_RES_RX_PKT_SPLIT_ERR)"
  unfolding DRV_ETHMAC_LibRxGetPacket_def
  by (subst RxGetPacket_loop.simps, subst RxGetPacket_pkt.simps, subst RxGetPacket_pkt.simps)
     (simp add: mac_rx2_def mac0_def node0_def hdr_w_0_def kseg_def Let_def)

text \<open>
  Claim C5 does not hold of the code. RX-busy holds a completed packet of two buffers
  (start of packet in node 0x400, end of packet in node 0x420, both owned by the
  software, not yet reported) and the caller passes a chain of one slot.

  \<^item> With a null \<open>pnBuffs\<close> the call returns \<open>DRV_ETHMAC_RES_OK\<close>, not
    \<open>DRV_ETHMAC_RES_RX_PKT_SPLIT_ERR\<close>: once the chain is used up, the condition of the
    loop of line 1049 is false, and the loop is left before the end of the packet, so
    that the comparison of line 1076 is never made. The caller's slot holds the first
    buffer, nothing is stored for the count, and the memory is unchanged: the packet is
    not marked as reported.

  \<^item> With a \<open>pnBuffs\<close> that is not null the same call walks to the end of the packet,
    stores the count 2, returns \<open>DRV_ETHMAC_RES_RX_PKT_SPLIT_ERR\<close> and leaves the memory
    unchanged, as the claim says.
\<close>

theorem RxGetPacket_short_chain_null_pnBuffs_returns_OK:
  "dcpt_list (mem mac_rx2) (EnetRxBusyPtr mac_rx2) [0x400, 0x420, 0x440]
   \<and> SOP (hdr (mem mac_rx2 0x400)) \<and> \<not> EOP (hdr (mem mac_rx2 0x400))
   \<and> \<not> rx_wack (hdr (mem mac_rx2 0x400)) \<and> \<not> EOWN (hdr (mem mac_rx2 0x400))
   \<and> EOP (hdr (mem mac_rx2 0x420)) \<and> \<not> EOWN (hdr (mem mac_rx2 0x420))
   \<and> DRV_ETHMAC_LibRxGetPacket kseg mac_rx2 [\<lparr>pBuff = 0, nBytes = 0\<rparr>] False False
       = Some (mac_rx2, [\<lparr>pBuff = 0x80001000, nBytes = 64\<rparr>], None, None, DRV_ETHMAC_RES_OK)
   \<and> DRV_ETHMAC_LibRxGetPacket kseg mac_rx2 [\<lparr>pBuff = 0, nBytes = 0\<rparr>] True False
       = Some (mac_rx2, [\<lparr>pBuff = 0x80001000, nBytes = 64\<rparr>], Some 2, None,
               DRV_ETHMAC_RES_RX_PKT_SPLIT_ERR)"
proof -
  have f: "SOP (hdr (mem mac_rx2 0x400))" "\<not> EOP (hdr (mem mac_rx2 0x400))"
    "\<not> rx_wack (hdr (mem mac_rx2 0x400))" "\<not> EOWN (hdr (mem mac_rx2 0x400))"
    "EOP (hdr (mem mac_rx2 0x420))" "\<not> EOWN (hdr (mem mac_rx2 0x420))"
    by (simp_all add: mac_rx2_def mac0_def node0_def hdr_w_0_def)
  show ?thesis
    by (intro conjI mac_rx2_wf f mac_rx2_short_chain_no_count mac_rx2_short_chain_count)
qed

end
